(* ===== verification/Minos_Prelude.thy ===== *)
theory Minos_Prelude
  imports Main "HOL-Library.Word"
begin

text \<open>
  Shared material of the development: the integer types of
  \<^verbatim>\<open>include/minos/types.h\<close>, the error numbers of \<^verbatim>\<open>include/minos/errno.h\<close>, the
  alignment macros, the two ways a kernel path can stop instead of returning
  (\<^verbatim>\<open>ASSERT\<close>/\<^verbatim>\<open>panic\<close> and an access outside of an object), and the generic lemmas on words and
  lists that the component theories use. The collection \<open>bm_simps\<close> holds the
  bit-level rules of the bitmap interface, \<open>frame_simps\<close> the facts that say which
  fields an operation leaves alone.
\<close>

unbundle bit_operations_syntax

named_theorems bm_simps \<open>bit-level characterisation of bitmap operations\<close>
named_theorems frame_simps \<open>fields an operation leaves unchanged\<close>

section \<open>Integer types and error numbers\<close>

type_synonym u8 = "8 word"
type_synonym u16 = "16 word"
type_synonym u32 = "32 word"
type_synonym u64 = "64 word"

abbreviation (input) EPERM :: int where "EPERM \<equiv> 1"
abbreviation (input) ENOENT :: int where "ENOENT \<equiv> 2"
abbreviation (input) EAGAIN :: int where "EAGAIN \<equiv> 11"
abbreviation (input) ENOMEM :: int where "ENOMEM \<equiv> 12"
abbreviation (input) EACCES :: int where "EACCES \<equiv> 13"
abbreviation (input) EBUSY :: int where "EBUSY \<equiv> 16"
abbreviation (input) EINVAL :: int where "EINVAL \<equiv> 22"
abbreviation (input) ENOSPC :: int where "ENOSPC \<equiv> 28"
abbreviation (input) EIO :: int where "EIO \<equiv> 5"
abbreviation (input) E2BIG :: int where "E2BIG \<equiv> 7"
abbreviation (input) EFAULT :: int where "EFAULT \<equiv> 14"
abbreviation (input) EEXIST :: int where "EEXIST \<equiv> 17"
abbreviation (input) ENODEV :: int where "ENODEV \<equiv> 19"
abbreviation (input) EOVERFLOW :: int where "EOVERFLOW \<equiv> 75"
abbreviation (input) ETIMEDOUT :: int where "ETIMEDOUT \<equiv> 110"
abbreviation (input) EABORT :: int where "EABORT \<equiv> 134"

text \<open>
  A path that hits a failing \<^verbatim>\<open>ASSERT\<close>, a \<^verbatim>\<open>panic\<close>, a \<^verbatim>\<open>BUG\<close> or dereferences NULL does not
  return; such paths are the left values of a sum. \<open>Spinning\<close> is a busy-wait loop whose
  condition the executing CPU itself cannot change.
\<close>

datatype fault = Assert_Failed | Panicked | Null_Deref | Out_Of_Bounds | Spinning

type_synonym 'a res = "fault + 'a"

text \<open>Sequencing of steps that may stop.\<close>

definition thenR :: "'a res \<Rightarrow> ('a \<Rightarrow> 'b res) \<Rightarrow> 'b res" where
  "thenR r k = (case r of Inl e \<Rightarrow> Inl e | Inr x \<Rightarrow> k x)"

lemma thenR_simps [simp]: "thenR (Inl e) k = Inl e" "thenR (Inr x) k = k x"
  by (simp_all add: thenR_def)

lemma thenR_eq_Inr [simp]: "thenR r k = Inr y \<longleftrightarrow> (\<exists>x. r = Inr x \<and> k x = Inr y)"
  by (cases r) auto

lemma case_res_iff: "(case r of Inl e \<Rightarrow> False | Inr (a, b) \<Rightarrow> P a b) \<longleftrightarrow> (\<exists>a b. r = Inr (a, b) \<and> P a b)"
  by (cases r) auto

section \<open>Alignment macros\<close>

text \<open>\<^verbatim>\<open>ALIGN\<close>, \<^verbatim>\<open>BALIGN\<close> and the page forms, on \<^verbatim>\<open>unsigned long\<close>.\<close>

definition ALIGN :: "u64 \<Rightarrow> u64 \<Rightarrow> u64" where
  "ALIGN x y = x AND NOT (y - 1)"

definition BALIGN :: "u64 \<Rightarrow> u64 \<Rightarrow> u64" where
  "BALIGN x y = (x + y - 1) AND NOT (y - 1)"

abbreviation (input) PAGE_SIZE :: u64 where "PAGE_SIZE \<equiv> 0x1000"
abbreviation (input) PAGE_SHIFT :: nat where "PAGE_SHIFT \<equiv> 12"
abbreviation (input) PAGE_MASK :: u64 where "PAGE_MASK \<equiv> 0xfff"
abbreviation (input) BLOCK_SIZE :: u64 where "BLOCK_SIZE \<equiv> 0x200000"
abbreviation (input) BLOCK_SHIFT :: nat where "BLOCK_SHIFT \<equiv> 21"
abbreviation (input) BLOCK_MASK :: u64 where "BLOCK_MASK \<equiv> 0x1fffff"

definition PAGE_BALIGN :: "u64 \<Rightarrow> u64" where
  "PAGE_BALIGN x = BALIGN x PAGE_SIZE"

definition PAGE_ALIGN :: "u64 \<Rightarrow> u64" where
  "PAGE_ALIGN x = ALIGN x PAGE_SIZE"

definition IS_PAGE_ALIGN :: "u64 \<Rightarrow> bool" where
  "IS_PAGE_ALIGN x \<longleftrightarrow> x AND (PAGE_SIZE - 1) = 0"

definition IS_BLOCK_ALIGN :: "u64 \<Rightarrow> bool" where
  "IS_BLOCK_ALIGN x \<longleftrightarrow> x AND 0x1fffff = 0"

section \<open>Words: masks, shifts, alignment\<close>

lemma and_not_mask_word:
  fixes x :: "'a::len word"
  shows "x AND NOT (mask n) = push_bit n (drop_bit n x)"
  by (rule bit_word_eqI) (auto simp: bit_simps)

lemma unat_take_bit_word:
  fixes x :: "'a::len word"
  shows "unat (take_bit n x) = unat x mod 2 ^ n"
  by (simp add: unsigned_take_bit_eq flip: take_bit_eq_mod)

lemma unat_and_not_mask:
  fixes x :: "'a::len word"
  shows "unat (x AND NOT (mask n)) = unat x div 2 ^ n * 2 ^ n"
proof -
  have "x AND NOT (mask n) = x - take_bit n x"
    by (simp only: and_not_mask_word eq_diff_eq bits_ident)
  moreover have "take_bit n x \<le> x"
    by (simp add: word_le_nat_alt unat_take_bit_word)
  ultimately have "unat (x AND NOT (mask n)) = unat x - unat x mod 2 ^ n"
    by (simp add: unat_sub unat_take_bit_word)
  then show ?thesis
    by (simp add: minus_mod_eq_div_mult)
qed

lemma unat_bounds: "unat (a :: u8) < 2 ^ 8" "unat (b :: u32) < 2 ^ 32" "unat (c :: u64) < 2 ^ 64"
  using unsigned_less [of a] unsigned_less [of b] unsigned_less [of c] by simp_all

lemma unat_drop_bit_div: "unat (drop_bit n (w :: 'a::len word)) = unat w div 2 ^ n"
  unfolding unat_drop_bit_eq by (rule drop_bit_eq_div)

lemma unat_push_bit_mult:
  "unat w * 2 ^ n < 2 ^ LENGTH('a) \<Longrightarrow> unat (push_bit n (w :: 'a::len word)) = unat w * 2 ^ n"
  unfolding unsigned_push_bit_eq by (simp add: push_bit_eq_mult take_bit_nat_eq_self)

lemma unat_ucast_u32_u64 [simp]: "unat (ucast (x :: u32) :: u64) = unat x"
  unfolding unsigned_ucast_eq using unat_bounds(2) [of x] by (simp add: take_bit_nat_eq_self)

lemma bit_u64_less: "bit (w :: u64) j \<Longrightarrow> j < 64"
  using bit_imp_le_length [of w j] by simp

lemma and_mask_eq_0_iff:
  "(w :: u64) AND mask n = 0 \<longleftrightarrow> (\<forall>j<n. \<not> bit w j)"
proof -
  have "w AND mask n = 0 \<longleftrightarrow> (\<forall>j. \<not> (bit w j \<and> j < n))"
    by (auto simp: bit_eq_iff bit_simps dest: bit_u64_less)
  then show ?thesis by auto
qed

lemma u64_eq_0_iff: "(w :: u64) = 0 \<longleftrightarrow> (\<forall>j<64. \<not> bit w j)"
  by (auto simp: bit_eq_iff)

lemma unat_pow2: "n < 64 \<Longrightarrow> unat (2 ^ n :: u64) = 2 ^ n"
proof -
  assume n: "n < 64"
  have "(2 ^ n :: u64) = of_nat (2 ^ n)"
    by simp
  moreover from n have "(2::nat) ^ n < 2 ^ 64"
    by (rule power_strict_increasing) simp
  ultimately show ?thesis
    by (simp only: unat_of_nat) simp
qed

lemma unat_ALIGN:
  assumes "n < 64"
  shows "unat (ALIGN x (2 ^ n)) = unat x div 2 ^ n * 2 ^ n"
  by (simp add: ALIGN_def unat_and_not_mask flip: mask_eq_exp_minus_1)

lemma unat_BALIGN:
  assumes n: "n < 64" and bound: "unat x + 2 ^ n \<le> 2 ^ 64"
  shows "unat (BALIGN x (2 ^ n)) = (unat x + 2 ^ n - 1) div 2 ^ n * 2 ^ n"
proof -
  have e: "x + 2 ^ n - 1 = x + (2 ^ n - 1)"
    by simp
  have m: "unat (2 ^ n - 1 :: u64) = 2 ^ n - 1"
    using n by (simp add: unat_sub word_le_nat_alt unat_pow2)
  have "(1::nat) \<le> 2 ^ n"
    by simp
  with bound have "unat x + unat (2 ^ n - 1 :: u64) < 2 ^ LENGTH(64)"
    unfolding m by simp
  then have "unat (x + (2 ^ n - 1)) = unat x + unat (2 ^ n - 1 :: u64)"
    by (simp only: unat_add_lem)
  with m have "unat (x + 2 ^ n - 1) = unat x + 2 ^ n - 1"
    unfolding e by simp
  then show ?thesis
    by (simp add: BALIGN_def unat_and_not_mask flip: mask_eq_exp_minus_1)
qed

end
