(* ===== verification/Bitmap.thy ===== *)
theory Bitmap
  imports Minos_Prelude
begin

text \<open>
  Bit search and bitmaps: \<^verbatim>\<open>core/find_bit.c\<close>, \<^verbatim>\<open>core/bitmap.c\<close>, the \<^verbatim>\<open>__ffs\<close>/\<^verbatim>\<open>__fls\<close>
  routines of \<^verbatim>\<open>arch/aarch64/include/asm/bitops.h\<close> and the single-bit operations of
  \<^verbatim>\<open>arch/aarch64/lib/bitops.S\<close>. A bitmap is the list of its 64-bit words; bit
  positions and sizes are naturals (a bitmap that fits in memory never makes the C
  \<^verbatim>\<open>unsigned long\<close> positions wrap). Reads past the last word are unspecified, as in C.
  The allocators of the other components meet the bitmap through the locale
  \<open>id_pool\<close> at the end.
\<close>

unbundle bit_operations_syntax

section \<open>Definitions\<close>

type_synonym bitmap = "u64 list"

subsection \<open>First and last set bit of a word\<close>

definition ffs :: "u64 \<Rightarrow> nat" where
  "ffs word =
     (let (num, word) = (if word AND 0xffffffff = 0 then (32, drop_bit 32 word) else (0, word));
          (num, word) = (if word AND 0xffff = 0 then (num + 16, drop_bit 16 word) else (num, word));
          (num, word) = (if word AND 0xff = 0 then (num + 8, drop_bit 8 word) else (num, word));
          (num, word) = (if word AND 0xf = 0 then (num + 4, drop_bit 4 word) else (num, word));
          (num, word) = (if word AND 0x3 = 0 then (num + 2, drop_bit 2 word) else (num, word))
      in if word AND 0x1 = 0 then num + 1 else num)"

definition fls :: "u64 \<Rightarrow> nat" where
  "fls word =
     (let num = 63;
          (num, word) = (if word AND push_bit 32 (NOT 0) = 0 then (num - 32, push_bit 32 word) else (num, word));
          (num, word) = (if word AND push_bit (64 - 16) (NOT 0) = 0 then (num - 16, push_bit 16 word) else (num, word));
          (num, word) = (if word AND push_bit (64 - 8) (NOT 0) = 0 then (num - 8, push_bit 8 word) else (num, word));
          (num, word) = (if word AND push_bit (64 - 4) (NOT 0) = 0 then (num - 4, push_bit 4 word) else (num, word));
          (num, word) = (if word AND push_bit (64 - 2) (NOT 0) = 0 then (num - 2, push_bit 2 word) else (num, word))
      in if word AND push_bit (64 - 1) (NOT 0) = 0 then num - 1 else num)"

definition ffz :: "u64 \<Rightarrow> nat" where
  "ffz word = ffs (NOT word)"

subsection \<open>The lowest-set-bit table\<close>

definition ffs_one_table :: "int list" where
  "ffs_one_table = [
     - 1, 0, 1, 0, 2, 0, 1, 0, 3, 0, 1, 0, 2, 0, 1, 0,
     4, 0, 1, 0, 2, 0, 1, 0, 3, 0, 1, 0, 2, 0, 1, 0,
     5, 0, 1, 0, 2, 0, 1, 0, 3, 0, 1, 0, 2, 0, 1, 0,
     4, 0, 1, 0, 2, 0, 1, 0, 3, 0, 1, 0, 2, 0, 1, 0,
     6, 0, 1, 0, 2, 0, 1, 0, 3, 0, 1, 0, 2, 0, 1, 0,
     4, 0, 1, 0, 2, 0, 1, 0, 3, 0, 1, 0, 2, 0, 1, 0,
     5, 0, 1, 0, 2, 0, 1, 0, 3, 0, 1, 0, 2, 0, 1, 0,
     4, 0, 1, 0, 2, 0, 1, 0, 3, 0, 1, 0, 2, 0, 1, 0,
     7, 0, 1, 0, 2, 0, 1, 0, 3, 0, 1, 0, 2, 0, 1, 0,
     4, 0, 1, 0, 2, 0, 1, 0, 3, 0, 1, 0, 2, 0, 1, 0,
     5, 0, 1, 0, 2, 0, 1, 0, 3, 0, 1, 0, 2, 0, 1, 0,
     4, 0, 1, 0, 2, 0, 1, 0, 3, 0, 1, 0, 2, 0, 1, 0,
     6, 0, 1, 0, 2, 0, 1, 0, 3, 0, 1, 0, 2, 0, 1, 0,
     4, 0, 1, 0, 2, 0, 1, 0, 3, 0, 1, 0, 2, 0, 1, 0,
     5, 0, 1, 0, 2, 0, 1, 0, 3, 0, 1, 0, 2, 0, 1, 0,
     4, 0, 1, 0, 2, 0, 1, 0, 3, 0, 1, 0, 2, 0, 1, 0]"

subsection \<open>Single bits\<close>

text \<open>The assembly routines address a bit as bit \<open>nr mod 32\<close> of the 32-bit word \<open>nr div 32\<close>; on the little-endian
  64-bit words of the other routines that is bit \<open>nr mod 64\<close> of word \<open>nr div 64\<close>. The exclusive load and store retry
  until the update is atomic.\<close>

definition bm_test_bit :: "nat \<Rightarrow> bitmap \<Rightarrow> bool" where
  "bm_test_bit nr p \<longleftrightarrow> drop_bit (nr mod 64) (p ! (nr div 64)) AND 1 = 1"

definition bm_set_bit :: "nat \<Rightarrow> bitmap \<Rightarrow> bitmap" where
  "bm_set_bit nr p = p[nr div 64 := p ! (nr div 64) OR push_bit (nr mod 64) 1]"

definition bm_clear_bit :: "nat \<Rightarrow> bitmap \<Rightarrow> bitmap" where
  "bm_clear_bit nr p = p[nr div 64 := p ! (nr div 64) AND NOT (push_bit (nr mod 64) 1)]"

definition bm_change_bit :: "nat \<Rightarrow> bitmap \<Rightarrow> bitmap" where
  "bm_change_bit nr p = p[nr div 64 := p ! (nr div 64) XOR push_bit (nr mod 64) 1]"

definition test_and_set_bit :: "nat \<Rightarrow> bitmap \<Rightarrow> bool \<times> bitmap" where
  "test_and_set_bit nr p = (bm_test_bit nr p, bm_set_bit nr p)"

definition test_and_clear_bit :: "nat \<Rightarrow> bitmap \<Rightarrow> bool \<times> bitmap" where
  "test_and_clear_bit nr p = (bm_test_bit nr p, bm_clear_bit nr p)"

subsection \<open>Searching\<close>

definition BITMAP_FIRST_WORD_MASK :: "nat \<Rightarrow> u64" where
  "BITMAP_FIRST_WORD_MASK start = push_bit (start mod 64) (NOT 0)"

definition BITMAP_LAST_WORD_MASK :: "nat \<Rightarrow> u64" where
  "BITMAP_LAST_WORD_MASK nbits = drop_bit ((64 - nbits mod 64) mod 64) (NOT 0)"

text \<open>The \<^verbatim>\<open>while (!tmp)\<close> loop of \<^verbatim>\<open>_find_next_bit\<close>; \<open>start\<close> is a multiple of 64.\<close>

function find_next_bit_while :: "bitmap \<Rightarrow> nat \<Rightarrow> nat \<Rightarrow> u64 \<Rightarrow> u64 \<Rightarrow> nat" where
  "find_next_bit_while addr nbits start invert tmp =
     (if tmp = 0 then
        (if start + 64 \<ge> nbits then nbits
         else find_next_bit_while addr nbits (start + 64) invert
                (addr ! ((start + 64) div 64) XOR invert))
      else min (start + ffs tmp) nbits)"
  by pat_completeness auto
termination
  by (relation "measure (\<lambda>(addr, nbits, start, invert, tmp). nbits - start)") auto

definition find_next_bit_gen :: "bitmap \<Rightarrow> nat \<Rightarrow> nat \<Rightarrow> u64 \<Rightarrow> nat" where
  "find_next_bit_gen addr nbits start invert =
     (if nbits = 0 \<or> start \<ge> nbits then nbits
      else find_next_bit_while addr nbits (start div 64 * 64) invert
             ((addr ! (start div 64) XOR invert) AND BITMAP_FIRST_WORD_MASK start))"

definition find_next_bit :: "bitmap \<Rightarrow> nat \<Rightarrow> nat \<Rightarrow> nat" where
  "find_next_bit addr sz offset = find_next_bit_gen addr sz offset 0"

definition find_next_zero_bit :: "bitmap \<Rightarrow> nat \<Rightarrow> nat \<Rightarrow> nat" where
  "find_next_zero_bit addr sz offset = find_next_bit_gen addr sz offset (NOT 0)"

text \<open>The \<^verbatim>\<open>goto loop\<close> of \<^verbatim>\<open>_find_next_bit_loop\<close> is taken at most once, since it sets
  \<^verbatim>\<open>offset\<close> to 0.\<close>

definition find_next_bit_loop_gen :: "bitmap \<Rightarrow> nat \<Rightarrow> nat \<Rightarrow> u64 \<Rightarrow> nat" where
  "find_next_bit_loop_gen addr sz offset invert =
     (let bit = find_next_bit_gen addr sz offset invert in
      if bit \<ge> sz \<and> offset \<noteq> 0 then find_next_bit_gen addr sz 0 invert else bit)"

definition find_next_bit_loop :: "bitmap \<Rightarrow> nat \<Rightarrow> nat \<Rightarrow> nat" where
  "find_next_bit_loop addr sz offset = find_next_bit_loop_gen addr sz offset 0"

definition find_next_zero_bit_loop :: "bitmap \<Rightarrow> nat \<Rightarrow> nat \<Rightarrow> nat" where
  "find_next_zero_bit_loop addr sz offset = find_next_bit_loop_gen addr sz offset (NOT 0)"

function find_first_bit_from :: "bitmap \<Rightarrow> nat \<Rightarrow> nat \<Rightarrow> nat" where
  "find_first_bit_from addr sz idx =
     (if idx * 64 < sz then
        (if addr ! idx \<noteq> 0 then min (idx * 64 + ffs (addr ! idx)) sz
         else find_first_bit_from addr sz (idx + 1))
      else sz)"
  by pat_completeness auto
termination
  by (relation "measure (\<lambda>(addr, sz, idx). sz - idx)") auto

definition find_first_bit :: "bitmap \<Rightarrow> nat \<Rightarrow> nat" where
  "find_first_bit addr sz = find_first_bit_from addr sz 0"

function find_first_zero_bit_from :: "bitmap \<Rightarrow> nat \<Rightarrow> nat \<Rightarrow> nat" where
  "find_first_zero_bit_from addr sz idx =
     (if idx * 64 < sz then
        (if addr ! idx \<noteq> NOT 0 then min (idx * 64 + ffz (addr ! idx)) sz
         else find_first_zero_bit_from addr sz (idx + 1))
      else sz)"
  by pat_completeness auto
termination
  by (relation "measure (\<lambda>(addr, sz, idx). sz - idx)") auto

definition find_first_zero_bit :: "bitmap \<Rightarrow> nat \<Rightarrow> nat" where
  "find_first_zero_bit addr sz = find_first_zero_bit_from addr sz 0"

text \<open>The \<^verbatim>\<open>do ... while (idx--)\<close> loop of \<^verbatim>\<open>find_last_bit\<close>.\<close>

fun find_last_bit_while :: "bitmap \<Rightarrow> nat \<Rightarrow> u64 \<Rightarrow> nat \<Rightarrow> nat" where
  "find_last_bit_while addr sz val 0 =
     (if val AND addr ! 0 \<noteq> 0 then 0 * 64 + fls (val AND addr ! 0) else sz)"
| "find_last_bit_while addr sz val (Suc idx) =
     (if val AND addr ! Suc idx \<noteq> 0 then Suc idx * 64 + fls (val AND addr ! Suc idx)
      else find_last_bit_while addr sz (NOT 0) idx)"

definition find_last_bit :: "bitmap \<Rightarrow> nat \<Rightarrow> nat" where
  "find_last_bit addr sz =
     (if sz \<noteq> 0 then find_last_bit_while addr sz (BITMAP_LAST_WORD_MASK sz) ((sz - 1) div 64)
      else sz)"


subsection \<open>Ranges of bits\<close>

text \<open>The loop of \<^verbatim>\<open>bitmap_set\<close>; the result is the map, the word index, the remaining
  length and the mask at loop exit.\<close>

function bitmap_set_while ::
  "bitmap \<Rightarrow> nat \<Rightarrow> int \<Rightarrow> nat \<Rightarrow> u64 \<Rightarrow> bitmap \<times> nat \<times> int \<times> u64" where
  "bitmap_set_while m p len bits_to_set mask_to_set =
     (if len - int bits_to_set \<ge> 0 then
        bitmap_set_while (m[p := m ! p OR mask_to_set]) (p + 1) (len - int bits_to_set) 64 (NOT 0)
      else (m, p, len, mask_to_set))"
  by pat_completeness auto
termination
  by (relation "measures [\<lambda>(m, p, len, bits, mask). nat len, \<lambda>(m, p, len, bits, mask). 1 - bits]") auto

definition bitmap_set :: "bitmap \<Rightarrow> nat \<Rightarrow> int \<Rightarrow> bitmap" where
  "bitmap_set m start len =
     (let sz = nat ((int start + len) mod 2 ^ 32);
          (m, p, len, mask_to_set) =
            bitmap_set_while m (start div 64) len (64 - start mod 64) (BITMAP_FIRST_WORD_MASK start)
      in if len \<noteq> 0 then m[p := m ! p OR (mask_to_set AND BITMAP_LAST_WORD_MASK sz)] else m)"

function bitmap_clear_while ::
  "bitmap \<Rightarrow> nat \<Rightarrow> int \<Rightarrow> nat \<Rightarrow> u64 \<Rightarrow> bitmap \<times> nat \<times> int \<times> u64" where
  "bitmap_clear_while m p len bits_to_clear mask_to_clear =
     (if len - int bits_to_clear \<ge> 0 then
        bitmap_clear_while (m[p := m ! p AND NOT mask_to_clear]) (p + 1) (len - int bits_to_clear) 64 (NOT 0)
      else (m, p, len, mask_to_clear))"
  by pat_completeness auto
termination
  by (relation "measures [\<lambda>(m, p, len, bits, mask). nat len, \<lambda>(m, p, len, bits, mask). 1 - bits]") auto

definition bitmap_clear :: "bitmap \<Rightarrow> nat \<Rightarrow> int \<Rightarrow> bitmap" where
  "bitmap_clear m start len =
     (let sz = nat ((int start + len) mod 2 ^ 32);
          (m, p, len, mask_to_clear) =
            bitmap_clear_while m (start div 64) len (64 - start mod 64) (BITMAP_FIRST_WORD_MASK start)
      in if len \<noteq> 0 then m[p := m ! p AND NOT (mask_to_clear AND BITMAP_LAST_WORD_MASK sz)] else m)"

text \<open>The \<^verbatim>\<open>again:\<close> loop may not end (for \<open>nr = 0\<close> at a misaligned end of the map), so it is
  a partial function.\<close>

partial_function (option) bitmap_find_next_zero_area_align ::
  "bitmap \<Rightarrow> nat \<Rightarrow> nat \<Rightarrow> nat \<Rightarrow> u64 \<Rightarrow> nat option" where
  "bitmap_find_next_zero_area_align m sz start nr align =
     (let index = find_next_zero_bit m sz start; e = index + nr in
      if e > sz then Some e
      else if of_nat index AND (align - 1) \<noteq> 0 then
        bitmap_find_next_zero_area_align m sz (index + 1) nr align
      else
        (let i = find_next_bit m e index in
         if i < e then bitmap_find_next_zero_area_align m sz (i + 1) nr align
         else Some index))"

declare find_next_bit_while.simps [simp del] find_first_bit_from.simps [simp del]
  find_first_zero_bit_from.simps [simp del] bitmap_set_while.simps [simp del]
  bitmap_clear_while.simps [simp del]

section \<open>Words: the binary searches find the extreme set bits\<close>

definition ffs_step :: "nat \<Rightarrow> nat \<times> u64 \<Rightarrow> nat \<times> u64" where
  "ffs_step n s = (if snd s AND mask n = 0 then (fst s + n, drop_bit n (snd s)) else s)"

definition ffs_inv :: "nat \<Rightarrow> u64 \<Rightarrow> nat \<times> u64 \<Rightarrow> bool" where
  "ffs_inv m w s \<longleftrightarrow> snd s = drop_bit (fst s) w \<and> (\<forall>j<fst s. \<not> bit w j) \<and> (\<exists>j<m. bit (snd s) j)"

lemma ffs_step_inv:
  assumes "ffs_inv (2 * n) w s"
  shows "ffs_inv n w (ffs_step n s)"
proof (cases "snd s AND mask n = 0")
  case True
  then have low: "\<And>j. j < n \<Longrightarrow> \<not> bit (snd s) j"
    by (simp add: and_mask_eq_0_iff)
  from assms obtain j where j: "j < 2 * n" "bit (snd s) j"
    by (auto simp: ffs_inv_def)
  with low have "n \<le> j" by (meson not_le)
  with j have "bit (drop_bit n (snd s)) (j - n)" and "j - n < n"
    by (auto simp: bit_drop_bit_eq)
  moreover have "\<not> bit w k" if "k < fst s + n" for k
  proof (cases "k < fst s")
    case False
    with that low [of "k - fst s"] assms show ?thesis
      by (auto simp: ffs_inv_def bit_drop_bit_eq)
  qed (use assms in \<open>auto simp: ffs_inv_def\<close>)
  ultimately show ?thesis
    using True assms by (auto simp: ffs_step_def ffs_inv_def drop_bit_drop_bit add.commute)
next
  case False
  with assms show ?thesis
    by (auto simp: ffs_step_def ffs_inv_def and_mask_eq_0_iff)
qed

lemma ffs_as_steps:
  "ffs w = fst (ffs_step 1 (ffs_step 2 (ffs_step 4 (ffs_step 8 (ffs_step 16 (ffs_step 32 (0, w)))))))"
proof -
  have eqs:
    "(if w AND 0xffffffff = 0 then (32, drop_bit 32 w) else (0, w)) = ffs_step 32 (0, w)"
    "(if x AND 0xffff = 0 then (k + 16, drop_bit 16 x) else (k, x)) = ffs_step 16 (k, x)"
    "(if x AND 0xff = 0 then (k + 8, drop_bit 8 x) else (k, x)) = ffs_step 8 (k, x)"
    "(if x AND 0xf = 0 then (k + 4, drop_bit 4 x) else (k, x)) = ffs_step 4 (k, x)"
    "(if x AND 0x3 = 0 then (k + 2, drop_bit 2 x) else (k, x)) = ffs_step 2 (k, x)"
    "(if x AND 0x1 = 0 then k + 1 else k) = fst (ffs_step 1 (k, x))" for k x
    by (simp_all add: ffs_step_def mask_eq_exp_minus_1)
  show ?thesis
    unfolding ffs_def eqs by (simp only: Let_def split_beta prod.collapse)
qed

lemma ffs_props:
  assumes "w \<noteq> 0"
  shows bit_ffs: "bit w (ffs w)" and not_bit_below_ffs: "j < ffs w \<Longrightarrow> \<not> bit w j"
    and ffs_less: "ffs w < 64"
proof -
  let ?s = "ffs_step 1 (ffs_step 2 (ffs_step 4 (ffs_step 8 (ffs_step 16 (ffs_step 32 (0, w))))))"
  from assms have "ffs_inv 64 w (0, w)"
    by (auto simp: ffs_inv_def u64_eq_0_iff)
  then have "ffs_inv 1 w ?s"
    using ffs_step_inv [of 32 w "(0, w)"] ffs_step_inv [of 16] ffs_step_inv [of 8]
      ffs_step_inv [of 4] ffs_step_inv [of 2] ffs_step_inv [of 1] by simp
  then show b: "bit w (ffs w)" and "j < ffs w \<Longrightarrow> \<not> bit w j"
    by (auto simp: ffs_as_steps ffs_inv_def bit_drop_bit_eq)
  from b show "ffs w < 64" by (rule bit_u64_less)
qed

definition fls_step :: "nat \<Rightarrow> nat \<times> u64 \<Rightarrow> nat \<times> u64" where
  "fls_step n s =
     (if snd s AND push_bit (64 - n) (NOT 0) = 0 then (fst s - n, push_bit n (snd s)) else s)"

definition fls_inv :: "nat \<Rightarrow> u64 \<Rightarrow> nat \<times> u64 \<Rightarrow> bool" where
  "fls_inv m w s \<longleftrightarrow> fst s \<le> 63 \<and> m \<le> fst s + 1 \<and> snd s = push_bit (63 - fst s) w \<and>
     (\<forall>j>fst s. \<not> bit w j) \<and> (\<exists>j. 64 - m \<le> j \<and> bit (snd s) j)"

lemma and_high_mask_eq_0_iff:
  "(w :: u64) AND push_bit k (NOT 0) = 0 \<longleftrightarrow> (\<forall>j\<ge>k. \<not> bit w j)"
proof -
  have "w AND push_bit k (NOT 0) = 0 \<longleftrightarrow> (\<forall>j. \<not> (bit w j \<and> k \<le> j))"
    by (auto simp: bit_eq_iff bit_simps dest: bit_u64_less)
  then show ?thesis by auto
qed

lemma fls_step_inv:
  assumes n: "0 < n" "2 * n \<le> 64" and inv: "fls_inv (2 * n) w s"
  shows "fls_inv n w (fls_step n s)"
proof (cases "snd s AND push_bit (64 - n) (NOT 0) = 0")
  case True
  then have hi: "\<And>j. 64 - n \<le> j \<Longrightarrow> \<not> bit (snd s) j"
    unfolding and_high_mask_eq_0_iff by blast
  from inv obtain j where j: "64 - 2 * n \<le> j" "bit (snd s) j"
    by (auto simp: fls_inv_def)
  with hi have "j < 64 - n" by (meson not_le)
  with j n have "bit (push_bit n (snd s)) (j + n)" and "64 - n \<le> j + n"
    by (auto simp: bit_push_bit_iff)
  moreover have "\<not> bit w k" if "fst s - n < k" for k
  proof (cases "fst s < k")
    case False
    then have "bit (push_bit (63 - fst s) w) (k + (63 - fst s)) = bit w k"
      using inv by (auto simp: fls_inv_def bit_push_bit_iff dest: bit_u64_less)
    moreover have "64 - n \<le> k + (63 - fst s)"
      using that inv by (auto simp: fls_inv_def)
    ultimately show ?thesis
      using hi inv by (auto simp: fls_inv_def)
  qed (use inv in \<open>auto simp: fls_inv_def\<close>)
  moreover have "push_bit n (push_bit (63 - fst s) w) = push_bit (63 - (fst s - n)) w"
    using inv n by (simp add: fls_inv_def push_bit_push_bit add.commute)
  ultimately show ?thesis
    using True inv n by (auto simp: fls_step_def fls_inv_def)
next
  case False
  with inv n show ?thesis
    unfolding and_high_mask_eq_0_iff fls_step_def by (auto simp: fls_inv_def)
qed

lemma fls_as_steps:
  "fls w = fst (fls_step 1 (fls_step 2 (fls_step 4 (fls_step 8 (fls_step 16 (fls_step 32 (63, w)))))))"
proof -
  have eqs:
    "(if x AND push_bit 32 (NOT 0) = 0 then (k - 32, push_bit 32 x) else (k, x)) = fls_step 32 (k, x)"
    "(if x AND push_bit (64 - 16) (NOT 0) = 0 then (k - 16, push_bit 16 x) else (k, x)) = fls_step 16 (k, x)"
    "(if x AND push_bit (64 - 8) (NOT 0) = 0 then (k - 8, push_bit 8 x) else (k, x)) = fls_step 8 (k, x)"
    "(if x AND push_bit (64 - 4) (NOT 0) = 0 then (k - 4, push_bit 4 x) else (k, x)) = fls_step 4 (k, x)"
    "(if x AND push_bit (64 - 2) (NOT 0) = 0 then (k - 2, push_bit 2 x) else (k, x)) = fls_step 2 (k, x)"
    "(if x AND push_bit (64 - 1) (NOT 0) = 0 then k - 1 else k) = fst (fls_step 1 (k, x))" for k x
    by (simp_all add: fls_step_def)
  show ?thesis
    unfolding fls_def eqs by (simp only: Let_def split_beta prod.collapse)
qed

lemma fls_props:
  assumes "w \<noteq> 0"
  shows bit_fls: "bit w (fls w)" and not_bit_above_fls: "fls w < j \<Longrightarrow> \<not> bit w j"
    and fls_less: "fls w < 64"
proof -
  let ?s = "fls_step 1 (fls_step 2 (fls_step 4 (fls_step 8 (fls_step 16 (fls_step 32 (63, w))))))"
  from assms have "fls_inv 64 w (63, w)"
    by (auto simp: fls_inv_def u64_eq_0_iff dest: bit_u64_less)
  then have inv: "fls_inv 1 w ?s"
    using fls_step_inv [of 32 w "(63, w)"] fls_step_inv [of 16] fls_step_inv [of 8]
      fls_step_inv [of 4] fls_step_inv [of 2] fls_step_inv [of 1] by simp
  then obtain i where "63 \<le> i" "bit (push_bit (63 - fst ?s) w) i"
    by (auto simp: fls_inv_def)
  moreover from this have "i = 63" by (auto dest: bit_u64_less)
  ultimately show "bit w (fls w)"
    using inv by (auto simp: fls_as_steps fls_inv_def bit_push_bit_iff)
  then show "fls w < 64" by (rule bit_u64_less)
  show "fls w < j \<Longrightarrow> \<not> bit w j"
    using inv by (auto simp: fls_as_steps fls_inv_def)
qed


fun evens :: "'a list \<Rightarrow> 'a list" where
  "evens (x # y # xs) = x # evens xs"
| "evens xs = xs"

lemma nth_evens: "2 * k < length xs \<Longrightarrow> evens xs ! k = xs ! (2 * k)"
proof (induction xs arbitrary: k rule: evens.induct)
  case (1 x y xs)
  then show ?case by (cases k) auto
qed auto

lemma ffs_one_table_halves:
  "list_all (\<lambda>v. v = 0) (evens (tl ffs_one_table))" "length (evens (tl ffs_one_table)) = 128"
  "tl (evens ffs_one_table) = map (\<lambda>v. v + 1) (tl (take 128 ffs_one_table))"
  "length ffs_one_table = 256"
  by (simp_all add: ffs_one_table_def)

lemma ffs_one_table_odd: "k < 128 \<Longrightarrow> ffs_one_table ! Suc (2 * k) = 0"
  using nth_evens [of k "tl ffs_one_table"] ffs_one_table_halves(1)
  by (auto simp: list_all_length ffs_one_table_halves(2,4) nth_tl)

lemma ffs_one_table_even: "0 < k \<Longrightarrow> k < 128 \<Longrightarrow> ffs_one_table ! (2 * k) = ffs_one_table ! k + 1"
proof -
  assume k: "0 < k" "k < 128"
  then have "ffs_one_table ! (2 * k) = tl (evens ffs_one_table) ! (k - 1)"
    using nth_evens [of k ffs_one_table]
    by (simp add: ffs_one_table_halves(4) nth_tl ffs_one_table_def)
  with k show ?thesis
    unfolding ffs_one_table_halves(3) by (simp add: nth_tl ffs_one_table_halves(4))
qed

lemma ffs_one_table_lowest:
  assumes "0 < x" and "x < 256"
  shows "\<exists>p<8. ffs_one_table ! x = int p \<and> bit x p \<and> (\<forall>j<p. \<not> bit x j)"
proof -
  have "\<exists>p. ffs_one_table ! x = int p \<and> bit x p \<and> (\<forall>j<p. \<not> bit x j)"
    using assms
  proof (induction x rule: less_induct)
    case (less x)
    show ?case
    proof (cases "even x")
      case True
      then obtain k where k: "x = 2 * k" by blast
      with less.IH [of k] less.prems obtain p
        where "ffs_one_table ! k = int p" "bit k p" "\<forall>j<p. \<not> bit k j" by auto
      with k less.prems show ?thesis
        by (intro exI [of _ "Suc p"]) (auto simp: ffs_one_table_even bit_Suc bit_0 less_Suc_eq_0_disj)
    next
      case False
      then obtain k where "x = Suc (2 * k)" by (auto elim: oddE)
      with less.prems show ?thesis
        by (intro exI [of _ 0]) (auto simp: ffs_one_table_odd bit_0)
    qed
  qed
  then obtain p where p: "ffs_one_table ! x = int p" "bit x p" "\<forall>j<p. \<not> bit x j" by blast
  have "p < 8"
  proof (rule ccontr)
    assume "\<not> p < 8"
    then have "(2::nat) ^ 8 \<le> 2 ^ p" by (intro power_increasing) auto
    moreover from p have "odd (x div 2 ^ p)" by (simp add: bit_iff_odd)
    then have "2 ^ p \<le> x" by (metis div_less even_zero not_le)
    ultimately show False using assms by simp
  qed
  with p show ?thesis by blast
qed

section \<open>Bit-level view of a bitmap\<close>

definition bm_bit :: "bitmap \<Rightarrow> nat \<Rightarrow> bool" where
  "bm_bit bm i \<longleftrightarrow> bit (bm ! (i div 64)) (i mod 64)"

definition bm_cap :: "bitmap \<Rightarrow> nat" where
  "bm_cap bm = 64 * length bm"

lemma bm_word_index: "i < bm_cap bm \<Longrightarrow> i div 64 < length bm"
  by (simp add: bm_cap_def less_mult_imp_div_less mult.commute)

lemma bm_test_bit_iff [simp]: "bm_test_bit i bm \<longleftrightarrow> bm_bit bm i"
  by (simp add: bm_test_bit_def bm_bit_def bit_iff_and_drop_bit_eq_1)

lemma bm_cap_simps [simp]:
  "bm_cap (bm_set_bit i bm) = bm_cap bm"
  "bm_cap (bm_clear_bit i bm) = bm_cap bm"
  "bm_cap (bm_change_bit i bm) = bm_cap bm"
  by (simp_all add: bm_cap_def bm_set_bit_def bm_clear_bit_def bm_change_bit_def)

lemma div_mod_64_eq: "(i::nat) div 64 = j div 64 \<Longrightarrow> i mod 64 = j mod 64 \<Longrightarrow> i = j"
  by (metis mult_div_mod_eq)

lemma bm_bit_set_bit [bm_simps]:
  "i < bm_cap bm \<Longrightarrow> bm_bit (bm_set_bit i bm) j \<longleftrightarrow> j = i \<or> bm_bit bm j"
  by (auto simp: bm_set_bit_def bm_bit_def bm_word_index nth_list_update bit_simps
      dest: div_mod_64_eq)

lemma bm_bit_clear_bit [bm_simps]:
  "i < bm_cap bm \<Longrightarrow> bm_bit (bm_clear_bit i bm) j \<longleftrightarrow> j \<noteq> i \<and> bm_bit bm j"
  by (auto simp: bm_clear_bit_def bm_bit_def bm_word_index nth_list_update bit_simps
      dest: div_mod_64_eq bit_u64_less)

lemma bm_bit_change_bit [bm_simps]:
  "i < bm_cap bm \<Longrightarrow> bm_bit (bm_change_bit i bm) j \<longleftrightarrow> (if j = i then \<not> bm_bit bm i else bm_bit bm j)"
  by (auto simp: bm_change_bit_def bm_bit_def bm_word_index nth_list_update bit_simps
      dest: div_mod_64_eq bit_u64_less)

section \<open>The searches return the first match\<close>

definition is_first :: "(nat \<Rightarrow> bool) \<Rightarrow> nat \<Rightarrow> nat \<Rightarrow> nat \<Rightarrow> bool" where
  "is_first P a n r \<longleftrightarrow> r \<le> n \<and> (\<forall>i. a \<le> i \<and> i < r \<longrightarrow> \<not> P i) \<and> (r < n \<longrightarrow> a \<le> r \<and> P r)"

lemma is_first_unique: "is_first P a n r \<Longrightarrow> is_first P a n r' \<Longrightarrow> r = r'"
  unfolding is_first_def by (metis le_less_trans linorder_neqE_nat order.strict_trans2)

lemma is_first_ge: "is_first P a n r \<Longrightarrow> a \<le> n \<Longrightarrow> a \<le> r"
  unfolding is_first_def by linarith

lemma is_first_none_iff: "is_first P a n r \<Longrightarrow> r \<ge> n \<longleftrightarrow> (\<forall>i. a \<le> i \<and> i < n \<longrightarrow> \<not> P i)"
  unfolding is_first_def by (metis le_less_linear linorder_not_le order.trans)

lemma find_next_bit_while_first:
  assumes "64 dvd start" and "s0 < nbits" and "start < nbits" and "s0 < start + 64"
    and "\<And>j. j < 64 \<Longrightarrow> bit tmp j \<longleftrightarrow> s0 \<le> start + j \<and> bit (addr ! (start div 64) XOR invert) j"
    and "\<And>i. s0 \<le> i \<Longrightarrow> i < start \<Longrightarrow> \<not> bit (addr ! (i div 64) XOR invert) (i mod 64)"
  shows "is_first (\<lambda>i. bit (addr ! (i div 64) XOR invert) (i mod 64)) s0 nbits
           (find_next_bit_while addr nbits start invert tmp)"
  using assms
proof (induction addr nbits start invert tmp rule: find_next_bit_while.induct)
  case (1 addr nbits start invert tmp)
  let ?P = "\<lambda>i. bit (addr ! (i div 64) XOR invert) (i mod 64)"
  have split: "i div 64 = start div 64" "i mod 64 = i - start"
    if "start \<le> i" "i < start + 64" for i
    using that \<open>64 dvd start\<close> by (auto elim!: dvdE simp: mod_nat_eqI)
  show ?case
  proof (cases "tmp = 0")
    case True
    have none: "\<not> ?P i" if "s0 \<le> i" "i < start + 64" for i
    proof (cases "i < start")
      case False
      with that True 1(6) [of "i - start"] split [of i] show ?thesis by auto
    qed (use 1(7) that in blast)
    show ?thesis
    proof (cases "start + 64 \<ge> nbits")
      case True
      with \<open>tmp = 0\<close> none show ?thesis
        by (subst find_next_bit_while.simps) (auto simp: is_first_def)
    next
      case False
      have "is_first ?P s0 nbits
          (find_next_bit_while addr nbits (start + 64) invert (addr ! ((start + 64) div 64) XOR invert))"
        by (rule 1(1) [OF \<open>tmp = 0\<close> False]) (use 1(2,3,5) False none in auto)
      with \<open>tmp = 0\<close> False show ?thesis
        by (subst find_next_bit_while.simps) simp
    qed
  next
    case False
    let ?k = "ffs tmp"
    have k: "?k < 64" "bit tmp ?k" "\<And>j. j < ?k \<Longrightarrow> \<not> bit tmp j"
      using False by (auto simp: ffs_less bit_ffs not_bit_below_ffs)
    have none: "\<not> ?P i" if "s0 \<le> i" "i < start + ?k" for i
    proof (cases "i < start")
      case False
      with that k 1(6) [of "i - start"] split [of i] show ?thesis by auto
    qed (use 1(7) that in blast)
    have "s0 \<le> start + ?k" "?P (start + ?k)"
      using k 1(6) [of ?k] split [of "start + ?k"] by auto
    with none have "is_first ?P s0 nbits (min (start + ?k) nbits)"
      by (auto simp: is_first_def min_def)
    with False show ?thesis
      by (subst find_next_bit_while.simps) simp
  qed
qed

lemma find_next_bit_gen_first:
  "is_first (\<lambda>i. bit (addr ! (i div 64) XOR invert) (i mod 64)) start nbits
     (find_next_bit_gen addr nbits start invert)"
proof (cases "nbits = 0 \<or> start \<ge> nbits")
  case False
  have eq: "start div 64 * 64 + start mod 64 = start" by (rule div_mult_mod_eq)
  have mask: "bit (BITMAP_FIRST_WORD_MASK start) j \<longleftrightarrow> start \<le> start div 64 * 64 + j" if "j < 64" for j
    using that by (simp add: BITMAP_FIRST_WORD_MASK_def bit_simps) (use eq in linarith)
  have "is_first (\<lambda>i. bit (addr ! (i div 64) XOR invert) (i mod 64)) start nbits
      (find_next_bit_while addr nbits (start div 64 * 64) invert
         ((addr ! (start div 64) XOR invert) AND BITMAP_FIRST_WORD_MASK start))"
  proof (rule find_next_bit_while_first)
    show "start < start div 64 * 64 + 64"
      using eq mod_less_divisor [of 64 start] by linarith
    show "start div 64 * 64 < nbits" "start < nbits"
      using False eq by linarith+
  qed (use eq mask in \<open>auto simp: bit_and_iff\<close>)
  with False show ?thesis
    by (simp add: find_next_bit_gen_def)
qed (auto simp: find_next_bit_gen_def is_first_def)

lemma find_next_bit_first: "is_first (bm_bit addr) start nbits (find_next_bit addr nbits start)"
  using find_next_bit_gen_first [of addr 0 start nbits]
  by (simp add: find_next_bit_def bm_bit_def [abs_def])

lemma find_next_zero_bit_first:
  "is_first (\<lambda>i. \<not> bm_bit addr i) start nbits (find_next_zero_bit addr nbits start)"
  using find_next_bit_gen_first [of addr "NOT 0" start nbits]
  by (simp add: find_next_zero_bit_def bm_bit_def bit_simps)


lemma find_next_bit_loop_gen_bound:
  "find_next_bit_loop_gen addr sz offset invert \<le> sz"
  using find_next_bit_gen_first [of addr invert offset sz] find_next_bit_gen_first [of addr invert 0 sz]
  by (auto simp: find_next_bit_loop_gen_def Let_def is_first_def)

lemma find_next_zero_bit_loop_found:
  assumes "find_next_zero_bit_loop addr sz offset < sz"
  shows "\<not> bm_bit addr (find_next_zero_bit_loop addr sz offset)"
  using assms find_next_zero_bit_first [of addr offset sz] find_next_zero_bit_first [of addr 0 sz]
  by (auto simp: find_next_zero_bit_loop_def find_next_bit_loop_gen_def find_next_zero_bit_def
      is_first_def Let_def split: if_splits)

lemma find_next_zero_bit_loop_full_iff:
  assumes "sz \<noteq> 0"
  shows "find_next_zero_bit_loop addr sz offset \<ge> sz \<longleftrightarrow> (\<forall>i < sz. bm_bit addr i)"
proof -
  note off = find_next_zero_bit_first [of addr offset sz]
    and zero = find_next_zero_bit_first [of addr 0 sz]
  have "find_next_zero_bit_loop addr sz offset \<ge> sz \<longleftrightarrow>
      find_next_zero_bit addr sz offset \<ge> sz \<and> (offset = 0 \<or> find_next_zero_bit addr sz 0 \<ge> sz)"
    by (auto simp: find_next_zero_bit_loop_def find_next_bit_loop_gen_def find_next_zero_bit_def Let_def)
  with is_first_none_iff [OF off] is_first_none_iff [OF zero] show ?thesis
    by auto
qed

lemma find_first_bit_from_first:
  assumes "\<And>i. i < idx * 64 \<Longrightarrow> \<not> bm_bit addr i"
  shows "is_first (bm_bit addr) 0 sz (find_first_bit_from addr sz idx)"
  using assms
proof (induction addr sz idx rule: find_first_bit_from.induct)
  case (1 addr sz idx)
  have split: "i div 64 = idx" "i mod 64 = i - idx * 64" if "idx * 64 \<le> i" "i < idx * 64 + 64" for i
    using that by (auto simp: mod_nat_eqI)
  consider "\<not> idx * 64 < sz" | "idx * 64 < sz" "addr ! idx = 0" | "idx * 64 < sz" "addr ! idx \<noteq> 0"
    by blast
  then show ?case
  proof cases
    case 1
    with "1.prems" show ?thesis
      by (subst find_first_bit_from.simps) (auto simp: is_first_def)
  next
    case 2
    have "\<not> bm_bit addr i" if "i < (idx + 1) * 64" for i
      using that "1.prems" [of i] split [of i] 2 by (cases "i < idx * 64") (auto simp: bm_bit_def)
    with 2 "1.IH" show ?thesis
      by (subst find_first_bit_from.simps) auto
  next
    case 3
    let ?k = "ffs (addr ! idx)"
    have "\<not> bm_bit addr i" if "i < idx * 64 + ?k" for i
      using that "1.prems" [of i] split [of i] 3 ffs_less [of "addr ! idx"]
        not_bit_below_ffs [of "addr ! idx" "i - idx * 64"]
      by (cases "i < idx * 64") (auto simp: bm_bit_def)
    moreover have "bm_bit addr (idx * 64 + ?k)"
      using 3 ffs_less [of "addr ! idx"] bit_ffs [of "addr ! idx"] split [of "idx * 64 + ?k"]
      by (simp add: bm_bit_def)
    ultimately show ?thesis
      using 3 by (subst find_first_bit_from.simps) (auto simp: is_first_def min_def)
  qed
qed

lemma find_first_bit_first: "is_first (bm_bit addr) 0 sz (find_first_bit addr sz)"
  using find_first_bit_from_first [of 0 addr sz] by (simp add: find_first_bit_def)

text \<open>The two ways of finding the first set bit agree.\<close>

lemma find_first_bit_eq_next: "find_first_bit addr sz = find_next_bit addr sz 0"
  by (rule is_first_unique [OF find_first_bit_first find_next_bit_first])

lemma nth_map_not: "idx < length addr \<Longrightarrow> map NOT addr ! idx = NOT (addr ! idx)"
  by simp

lemma find_first_zero_bit_from_map:
  "sz \<le> bm_cap addr \<Longrightarrow>
     find_first_zero_bit_from addr sz idx = find_first_bit_from (map NOT addr) sz idx"
proof (induction addr sz idx rule: find_first_zero_bit_from.induct)
  case (1 addr sz idx)
  show ?case
  proof (cases "idx * 64 < sz")
    case True
    with "1.prems" have "idx < length addr"
      by (simp add: bm_cap_def)
    moreover have "NOT (addr ! idx) = 0 \<longleftrightarrow> addr ! idx = NOT 0"
      by (metis bit.double_compl)
    ultimately show ?thesis
      using 1 True
      by (subst find_first_zero_bit_from.simps, subst find_first_bit_from.simps)
        (auto simp: ffz_def)
  qed (subst find_first_zero_bit_from.simps, subst find_first_bit_from.simps, simp)
qed

lemma find_first_zero_bit_first:
  assumes "sz \<le> bm_cap addr"
  shows "is_first (\<lambda>i. \<not> bm_bit addr i) 0 sz (find_first_zero_bit addr sz)"
proof -
  have "is_first (bm_bit (map NOT addr)) 0 sz (find_first_zero_bit addr sz)"
    using find_first_bit_first [of "map NOT addr" sz] find_first_zero_bit_from_map [OF assms, of 0]
    by (simp add: find_first_zero_bit_def find_first_bit_def)
  moreover have "bm_bit (map NOT addr) i \<longleftrightarrow> \<not> bm_bit addr i" if "i < sz" for i
    using that assms bm_word_index [of i addr] by (simp add: bm_bit_def bit_not_iff)
  ultimately show ?thesis
    by (auto simp: is_first_def)
qed


text \<open>\<^verbatim>\<open>find_last_bit\<close>: the last set bit below the size, or the size.\<close>

definition is_last :: "(nat \<Rightarrow> bool) \<Rightarrow> nat \<Rightarrow> nat \<Rightarrow> bool" where
  "is_last P n r \<longleftrightarrow> (if \<exists>i<n. P i then r < n \<and> P r else r = n) \<and> (\<forall>i. r < i \<and> i < n \<longrightarrow> \<not> P i)"

lemma bit_last_word_mask:
  "j < 64 \<Longrightarrow> n mod 64 \<noteq> 0 \<Longrightarrow> bit (BITMAP_LAST_WORD_MASK n) j \<longleftrightarrow> j < n mod 64"
  by (auto simp: BITMAP_LAST_WORD_MASK_def bit_simps)

lemma bm_bit_word_offset: "j < 64 \<Longrightarrow> bm_bit addr (64 * k + j) \<longleftrightarrow> bit (addr ! k) j"
  by (simp add: bm_bit_def)

lemma find_last_bit_while_last:
  assumes "64 * idx < n" and "n \<le> 64 * idx + 64 \<or> val = NOT 0"
    and "\<And>j. j < 64 \<Longrightarrow> bit val j \<longleftrightarrow> 64 * idx + j < n"
    and "\<And>i. 64 * idx + 64 \<le> i \<Longrightarrow> i < n \<Longrightarrow> \<not> bm_bit addr i"
  shows "is_last (bm_bit addr) n (find_last_bit_while addr n val idx)"
  using assms
proof (induction addr n val idx rule: find_last_bit_while.induct)
  case (1 addr n val)
  let ?v = "val AND addr ! 0"
  have bits: "bm_bit addr i \<and> i < n \<longleftrightarrow> bit ?v i" if "i < 64" for i
    using that "1.prems"(3) by (auto simp: bm_bit_def bit_and_iff)
  show ?case
  proof (cases "?v = 0")
    case True
    then have "\<not> bm_bit addr i" if "i < n" for i
      using bits [of i] "1.prems"(4) [of i] that by (cases "i < 64") auto
    with True show ?thesis by (simp add: is_last_def)
  next
    case False
    let ?k = "fls ?v"
    have "bm_bit addr ?k" "?k < n" using bits [of ?k] fls_less [OF False] bit_fls [OF False] by auto
    moreover have "\<not> bm_bit addr i" if "?k < i" "i < n" for i
      using bits [of i] not_bit_above_fls [OF False that(1)] "1.prems"(4) [of i] that
      by (cases "i < 64") auto
    ultimately show ?thesis using False by (auto simp: is_last_def)
  qed
next
  case (2 addr n val idx)
  let ?v = "val AND addr ! Suc idx"
  have bits: "bm_bit addr (64 * Suc idx + j) \<and> 64 * Suc idx + j < n \<longleftrightarrow> bit ?v j" if "j < 64" for j
    using that "2.prems"(3) bm_bit_word_offset [OF that, of addr "Suc idx"] by (auto simp: bit_and_iff)
  have top: "\<not> bm_bit addr i" if "64 * Suc idx \<le> i" "i < n" "\<not> bit ?v (i - 64 * Suc idx)" for i
    using bits [of "i - 64 * Suc idx"] "2.prems"(4) [of i] that
    by (cases "i < 64 * Suc idx + 64") auto
  show ?case
  proof (cases "?v = 0")
    case True
    have "is_last (bm_bit addr) n (find_last_bit_while addr n (NOT 0) idx)"
      by (rule "2.IH") (use True top "2.prems"(1) in \<open>auto simp: bit_simps\<close>)
    with True show ?thesis by simp
  next
    case False
    let ?k = "64 * Suc idx + fls ?v"
    have "bm_bit addr ?k" "?k < n"
      using bits [of "fls ?v"] fls_less [OF False] bit_fls [OF False] by auto
    moreover have "\<not> bm_bit addr i" if "?k < i" "i < n" for i
      using top [of i] not_bit_above_fls [OF False, of "i - 64 * Suc idx"] that by auto
    ultimately show ?thesis using False by (auto simp: is_last_def mult.commute)
  qed
qed

lemma find_last_bit_last: "is_last (bm_bit addr) sz (find_last_bit addr sz)"
proof (cases "sz = 0")
  case False
  let ?idx = "(sz - 1) div 64"
  have idx: "64 * ?idx < sz" "sz \<le> 64 * ?idx + 64" using False by auto
  have "bit (BITMAP_LAST_WORD_MASK sz) j \<longleftrightarrow> 64 * ?idx + j < sz" if "j < 64" for j
  proof (cases "sz mod 64 = 0")
    case True
    then have "BITMAP_LAST_WORD_MASK sz = NOT 0" by (simp add: BITMAP_LAST_WORD_MASK_def)
    moreover have "sz = 64 * ?idx + 64" using True idx False by (auto elim!: dvdE simp: mod_eq_0_iff_dvd)
    ultimately show ?thesis using that by (simp add: bit_simps)
  next
    case False
    define r where "r = sz - 64 * ?idx"
    then have r: "sz = 64 * ?idx + r" using idx by linarith
    with idx False have "r < 64" by (metis less_add_same_cancel1 mod_mult_self2 mod_self nat_add_left_cancel_le nat_less_le mult.commute mod_mult_self4)
    with r have "sz mod 64 = r" by (metis mod_less mod_mult_self4)
    with False that r show ?thesis by (subst bit_last_word_mask) auto
  qed
  then have "is_last (bm_bit addr) sz (find_last_bit_while addr sz (BITMAP_LAST_WORD_MASK sz) ?idx)"
    by (intro find_last_bit_while_last) (use idx in auto)
  with False show ?thesis by (simp add: find_last_bit_def)
qed (simp add: find_last_bit_def is_last_def)

section \<open>Setting and clearing ranges\<close>

lemma bm_cap_update [simp]: "bm_cap (bm[p := w]) = bm_cap bm"
  by (simp add: bm_cap_def)

lemma bm_bit_update_or:
  "i < bm_cap bm \<Longrightarrow>
     bm_bit (bm[p := bm ! p OR w]) i \<longleftrightarrow> bm_bit bm i \<or> (i div 64 = p \<and> bit w (i mod 64))"
  using bm_word_index [of i bm] by (cases "i div 64 = p") (auto simp: bm_bit_def bit_or_iff)

fun or_last_word :: "nat \<Rightarrow> bitmap \<times> nat \<times> int \<times> u64 \<Rightarrow> bitmap" where
  "or_last_word sz (m, p, len, mk) =
     (if len \<noteq> 0 then m[p := m ! p OR (mk AND BITMAP_LAST_WORD_MASK sz)] else m)"

lemma bitmap_set_while_bits:
  assumes "1 \<le> bits" and "bits \<le> 64" and "\<And>j. j < 64 \<Longrightarrow> bit mk j \<longleftrightarrow> 64 - bits \<le> j"
    and "0 \<le> len" and "64 * p + 64 - bits + nat len \<le> bm_cap m"
    and "sz mod 64 = (64 * p + 64 - bits + nat len) mod 64" and "i < bm_cap m"
  shows "bm_bit (or_last_word sz (bitmap_set_while m p len bits mk)) i \<longleftrightarrow>
         (64 * p + 64 - bits \<le> i \<and> i < 64 * p + 64 - bits + nat len) \<or> bm_bit m i"
  using assms
proof (induction m p len bits mk rule: bitmap_set_while.induct)
  case (1 m p len bits mk)
  let ?c = "64 * p + 64 - bits"
  have off: "i div 64 = p \<Longrightarrow> i mod 64 = i - 64 * p" by (simp add: modulo_nat_def)
  have word: "i div 64 = p \<longleftrightarrow> 64 * p \<le> i \<and> i < 64 * p + 64" by auto
  have mk: "bit mk (i mod 64) \<longleftrightarrow> ?c \<le> i" if "i div 64 = p"
  proof -
    have "bit mk (i mod 64) \<longleftrightarrow> 64 - bits \<le> i mod 64" by (rule 1(4)) simp
    moreover have "i mod 64 = i - 64 * p" "64 * p \<le> i" using that off word by auto
    ultimately show ?thesis using 1(2,3) by arith
  qed
  show ?case
  proof (cases "len - int bits \<ge> 0")
    case True
    let ?m = "m[p := m ! p OR mk]"
    have here: "bm_bit ?m i \<longleftrightarrow> (?c \<le> i \<and> i < 64 * p + 64) \<or> bm_bit m i"
      using 1(8) mk word 1(2,3) by (auto simp: bm_bit_update_or)
    have pos: "64 * (p + 1) + 64 - 64 + nat (len - int bits) = ?c + nat len"
      using True 1(2,3,5) by arith
    have "bm_bit (or_last_word sz (bitmap_set_while ?m (p + 1) (len - int bits) 64 (NOT 0))) i \<longleftrightarrow>
        (64 * (p + 1) + 64 - 64 \<le> i \<and> i < 64 * (p + 1) + 64 - 64 + nat (len - int bits)) \<or> bm_bit ?m i"
      by (rule 1(1) [OF True]) (use True 1(6-8) pos in \<open>simp_all add: bit_simps\<close>)
    then show ?thesis
      unfolding pos here using True 1(2,3)
      by (subst bitmap_set_while.simps) auto
  next
    case False
    show ?thesis
    proof (cases "len = 0")
      case nz: False
      have e: "?c + nat len < 64 * p + 64" "64 * p < ?c + nat len"
        using False nz 1(2,3,5) by linarith+
      define r where "r = ?c + nat len - 64 * p"
      with e have "?c + nat len = 64 * p + r" "0 < r" "r < 64" by linarith+
      then have "sz mod 64 = ?c + nat len - 64 * p" "sz mod 64 \<noteq> 0"
        using 1(7) by auto
      then have lw: "bit (BITMAP_LAST_WORD_MASK sz) (i mod 64) \<longleftrightarrow> i mod 64 < ?c + nat len - 64 * p"
        by (subst bit_last_word_mask) auto
      have res: "or_last_word sz (bitmap_set_while m p len bits mk) =
          m[p := m ! p OR (mk AND BITMAP_LAST_WORD_MASK sz)]"
        using nz False by (subst bitmap_set_while.simps) simp
      show ?thesis
      proof (cases "i div 64 = p")
        case True
        then have "i mod 64 = i - 64 * p" "64 * p \<le> i" using off word by auto
        with lw e have "bit (BITMAP_LAST_WORD_MASK sz) (i mod 64) \<longleftrightarrow> i < ?c + nat len" by arith
        with res mk [OF True] True 1(8) show ?thesis by (auto simp: bm_bit_update_or bit_and_iff)
      next
        case False
        then have "\<not> (?c \<le> i \<and> i < ?c + nat len)" unfolding word using e 1(2,3) by linarith
        with res False 1(8) show ?thesis by (auto simp: bm_bit_update_or)
      qed
    next
      case True
      with False show ?thesis by (subst bitmap_set_while.simps) auto
    qed
  qed
qed

lemma bitmap_set_or_last_word:
  "bitmap_set m start len =
     or_last_word (nat ((int start + len) mod 2 ^ 32))
       (bitmap_set_while m (start div 64) len (64 - start mod 64) (BITMAP_FIRST_WORD_MASK start))"
  by (simp add: bitmap_set_def Let_def split: prod.split)

lemma bm_bit_bitmap_set [bm_simps]:
  assumes "0 \<le> len" and "start + nat len \<le> bm_cap m" and "start + nat len < 2 ^ 32" and "i < bm_cap m"
  shows "bm_bit (bitmap_set m start len) i \<longleftrightarrow> (start \<le> i \<and> i < start + nat len) \<or> bm_bit m i"
proof -
  have c: "64 * (start div 64) + 64 - (64 - start mod 64) = start"
    using mult_div_mod_eq [of 64 start] mod_less_divisor [of 64 start] by linarith
  have sz: "nat ((int start + len) mod 2 ^ 32) = start + nat len"
    using assms(1,3) by (simp add: nat_add_distrib)
  have "bm_bit (or_last_word (start + nat len)
          (bitmap_set_while m (start div 64) len (64 - start mod 64) (BITMAP_FIRST_WORD_MASK start))) i \<longleftrightarrow>
        (64 * (start div 64) + 64 - (64 - start mod 64) \<le> i \<and>
         i < 64 * (start div 64) + 64 - (64 - start mod 64) + nat len) \<or> bm_bit m i"
    by (rule bitmap_set_while_bits)
      (use assms c in \<open>auto simp: BITMAP_FIRST_WORD_MASK_def bit_simps Suc_le_eq\<close>)
  then show ?thesis
    unfolding bitmap_set_or_last_word sz c .
qed

lemma not_comp_not [simp]: "NOT \<circ> NOT = (id :: u64 \<Rightarrow> u64)"
  by (simp add: fun_eq_iff)

lemma map_not_not [simp]: "map NOT (map NOT (m :: bitmap)) = m"
  by simp

lemma map_not_update_or:
  "map NOT ((map NOT m)[p := map NOT m ! p OR w]) = m[p := m ! p AND NOT (w :: u64)]"
  by (cases "p < length m") (simp_all add: map_update list_update_beyond)

lemma bitmap_clear_while_dual:
  "bitmap_clear_while m p len bits mk =
     (case bitmap_set_while (map NOT m) p len bits mk of (m', r) \<Rightarrow> (map NOT m', r))"
proof (induction m p len bits mk rule: bitmap_clear_while.induct)
  case (1 m p len bits mk)
  have eq: "(map NOT m)[p := map NOT m ! p OR mk] = map NOT (m[p := m ! p AND NOT mk])"
    by (metis map_not_update_or map_not_not)
  show ?case
    using 1 by (subst bitmap_clear_while.simps, subst bitmap_set_while.simps) (simp add: eq)
qed

text \<open>Clearing a range is setting it in the complement.\<close>

lemma bitmap_clear_dual: "bitmap_clear m start len = map NOT (bitmap_set (map NOT m) start len)"
  by (simp add: bitmap_clear_def bitmap_set_def bitmap_clear_while_dual map_not_update_or Let_def
      map_not_update_or [of "map NOT _", unfolded map_not_not] split: prod.split)

lemma bm_bit_map_not: "i < bm_cap m \<Longrightarrow> bm_bit (map NOT m) i \<longleftrightarrow> \<not> bm_bit m i"
  using bm_word_index [of i m] by (simp add: bm_bit_def bit_not_iff)

lemma length_bitmap_set_while:
  "bitmap_set_while m p len bits mk = (m', r) \<Longrightarrow> length m' = length m"
proof (induction m p len bits mk rule: bitmap_set_while.induct)
  case (1 m p len bits mk)
  then show ?case
    by (subst (asm) (2) bitmap_set_while.simps) (auto split: if_splits)
qed

lemma bm_cap_bitmap_set [simp]: "bm_cap (bitmap_set m start len) = bm_cap m"
  by (auto simp: bitmap_set_def bm_cap_def Let_def dest: length_bitmap_set_while split: prod.split)

lemma bm_cap_bitmap_clear [simp]: "bm_cap (bitmap_clear m start len) = bm_cap m"
  using bm_cap_bitmap_set [of "map NOT m" start len] by (simp add: bitmap_clear_dual bm_cap_def)

lemma bm_bit_bitmap_clear [bm_simps]:
  assumes "0 \<le> len" and "start + nat len \<le> bm_cap m" and "start + nat len < 2 ^ 32" and "i < bm_cap m"
  shows "bm_bit (bitmap_clear m start len) i \<longleftrightarrow> bm_bit m i \<and> \<not> (start \<le> i \<and> i < start + nat len)"
proof -
  have cap: "bm_cap (map NOT m) = bm_cap m" by (simp add: bm_cap_def)
  show ?thesis
    using assms cap bm_bit_map_not [of i m] bm_bit_map_not [of i "bitmap_set (map NOT m) start len"]
    by (auto simp: bitmap_clear_dual bm_bit_bitmap_set)
qed


section \<open>Finding a free aligned area\<close>

definition area_free :: "bitmap \<Rightarrow> nat \<Rightarrow> nat \<Rightarrow> u64 \<Rightarrow> nat \<Rightarrow> bool" where
  "area_free m sz nr align r \<longleftrightarrow>
     r + nr \<le> sz \<and> of_nat r AND (align - 1) = 0 \<and> (\<forall>i. r \<le> i \<and> i < r + nr \<longrightarrow> \<not> bm_bit m i)"

text \<open>The search returns, and returns the first free aligned area at or after \<open>start\<close>; if there
  is none the result lies past \<open>sz - nr\<close>.\<close>

lemma zero_area_align_total:
  assumes "0 < nr"
  shows "\<exists>r. bitmap_find_next_zero_area_align m sz start nr align = Some r \<and>
           (if r \<le> sz then start \<le> r \<and> area_free m sz nr align r \<and>
                 (\<forall>r'. start \<le> r' \<and> r' < r \<longrightarrow> \<not> area_free m sz nr align r')
            else (\<forall>r'\<ge>start. \<not> area_free m sz nr align r'))"
proof (induction "sz - start" arbitrary: start rule: less_induct)
  case less
  let ?idx = "find_next_zero_bit m sz start"
  let ?i = "find_next_bit m (?idx + nr) ?idx"
  note idx = find_next_zero_bit_first [of m start sz, unfolded is_first_def]
    and i = find_next_bit_first [of m ?idx "?idx + nr", unfolded is_first_def]
  note unfold = bitmap_find_next_zero_area_align.simps [of m sz start nr align]
  have before: "\<not> area_free m sz nr align r" if "start \<le> r" "r < ?idx" for r
    using idx that assms by (auto simp: area_free_def dest: spec [of _ r])
  have again: ?case
    if rec: "bitmap_find_next_zero_area_align m sz start nr align =
          bitmap_find_next_zero_area_align m sz k nr align"
      and k: "?idx < k" "k \<le> ?idx + nr" "?idx + nr \<le> sz"
      and skip: "\<And>r. ?idx \<le> r \<Longrightarrow> r < k \<Longrightarrow> \<not> area_free m sz nr align r" for k
  proof -
    have "start \<le> ?idx" "?idx < sz" using idx k assms by auto
    then have "sz - k < sz - start" using k by linarith
    from less [OF this] obtain r where r: "bitmap_find_next_zero_area_align m sz k nr align = Some r"
      "if r \<le> sz then k \<le> r \<and> area_free m sz nr align r \<and>
          (\<forall>r'. k \<le> r' \<and> r' < r \<longrightarrow> \<not> area_free m sz nr align r')
       else (\<forall>r'\<ge>k. \<not> area_free m sz nr align r')" by blast
    have "\<not> area_free m sz nr align r'" if "start \<le> r'" "r' < k" for r'
      using before [of r'] skip [of r'] that by linarith
    with r rec k \<open>start \<le> ?idx\<close> show ?thesis
      by (auto split: if_splits) (metis linorder_not_le)+
  qed
  consider "?idx + nr > sz" | "?idx + nr \<le> sz" "of_nat ?idx AND (align - 1) \<noteq> 0"
    | "?idx + nr \<le> sz" "of_nat ?idx AND (align - 1) = 0" "?i < ?idx + nr"
    | "?idx + nr \<le> sz" "of_nat ?idx AND (align - 1) = 0" "?i \<ge> ?idx + nr"
    by linarith
  then show ?case
  proof cases
    case 1
    have "\<not> area_free m sz nr align r'" if "start \<le> r'" for r'
      using before [of r'] that 1 by (cases "r' < ?idx") (auto simp: area_free_def)
    with 1 unfold show ?thesis by (simp add: Let_def)
  next
    case 2
    show ?thesis
    proof (rule again [of "?idx + 1"])
      show "\<not> area_free m sz nr align r" if "?idx \<le> r" "r < ?idx + 1" for r
        using that 2 by (auto simp: area_free_def dest: le_antisym)
    qed (use 2 unfold assms in \<open>auto simp: Let_def\<close>)
  next
    case 3
    show ?thesis
    proof (rule again [of "?i + 1"])
      show "\<not> area_free m sz nr align r" if "?idx \<le> r" "r < ?i + 1" for r
        using i 3 that assms by (auto simp: area_free_def)
    qed (use 3 i unfold in \<open>auto simp: Let_def\<close>)
  next
    case 4
    then have "area_free m sz nr align ?idx"
      using i by (auto simp: area_free_def)
    with 4 unfold before idx assms show ?thesis
      by (auto simp: Let_def)
  qed
qed

section \<open>Identifier pools\<close>

text \<open>
  The contract between the bitmap and the allocators built on it (task ids, virtual SPIs,
  list registers, memory blocks): \<open>alloc\<close> hands out an identifier of \<open>ids\<close> that is not
  live, fails only when all of them are, and \<open>release\<close> makes one available again.
\<close>

fun alloc_many :: "('s \<Rightarrow> (nat \<times> 's) option) \<Rightarrow> nat \<Rightarrow> 's \<Rightarrow> (nat list \<times> 's) option" where
  "alloc_many alloc 0 s = Some ([], s)"
| "alloc_many alloc (Suc n) s =
     (case alloc s of None \<Rightarrow> None
      | Some (i, s') \<Rightarrow>
          (case alloc_many alloc n s' of None \<Rightarrow> None | Some (is, s'') \<Rightarrow> Some (i # is, s'')))"

locale id_pool =
  fixes alloc :: "'s \<Rightarrow> (nat \<times> 's) option"
    and release :: "nat \<Rightarrow> 's \<Rightarrow> 's"
    and live :: "'s \<Rightarrow> nat set"
    and ids :: "'s \<Rightarrow> nat set"
    and invar :: "'s \<Rightarrow> bool"
  assumes finite_ids: "invar s \<Longrightarrow> finite (ids s)"
    and live_ids: "invar s \<Longrightarrow> live s \<subseteq> ids s"
    and alloc_SomeD: "invar s \<Longrightarrow> alloc s = Some (i, s') \<Longrightarrow>
           i \<in> ids s \<and> i \<notin> live s \<and> live s' = insert i (live s) \<and> ids s' = ids s \<and> invar s'"
    and alloc_None_iff: "invar s \<Longrightarrow> alloc s = None \<longleftrightarrow> live s = ids s"
    and release_law: "invar s \<Longrightarrow> i \<in> live s \<Longrightarrow>
           live (release i s) = live s - {i} \<and> ids (release i s) = ids s \<and> invar (release i s)"
begin

lemma alloc_many_distinct:
  "invar s \<Longrightarrow> alloc_many alloc n s = Some (is, s') \<Longrightarrow>
     length is = n \<and> distinct is \<and> set is \<subseteq> ids s \<and> set is \<inter> live s = {} \<and>
     live s' = set is \<union> live s \<and> ids s' = ids s \<and> invar s'"
proof (induction n arbitrary: s "is")
  case (Suc n)
  then obtain i s1 is1 where a: "alloc s = Some (i, s1)" and r: "alloc_many alloc n s1 = Some (is1, s')"
    and eq: "is = i # is1"
    by (auto split: option.splits)
  from alloc_SomeD [OF Suc.prems(1) a] Suc.IH [OF _ r] eq show ?case by auto
qed auto

text \<open>The pool hands out exactly as many identifiers as are free.\<close>

lemma alloc_many_Some_iff:
  "invar s \<Longrightarrow> alloc_many alloc n s \<noteq> None \<longleftrightarrow> n \<le> card (ids s - live s)"
proof (induction n arbitrary: s)
  case (Suc n)
  show ?case
  proof (cases "alloc s")
    case None
    with alloc_None_iff [OF Suc.prems] show ?thesis by simp
  next
    case (Some a)
    obtain i s1 where a: "a = (i, s1)" by (cases a)
    from alloc_SomeD [OF Suc.prems Some [unfolded a]]
    have i: "i \<in> ids s" "i \<notin> live s" "live s1 = insert i (live s)" "ids s1 = ids s" "invar s1" by auto
    have "ids s - live s = insert i (ids s1 - live s1)" "i \<notin> ids s1 - live s1" using i by auto
    then have "card (ids s - live s) = Suc (card (ids s1 - live s1))"
      using finite_ids [OF i(5)] by simp
    with Suc.IH [OF i(5)] Some a show ?thesis by (auto split: option.splits)
  qed
qed simp

lemma release_then_available:
  assumes "invar s" and "i \<in> live s"
  shows "\<exists>j s'. alloc (release i s) = Some (j, s')"
proof -
  from release_law [OF assms] have r: "live (release i s) = live s - {i}" "ids (release i s) = ids s"
    "invar (release i s)" by auto
  with assms live_ids [OF assms(1)] have "live (release i s) \<noteq> ids (release i s)" by auto
  with alloc_None_iff [OF r(3)] show ?thesis by (cases "alloc (release i s)") auto
qed

end

section \<open>Properties\<close>

text \<open>
  C19: allocation of a free area. For a request of at least one bit the search
  \<^verbatim>\<open>bitmap_find_next_zero_area_align\<close> terminates. If its result is inside the map, it is the first
  aligned position at or after \<open>start\<close> whose \<open>nr\<close> bits are clear, and \<^verbatim>\<open>bitmap_set\<close> on it
  sets exactly these bits; otherwise there is no such position.
\<close>

theorem bitmap_area_alloc_correct:
  assumes "0 < nr" and "sz \<le> bm_cap m" and "sz < 2 ^ 32"
  shows "\<exists>r. bitmap_find_next_zero_area_align m sz start nr align = Some r \<and>
           (if r \<le> sz then start \<le> r \<and> area_free m sz nr align r \<and>
                 (\<forall>r'. start \<le> r' \<and> r' < r \<longrightarrow> \<not> area_free m sz nr align r') \<and>
                 (\<forall>i. i < bm_cap m \<longrightarrow>
                    (bm_bit (bitmap_set m r (int nr)) i \<longleftrightarrow> bm_bit m i \<or> r \<le> i \<and> i < r + nr))
            else (\<forall>r'\<ge>start. \<not> area_free m sz nr align r'))"
proof -
  obtain r where r: "bitmap_find_next_zero_area_align m sz start nr align = Some r"
    "if r \<le> sz then start \<le> r \<and> area_free m sz nr align r \<and>
          (\<forall>r'. start \<le> r' \<and> r' < r \<longrightarrow> \<not> area_free m sz nr align r')
     else (\<forall>r'\<ge>start. \<not> area_free m sz nr align r')"
    using zero_area_align_total [OF assms(1)] by blast
  moreover have "bm_bit (bitmap_set m r (int nr)) i \<longleftrightarrow> bm_bit m i \<or> r \<le> i \<and> i < r + nr"
    if "r \<le> sz" "i < bm_cap m" for i
    using r that assms by (subst bm_bit_bitmap_set) (auto simp: area_free_def)
  ultimately show ?thesis by auto
qed

theorem bitmap_area_alloc_correct_witness:
  "\<exists>r. bitmap_find_next_zero_area_align [3, 0] 128 0 2 4 = Some r \<and>
           (if r \<le> 128 then 0 \<le> r \<and> area_free [3, 0] 128 2 4 r \<and>
                 (\<forall>r'. 0 \<le> r' \<and> r' < r \<longrightarrow> \<not> area_free [3, 0] 128 2 4 r') \<and>
                 (\<forall>i. i < bm_cap [3, 0] \<longrightarrow>
                    (bm_bit (bitmap_set [3, 0] r (int 2)) i \<longleftrightarrow> bm_bit [3, 0] i \<or> r \<le> i \<and> i < r + 2))
            else (\<forall>r'\<ge>0. \<not> area_free [3, 0] 128 2 4 r'))"
  using bitmap_area_alloc_correct [of 2 128 "[3, 0]" 0 4] by (simp add: bm_cap_def)

text \<open>
  C20: the searches of \<^verbatim>\<open>core/find_bit.c\<close>. The forward searches return the first matching
  position of the range or its length when there is none, the unrolled \<^verbatim>\<open>find_first_bit\<close> agrees
  with \<^verbatim>\<open>find_next_bit\<close> from 0, and the backward search returns the last set position.
\<close>

theorem find_bit_searches_correct:
  "is_first (bm_bit addr) start nbits (find_next_bit addr nbits start) \<and>
   find_first_bit addr nbits = find_next_bit addr nbits 0 \<and>
   (nbits \<le> bm_cap addr \<longrightarrow>
      is_first (\<lambda>i. \<not> bm_bit addr i) start nbits (find_next_zero_bit addr nbits start) \<and>
      is_first (\<lambda>i. \<not> bm_bit addr i) 0 nbits (find_first_zero_bit addr nbits)) \<and>
   is_last (bm_bit addr) nbits (find_last_bit addr nbits)"
  using find_next_bit_first find_first_bit_eq_next find_next_zero_bit_first find_first_zero_bit_first
    find_last_bit_last by simp

theorem find_bit_searches_correct_witness:
  "is_first (bm_bit [8, 1]) 4 100 (find_next_bit [8, 1] 100 4) \<and>
   find_first_bit [8, 1] 100 = find_next_bit [8, 1] 100 0 \<and>
      is_first (\<lambda>i. \<not> bm_bit [8, 1] i) 4 100 (find_next_zero_bit [8, 1] 100 4) \<and>
      is_first (\<lambda>i. \<not> bm_bit [8, 1] i) 0 100 (find_first_zero_bit [8, 1] 100) \<and>
   is_last (bm_bit [8, 1]) 100 (find_last_bit [8, 1] 100)"
  using find_bit_searches_correct [of "[8, 1]" 4 100] by (simp add: bm_cap_def)

end
