(* ===== verification/Timer.thy ===== *)
theory Timer
  imports Minos_Prelude
begin

text \<open>
  Soft timers: \<^verbatim>\<open>core/timer.c\<close>, the tick conversions of \<^verbatim>\<open>include/minos/time.h\<close>, \<^verbatim>\<open>muldiv64\<close> of
  \<^verbatim>\<open>core/stdlib.c\<close> and \<^verbatim>\<open>arch_enable_timer\<close>. The state \<open>tstate\<close> holds every timer, the
  per-CPU \<^verbatim>\<open>raw_timer\<close> lists, the deadline programmed into each CPU's compare register (in
  ticks, \<open>None\<close> when the timer is disabled), the clock and \<^verbatim>\<open>cpu_khz\<close>. The operations work
  on every extension of this record, so the scheduler state extends it and its timer
  handlers can change it. A linked list is the list of its entries; \<^verbatim>\<open>entry.next != NULL\<close> is
  the field \<open>entry_linked\<close>; \<^verbatim>\<open>tmp_head\<close> of a running \<^verbatim>\<open>soft_timer_interrupt\<close> is kept in the
  state because \<^verbatim>\<open>list_del\<close> on an entry of it unlinks it there. The clock does not advance within one
  operation.
\<close>

unbundle bit_operations_syntax

section \<open>Tick conversion\<close>

definition muldiv64 :: "u64 \<Rightarrow> u32 \<Rightarrow> u32 \<Rightarrow> u64" where
  "muldiv64 a b c =
     (let u_low = ucast a :: u32;
          u_high = ucast (drop_bit 32 a) :: u32;
          rl = (ucast u_low :: u64) * ucast b;
          rh = (ucast u_high :: u64) * ucast b;
          rh = rh + drop_bit 32 rl;
          res_high = ucast (rh div ucast c) :: u32;
          res_low = ucast ((push_bit 32 (rh mod ucast c) + (rl AND 0xffffffff)) div ucast c) :: u32
      in push_bit 32 (ucast res_high) OR ucast res_low)"

definition ticks_to_ns :: "u32 \<Rightarrow> u64 \<Rightarrow> u64" where
  "ticks_to_ns cpu_khz ticks = muldiv64 ticks 1000000000 (1000 * cpu_khz)"

definition ns_to_ticks :: "u32 \<Rightarrow> u64 \<Rightarrow> u64" where
  "ns_to_ticks cpu_khz ns = muldiv64 ns (1000 * cpu_khz) 1000000000"

definition MILLISECS :: "u64 \<Rightarrow> u64" where
  "MILLISECS ms = ms * 1000000"

section \<open>Timers\<close>

record timer =
  tm_cpu :: int
  tm_stop :: bool
  expires :: u64
  timeout :: u64
  entry_linked :: bool
  tm_raw :: "nat option"

record 'i raw_timer =
  active :: "'i list"
  tmp_head :: "'i list"
  next_timer :: "'i option"
  running_timer :: "'i option"
  hw_cval :: "u64 option"

record 'i tstate =
  tmr :: "'i \<Rightarrow> timer"
  raws :: "nat \<Rightarrow> 'i raw_timer"
  clock :: u64
  khz :: u32

abbreviation (input) TIMER_PRECISION :: u64 where "TIMER_PRECISION \<equiv> 1000000"
abbreviation (input) DEFAULT_TIMER_MARGIN :: u64 where "DEFAULT_TIMER_MARGIN \<equiv> 500000"

text \<open>Updates of one timer and of the raw timer of one CPU.\<close>

definition upd_timer :: "'i \<Rightarrow> (timer \<Rightarrow> timer) \<Rightarrow> ('i, 'z) tstate_scheme \<Rightarrow> ('i, 'z) tstate_scheme" where
  "upd_timer i f s = s\<lparr>tmr := (tmr s)(i := f (tmr s i))\<rparr>"

definition upd_raw :: "nat \<Rightarrow> ('i raw_timer \<Rightarrow> 'i raw_timer) \<Rightarrow> ('i, 'z) tstate_scheme \<Rightarrow> ('i, 'z) tstate_scheme" where
  "upd_raw c f s = s\<lparr>raws := (raws s)(c := f (raws s c))\<rparr>"

text \<open>\<^verbatim>\<open>enable_timer\<close>, that is \<^verbatim>\<open>arch_enable_timer\<close>: 0 disables the timer.\<close>

definition enable_timer :: "nat \<Rightarrow> u64 \<Rightarrow> ('i, 'z) tstate_scheme \<Rightarrow> ('i, 'z) tstate_scheme" where
  "enable_timer c e s =
     (if e = 0 then upd_raw c (\<lambda>r. r\<lparr>hw_cval := None\<rparr>) s
      else upd_raw c (\<lambda>r. r\<lparr>hw_cval := Some (ns_to_ticks (khz s) e)\<rparr>) s)"

definition timer_pending :: "timer \<Rightarrow> bool" where
  "timer_pending t \<longleftrightarrow> entry_linked t"

text \<open>\<^verbatim>\<open>list_del(&timer->entry)\<close>: the entry leaves whichever list it is on.\<close>

definition list_del_entry :: "'i \<Rightarrow> ('i, 'z) tstate_scheme \<Rightarrow> ('i, 'z) tstate_scheme" where
  "list_del_entry i s = upd_timer i (\<lambda>t. t\<lparr>entry_linked := False\<rparr>)
     (s\<lparr>raws := (\<lambda>c. (raws s c)\<lparr>active := remove1 i (active (raws s c)),
                                 tmp_head := remove1 i (tmp_head (raws s c))\<rparr>)\<rparr>)"

definition detach_timer :: "'i \<Rightarrow> ('i, 'z) tstate_scheme \<Rightarrow> ('i, 'z) tstate_scheme" where
  "detach_timer i s = (if timer_pending (tmr s i) then list_del_entry i s else s)"

definition mod_timer_inner :: "nat \<Rightarrow> 'i \<Rightarrow> ('i, 'z) tstate_scheme \<Rightarrow> ('i, 'z) tstate_scheme res" where
  "mod_timer_inner c i s =
     (if tm_cpu (tmr s i) \<noteq> - 1 \<and> tm_cpu (tmr s i) \<noteq> int c then Inl Assert_Failed
      else
        (let s = detach_timer i s;
             s = upd_timer i (\<lambda>t. t\<lparr>tm_stop := False, tm_raw := Some c, tm_cpu := int c, entry_linked := True\<rparr>) s;
             s = upd_raw c (\<lambda>r. r\<lparr>active := active r @ [i]\<rparr>) s
         in case next_timer (raws s c) of
              None \<Rightarrow> Inr (enable_timer c (expires (tmr s i)) (upd_raw c (\<lambda>r. r\<lparr>next_timer := Some i\<rparr>) s))
            | Some n \<Rightarrow>
                if expires (tmr s n) > expires (tmr s i) + DEFAULT_TIMER_MARGIN
                then Inr (enable_timer c (expires (tmr s i)) (upd_raw c (\<lambda>r. r\<lparr>next_timer := Some i\<rparr>) s))
                else Inr s))"

definition mod_timer :: "nat \<Rightarrow> 'i \<Rightarrow> u64 \<Rightarrow> ('i, 'z) tstate_scheme \<Rightarrow> ('i, 'z) tstate_scheme res" where
  "mod_timer c i cval s =
     mod_timer_inner c i
       (if cval < clock s + TIMER_PRECISION
        then upd_timer i (\<lambda>t. t\<lparr>expires := clock s + TIMER_PRECISION\<rparr>) s
        else upd_timer i (\<lambda>t. t\<lparr>expires := cval\<rparr>) s)"

definition start_delay_timer :: "nat \<Rightarrow> 'i \<Rightarrow> ('i, 'z) tstate_scheme \<Rightarrow> ('i, 'z) tstate_scheme res" where
  "start_delay_timer c i s =
     (let s = (if timeout (tmr s i) < TIMER_PRECISION
               then upd_timer i (\<lambda>t. t\<lparr>timeout := TIMER_PRECISION\<rparr>) s else s);
          s = upd_timer i (\<lambda>t. t\<lparr>expires := clock s + timeout t\<rparr>) s
      in mod_timer_inner c i s)"

definition init_timer :: "'i \<Rightarrow> ('i, 'z) tstate_scheme \<Rightarrow> ('i, 'z) tstate_scheme" where
  "init_timer i s = upd_timer i (\<lambda>t. t\<lparr>tm_cpu := - 1, entry_linked := False, expires := 0, timeout := 0,
                                        tm_raw := None\<rparr>) s"

definition start_timer :: "nat \<Rightarrow> 'i \<Rightarrow> ('i, 'z) tstate_scheme \<Rightarrow> ('i, 'z) tstate_scheme res" where
  "start_timer c i s = start_delay_timer c i s"

definition setup_timer :: "'i \<Rightarrow> u64 \<Rightarrow> ('i, 'z) tstate_scheme \<Rightarrow> ('i, 'z) tstate_scheme" where
  "setup_timer i tval s = upd_timer i (\<lambda>t. t\<lparr>timeout := tval\<rparr>) s"

definition setup_and_start_timer ::
  "nat \<Rightarrow> 'i \<Rightarrow> u64 \<Rightarrow> ('i, 'z) tstate_scheme \<Rightarrow> ('i, 'z) tstate_scheme res" where
  "setup_and_start_timer c i tval s = start_timer c i (upd_timer i (\<lambda>t. t\<lparr>timeout := tval\<rparr>) s)"

text \<open>\<^verbatim>\<open>stop_timer\<close> spins with the list lock held while the timer's own handler runs.\<close>

definition stop_timer :: "'i \<Rightarrow> ('i, 'z) tstate_scheme \<Rightarrow> ('i, 'z) tstate_scheme res" where
  "stop_timer i s =
     (if tm_cpu (tmr s i) = - 1 then Inr s
      else
        (let s = upd_timer i (\<lambda>t. t\<lparr>tm_stop := True\<rparr>) s in
         case tm_raw (tmr s i) of
           None \<Rightarrow> Inl Assert_Failed
         | Some r \<Rightarrow>
             if running_timer (raws s r) = Some i then Inl Spinning
             else Inr (upd_timer i (\<lambda>t. t\<lparr>tm_cpu := - 1, expires := 0\<rparr>) (detach_timer i s))))"

definition init_raw_timers :: "('i, 'z) tstate_scheme \<Rightarrow> ('i, 'z) tstate_scheme" where
  "init_raw_timers s = s\<lparr>raws := (\<lambda>c. (raws s c)\<lparr>active := [], next_timer := None, running_timer := None\<rparr>)\<rparr>"





section \<open>Tick conversion is exact\<close>

lemma unat_mult_ucast32: "unat (ucast (x :: u32) * ucast (y :: u32) :: u64) = unat x * unat y"
proof -
  have "unat x * unat y \<le> (2 ^ 32 - 1) * (2 ^ 32 - 1)"
    using unat_bounds(2) [of x] unat_bounds(2) [of y] by (intro mult_mono) auto
  then have "unat x * unat y < 2 ^ 64" by simp
  then show ?thesis by (simp add: unat_word_ariths)
qed

lemma unat_ucast_low: "unat (ucast (a :: u64) :: u32) = unat a mod 2 ^ 32"
  by (simp add: unsigned_ucast_eq take_bit_eq_mod)

lemma unat_ucast_high: "unat (ucast (drop_bit 32 (a :: u64)) :: u32) = unat a div 2 ^ 32"
proof -
  have "unat a div 2 ^ 32 < 2 ^ 32" using unat_bounds(3) [of a] by (simp add: less_mult_imp_div_less)
  then show ?thesis unfolding unat_ucast_low unat_drop_bit_div by simp
qed

lemma unat_join32:
  "unat (push_bit 32 (ucast (h :: u32)) OR ucast (l :: u32) :: u64) = unat h * 2 ^ 32 + unat l"
proof -
  have "push_bit 32 (ucast h :: u64) AND ucast l = 0"
    by (rule bit_word_eqI) (auto simp: bit_simps dest: bit_imp_le_length)
  then have "push_bit 32 (ucast h) OR ucast l = (push_bit 32 (ucast h) + ucast l :: u64)"
    by (simp add: disjunctive_add_eq_or)
  moreover have "unat (push_bit 32 (ucast h) :: u64) = unat h * 2 ^ 32"
    using unat_bounds(2) [of h] by (subst unat_push_bit_mult) simp_all
  moreover have "unat h * 2 ^ 32 + unat l < 2 ^ 64"
    using unat_bounds(2) [of h] unat_bounds(2) [of l] by simp
  ultimately show ?thesis by (simp add: unat_word_ariths)
qed

lemma muldiv64_exact:
  assumes "c \<noteq> 0" and "unat a * unat b div unat c < 2 ^ 64"
  shows "unat (muldiv64 a b c) = unat a * unat b div unat c"
proof -
  define A B C where "A = unat a" and "B = unat b" and "C = unat c"
  have C: "0 < C" "C < 2 ^ 32" and B: "B < 2 ^ 32" and A: "A < 2 ^ 64"
    using assms(1) unat_bounds(2) [of c] unat_bounds(2) [of b] unat_bounds(3) [of a]
    by (auto simp: A_def B_def C_def unat_gt_0)
  define rl :: u64 where "rl = ucast (ucast a :: u32) * ucast b"
  define rh :: u64 where "rh = ucast (ucast (drop_bit 32 a) :: u32) * ucast b + drop_bit 32 rl"
  define low :: u64 where "low = push_bit 32 (rh mod ucast c) + (rl AND 0xffffffff)"
  have rl: "unat rl = A mod 2 ^ 32 * B"
    by (simp add: rl_def unat_mult_ucast32 unat_ucast_low A_def B_def)
  define H where "H = A div 2 ^ 32 * B + unat rl div 2 ^ 32"
  have AB: "A * B = H * 2 ^ 32 + unat rl mod 2 ^ 32"
  proof -
    have "A * B = (A div 2 ^ 32 * 2 ^ 32 + A mod 2 ^ 32) * B" by (simp only: div_mult_mod_eq)
    also have "\<dots> = A div 2 ^ 32 * B * 2 ^ 32 + unat rl" by (simp only: rl algebra_simps)
    also have "\<dots> = A div 2 ^ 32 * B * 2 ^ 32 + (unat rl div 2 ^ 32 * 2 ^ 32 + unat rl mod 2 ^ 32)"
      by (simp only: div_mult_mod_eq)
    finally show ?thesis by (simp only: H_def algebra_simps)
  qed
  have "A * B < 2 ^ 64 * 2 ^ 32" using A B by (intro mult_strict_mono) auto
  then have "H * 2 ^ 32 < 2 ^ 64 * 2 ^ 32" using AB by linarith
  then have H: "H < 2 ^ 64" by simp
  have rh: "unat rh = H"
    using H by (simp add: rh_def unat_word_ariths unat_mult_ucast32 unat_ucast_high unat_drop_bit_div
        H_def A_def B_def del: drop_bit_eq_div)
  have uc: "unat (ucast c :: u64) = C"
    by (simp add: C_def)
  have "rl AND 0xffffffff = take_bit 32 rl"
    by (simp add: take_bit_eq_mask mask_eq_exp_minus_1)
  then have ml: "unat (rl AND 0xffffffff) = unat rl mod 2 ^ 32"
    by (simp add: unsigned_take_bit_eq take_bit_eq_mod [of 32 "unat rl"])
  have "H mod C < 2 ^ 32" using C by (meson mod_less_divisor order.strict_trans)
  then have "H mod C * 2 ^ 32 + unat rl mod 2 ^ 32 < 2 ^ 64" by simp
  moreover have "unat (push_bit 32 (rh mod ucast c)) = H mod C * 2 ^ 32"
    using \<open>H mod C < 2 ^ 32\<close> by (subst unat_push_bit_mult) (simp_all add: unat_mod rh flip: C_def)
  ultimately have low: "unat low = H mod C * 2 ^ 32 + unat rl mod 2 ^ 32"
    by (simp add: low_def unat_word_ariths ml)
  have "A * B = (H div C * C + H mod C) * 2 ^ 32 + unat rl mod 2 ^ 32"
    using AB by (simp only: div_mult_mod_eq)
  also have "\<dots> = unat low + H div C * 2 ^ 32 * C" by (simp only: low algebra_simps)
  finally have "A * B div C = H div C * 2 ^ 32 + unat low div C" using C by simp
  moreover have "unat low div C < 2 ^ 32"
  proof -
    have "unat low < C * 2 ^ 32"
    proof -
      have "H mod C + 1 \<le> C" using C by (simp add: Suc_leI)
      then have "(H mod C + 1) * 2 ^ 32 \<le> C * 2 ^ 32" by (rule mult_le_mono1)
      moreover have "unat rl mod 2 ^ 32 < 2 ^ 32" by simp
      ultimately show ?thesis by (simp add: low)
    qed
    then show ?thesis by (simp add: less_mult_imp_div_less mult.commute)
  qed
  moreover have "H div C < 2 ^ 32"
    using assms(2) calculation(1) by (simp add: A_def B_def C_def)
  ultimately show ?thesis
    by (simp add: muldiv64_def Let_def unat_join32 flip: rl_def rh_def low_def)
      (simp add: unat_ucast_low unat_div rh uc flip: A_def B_def C_def)
qed

section \<open>The timer lists\<close>

text \<open>
  Well-formed timer state: each timer is on at most one active list, once, the one of the
  CPU it was started on, exactly when it is pending.
\<close>

definition timers_wf :: "('i, 'z) tstate_scheme \<Rightarrow> bool" where
  "timers_wf s \<longleftrightarrow>
     (\<forall>c. distinct (active (raws s c)) \<and> tmp_head (raws s c) = []) \<and>
     (\<forall>c i. i \<in> set (active (raws s c)) \<longleftrightarrow> timer_pending (tmr s i) \<and> tm_raw (tmr s i) = Some c) \<and>
     (\<forall>i. timer_pending (tmr s i) \<longrightarrow> (\<exists>c. tm_raw (tmr s i) = Some c \<and> tm_cpu (tmr s i) = int c))"

lemmas timer_upds = upd_timer_def upd_raw_def enable_timer_def list_del_entry_def detach_timer_def

lemma timers_wf_cong:
  assumes "\<And>c. active (raws s' c) = active (raws s c)" and "\<And>c. tmp_head (raws s' c) = tmp_head (raws s c)"
    and "\<And>i. entry_linked (tmr s' i) = entry_linked (tmr s i)" and "\<And>i. tm_raw (tmr s' i) = tm_raw (tmr s i)"
    and "\<And>i. tm_cpu (tmr s' i) = tm_cpu (tmr s i)"
  shows "timers_wf s' = timers_wf s"
  by (simp add: timers_wf_def timer_pending_def assms)

lemma upd_timer_simps [simp]:
  "tmr (upd_timer i f s) j = (if j = i then f (tmr s i) else tmr s j)"
  "raws (upd_timer i f s) = raws s" "clock (upd_timer i f s) = clock s" "khz (upd_timer i f s) = khz s"
  by (simp_all add: upd_timer_def)

lemma upd_raw_simps [simp]:
  "raws (upd_raw c f s) d = (if d = c then f (raws s c) else raws s d)"
  "tmr (upd_raw c f s) = tmr s" "clock (upd_raw c f s) = clock s" "khz (upd_raw c f s) = khz s"
  by (simp_all add: upd_raw_def)

lemma enable_timer_simps [simp]:
  "tmr (enable_timer c e s) = tmr s" "clock (enable_timer c e s) = clock s" "khz (enable_timer c e s) = khz s"
  "active (raws (enable_timer c e s) d) = active (raws s d)"
  "tmp_head (raws (enable_timer c e s) d) = tmp_head (raws s d)"
  "next_timer (raws (enable_timer c e s) d) = next_timer (raws s d)"
  "running_timer (raws (enable_timer c e s) d) = running_timer (raws s d)"
  "d \<noteq> c \<Longrightarrow> raws (enable_timer c e s) d = raws s d"
  by (simp_all add: enable_timer_def)

lemma list_del_entry_simps [simp]:
  "tmr (list_del_entry i s) j = (if j = i then (tmr s i)\<lparr>entry_linked := False\<rparr> else tmr s j)"
  "active (raws (list_del_entry i s) c) = remove1 i (active (raws s c))"
  "tmp_head (raws (list_del_entry i s) c) = remove1 i (tmp_head (raws s c))"
  "next_timer (raws (list_del_entry i s) c) = next_timer (raws s c)"
  "running_timer (raws (list_del_entry i s) c) = running_timer (raws s c)"
  "hw_cval (raws (list_del_entry i s) c) = hw_cval (raws s c)"
  "clock (list_del_entry i s) = clock s" "khz (list_del_entry i s) = khz s"
  by (simp_all add: list_del_entry_def)

lemma detach_timer_wf:
  assumes "timers_wf s"
  shows "timers_wf (detach_timer i s) \<and> \<not> timer_pending (tmr (detach_timer i s) i) \<and>
         (\<forall>c. active (raws (detach_timer i s) c) = remove1 i (active (raws s c)))"
  using assms
  by (auto simp: timers_wf_def detach_timer_def timer_pending_def distinct_remove1 remove1_idem
      set_remove1_eq)

lemma detach_timer_frame [simp]:
  "j \<noteq> i \<Longrightarrow> tmr (detach_timer i s) j = tmr s j"
  "clock (detach_timer i s) = clock s" "khz (detach_timer i s) = khz s"
  "next_timer (raws (detach_timer i s) c) = next_timer (raws s c)"
  "running_timer (raws (detach_timer i s) c) = running_timer (raws s c)"
  "hw_cval (raws (detach_timer i s) c) = hw_cval (raws s c)"
  "expires (tmr (detach_timer i s) i) = expires (tmr s i)"
  "timeout (tmr (detach_timer i s) i) = timeout (tmr s i)"
  "tm_cpu (tmr (detach_timer i s) i) = tm_cpu (tmr s i)"
  "tm_raw (tmr (detach_timer i s) i) = tm_raw (tmr s i)"
  by (simp_all add: detach_timer_def)

text \<open>The list part of \<^verbatim>\<open>__mod_timer\<close>, before the hardware is reprogrammed.\<close>

definition relink :: "nat \<Rightarrow> 'i \<Rightarrow> ('i, 'z) tstate_scheme \<Rightarrow> ('i, 'z) tstate_scheme" where
  "relink c i s = upd_raw c (\<lambda>r. r\<lparr>active := active r @ [i]\<rparr>)
     (upd_timer i (\<lambda>t. t\<lparr>tm_stop := False, tm_raw := Some c, tm_cpu := int c, entry_linked := True\<rparr>)
       (detach_timer i s))"

lemma link_wf:
  assumes "timers_wf s" and "\<not> timer_pending (tmr s i)"
  shows "timers_wf (upd_raw c (\<lambda>r. r\<lparr>active := active r @ [i]\<rparr>)
     (upd_timer i (\<lambda>t. t\<lparr>tm_stop := False, tm_raw := Some c, tm_cpu := int c, entry_linked := True\<rparr>) s))"
  using assms by (auto simp: timers_wf_def timer_pending_def)

lemma relink_wf:
  assumes "timers_wf s"
  shows "timers_wf (relink c i s)"
    and "active (raws (relink c i s) d) =
           (if d = c then remove1 i (active (raws s c)) @ [i] else remove1 i (active (raws s d)))"
  using detach_timer_wf [OF assms, of i] link_wf [of "detach_timer i s" i c] by (auto simp: relink_def)

lemma mod_timer_inner_relink:
  "mod_timer_inner c i s =
     (if tm_cpu (tmr s i) \<noteq> - 1 \<and> tm_cpu (tmr s i) \<noteq> int c then Inl Assert_Failed
      else Inr (if (case next_timer (raws s c) of None \<Rightarrow> True
                    | Some n \<Rightarrow> expires (tmr s n) > expires (tmr s i) + DEFAULT_TIMER_MARGIN)
                then enable_timer c (expires (tmr s i)) (upd_raw c (\<lambda>r. r\<lparr>next_timer := Some i\<rparr>) (relink c i s))
                else relink c i s))"
  by (auto simp: mod_timer_inner_def relink_def Let_def split: option.split)

lemma relink_frame [simp]:
  "clock (relink c i s) = clock s" "khz (relink c i s) = khz s"
  "j \<noteq> i \<Longrightarrow> tmr (relink c i s) j = tmr s j"
  "expires (tmr (relink c i s) i) = expires (tmr s i)"
  "next_timer (raws (relink c i s) d) = next_timer (raws s d)"
  "running_timer (raws (relink c i s) d) = running_timer (raws s d)"
  "hw_cval (raws (relink c i s) d) = hw_cval (raws s d)"
  "timer_pending (tmr (relink c i s) i)"
  by (simp_all add: relink_def timer_pending_def)

lemma timers_wf_not_elsewhere:
  assumes "timers_wf s" and "tm_cpu (tmr s i) = - 1 \<or> tm_cpu (tmr s i) = int c" and "d \<noteq> c"
  shows "i \<notin> set (active (raws s d))"
  using assms by (force simp: timers_wf_def)

lemma relink_other_cpu:
  assumes "timers_wf s" and "tm_cpu (tmr s i) = - 1 \<or> tm_cpu (tmr s i) = int c" and "d \<noteq> c"
  shows "raws (relink c i s) d = raws s d"
proof -
  have "tmp_head (raws s d) = []" using assms(1) by (simp add: timers_wf_def)
  then show ?thesis
    using timers_wf_not_elsewhere [OF assms] assms(3)
    by (simp add: relink_def detach_timer_def list_del_entry_def remove1_idem)
qed

definition set_expiry :: "'i \<Rightarrow> u64 \<Rightarrow> ('i, 'z) tstate_scheme \<Rightarrow> ('i, 'z) tstate_scheme" where
  "set_expiry i v s = upd_timer i (\<lambda>t. t\<lparr>timeout := max v TIMER_PRECISION,
     expires := clock s + max v TIMER_PRECISION\<rparr>) s"

lemma setup_and_start_timer_eq:
  "setup_and_start_timer c i v s = mod_timer_inner c i (set_expiry i v s)"
proof (cases "v < TIMER_PRECISION")
  case True
  then have "max v TIMER_PRECISION = TIMER_PRECISION" by simp
  with True show ?thesis
    by (simp add: setup_and_start_timer_def start_timer_def start_delay_timer_def set_expiry_def
        upd_timer_def)
next
  case False
  then have "max v TIMER_PRECISION = v" by simp
  with False show ?thesis
    by (simp add: setup_and_start_timer_def start_timer_def start_delay_timer_def set_expiry_def
        upd_timer_def)
qed

lemma set_expiry_simps [simp]:
  "raws (set_expiry i v s) = raws s"
  "j \<noteq> i \<Longrightarrow> tmr (set_expiry i v s) j = tmr s j"
  "expires (tmr (set_expiry i v s) i) = clock s + max v TIMER_PRECISION"
  "tm_cpu (tmr (set_expiry i v s) j) = tm_cpu (tmr s j)"
  "clock (set_expiry i v s) = clock s" "khz (set_expiry i v s) = khz s"
  by (simp_all add: set_expiry_def)

lemma timers_wf_upd_timer:
  assumes "\<And>t. entry_linked (f t) = entry_linked t" and "\<And>t. tm_raw (f t) = tm_raw t"
    and "\<And>t. tm_cpu (f t) = tm_cpu t"
  shows "timers_wf (upd_timer i f s) = timers_wf s"
  by (rule timers_wf_cong) (simp_all add: assms)

lemma timers_wf_set_expiry [simp]: "timers_wf (set_expiry i v s) = timers_wf s"
  by (simp add: set_expiry_def timers_wf_upd_timer)

lemma timers_wf_enable [simp]:
  "timers_wf (enable_timer c e (upd_raw c (\<lambda>r. r\<lparr>next_timer := n\<rparr>) s)) = timers_wf s"
  by (rule timers_wf_cong) simp_all

lemma setup_and_start_timer_spec:
  assumes "timers_wf s" and "tm_cpu (tmr s i) = - 1 \<or> tm_cpu (tmr s i) = int c"
  obtains s' where "setup_and_start_timer c i v s = Inr s'" and "timers_wf s'"
    and "active (raws s' c) = remove1 i (active (raws s c)) @ [i]"
    and "timer_pending (tmr s' i)" and "expires (tmr s' i) = clock s + max v TIMER_PRECISION"
    and "\<And>j. j \<noteq> i \<Longrightarrow> tmr s' j = tmr s j" and "\<And>d. d \<noteq> c \<Longrightarrow> raws s' d = raws s d"
proof -
  let ?s = "set_expiry i v s"
  let ?P = "case next_timer (raws ?s c) of None \<Rightarrow> True
            | Some n \<Rightarrow> expires (tmr ?s n) > expires (tmr ?s i) + DEFAULT_TIMER_MARGIN"
  let ?r = "relink c i ?s"
  let ?t = "if ?P then enable_timer c (expires (tmr ?s i)) (upd_raw c (\<lambda>r. r\<lparr>next_timer := Some i\<rparr>) ?r) else ?r"
  have eq: "setup_and_start_timer c i v s = Inr ?t"
    using assms(2) by (auto simp: setup_and_start_timer_eq mod_timer_inner_relink)
  have wf: "timers_wf ?s" using assms(1) by simp
  have "raws ?t d = raws s d" if "d \<noteq> c" for d
    using relink_other_cpu [OF wf, of i c d] assms(2) that by simp
  with eq show ?thesis
    using relink_wf [OF wf, of c i] by (intro that [of ?t]) simp_all
qed

lemma timers_wf_upd_unlinked:
  assumes "timers_wf s" and "\<not> timer_pending (tmr s i)"
    and "\<And>t. entry_linked (f t) = entry_linked t" and "\<And>t. tm_raw (f t) = tm_raw t"
  shows "timers_wf (upd_timer i f s)"
  using assms by (auto simp: timers_wf_def timer_pending_def)

lemma stop_timer_spec:
  assumes "timers_wf s" and "tm_cpu (tmr s i) \<noteq> - 1 \<Longrightarrow> \<exists>r. tm_raw (tmr s i) = Some r \<and> running_timer (raws s r) \<noteq> Some i"
  obtains s' where "stop_timer i s = Inr s'" and "timers_wf s'" and "tm_cpu (tmr s' i) = - 1"
    and "\<And>c. active (raws s' c) = remove1 i (active (raws s c))"
    and "\<And>j. j \<noteq> i \<Longrightarrow> tmr s' j = tmr s j"
proof (cases "tm_cpu (tmr s i) = - 1")
  case True
  then have "i \<notin> set (active (raws s c))" for c using assms(1) by (force simp: timers_wf_def)
  with True assms(1) show ?thesis
    by (intro that [of s]) (simp_all add: stop_timer_def remove1_idem)
next
  case False
  let ?s1 = "upd_timer i (\<lambda>t. t\<lparr>tm_stop := True\<rparr>) s"
  let ?s2 = "upd_timer i (\<lambda>t. t\<lparr>tm_cpu := - 1, expires := 0\<rparr>) (detach_timer i ?s1)"
  have eq: "stop_timer i s = Inr ?s2" using False assms(2) by (auto simp: stop_timer_def Let_def)
  have "timers_wf ?s1" using assms(1) by (simp add: timers_wf_upd_timer)
  note d = detach_timer_wf [OF this, of i]
  have "timers_wf ?s2" using d by (intro timers_wf_upd_unlinked) auto
  moreover have "active (raws ?s2 c) = remove1 i (active (raws s c))" for c using d by simp
  moreover note eq
  ultimately show ?thesis by (intro that [of ?s2]) simp_all
qed

section \<open>The programmed deadline\<close>

text \<open>
  The hardware is programmed for a pending timer whose expiry is, up to the margin, the earliest
  one.
\<close>

definition next_ok :: "nat \<Rightarrow> ('i, 'z) tstate_scheme \<Rightarrow> bool" where
  "next_ok c s \<longleftrightarrow>
     (case next_timer (raws s c) of
        None \<Rightarrow> active (raws s c) = []
      | Some n \<Rightarrow> n \<in> set (active (raws s c)) \<and>
          hw_cval (raws s c) = Some (ns_to_ticks (khz s) (expires (tmr s n))) \<and>
          (\<forall>j\<in>set (active (raws s c)).
             unat (expires (tmr s n)) \<le> unat (expires (tmr s j)) + unat DEFAULT_TIMER_MARGIN))"

lemma unat_add_margin:
  "unat x + unat DEFAULT_TIMER_MARGIN < 2 ^ 64 \<Longrightarrow> unat (x + DEFAULT_TIMER_MARGIN) = unat x + unat DEFAULT_TIMER_MARGIN"
  by (simp add: unat_word_ariths)

lemma setup_and_start_timer_next_ok:
  assumes wf: "timers_wf s" and cpu: "tm_cpu (tmr s i) = - 1 \<or> tm_cpu (tmr s i) = int c"
    and ok: "next_ok c s" and new: "i \<notin> set (active (raws s c))"
    and nowrap: "unat (clock s) + unat (max v TIMER_PRECISION) + unat DEFAULT_TIMER_MARGIN < 2 ^ 64"
    and st: "setup_and_start_timer c i v s = Inr s'"
  shows "next_ok c s'"
proof -
  let ?s = "set_expiry i v s"
  let ?e = "clock s + max v TIMER_PRECISION"
  let ?r = "relink c i ?s"
  have e: "unat ?e = unat (clock s) + unat (max v TIMER_PRECISION)"
    using nowrap unat_add_lem [of "clock s" "max v TIMER_PRECISION"] by simp
  have "0 < unat (max v TIMER_PRECISION)" by (auto simp: max_def unat_gt_0)
  then have e0: "?e \<noteq> 0" using e by (metis add_gr_0 less_numeral_extra(3) unsigned_0)
  have em: "unat (?e + DEFAULT_TIMER_MARGIN) = unat ?e + unat DEFAULT_TIMER_MARGIN"
    using nowrap e by (intro unat_add_margin) simp
  have act: "active (raws ?r c) = active (raws s c) @ [i]"
    using relink_wf(2) [of ?s c i c] wf new by (simp add: remove1_idem)
  have s': "s' = (if (case next_timer (raws s c) of None \<Rightarrow> True
                    | Some n \<Rightarrow> expires (tmr ?s n) > expires (tmr ?s i) + DEFAULT_TIMER_MARGIN)
                then enable_timer c ?e (upd_raw c (\<lambda>r. r\<lparr>next_timer := Some i\<rparr>) ?r) else ?r)"
    using st cpu by (auto simp: setup_and_start_timer_eq mod_timer_inner_relink split: if_splits)
  show ?thesis
  proof (cases "next_timer (raws s c)")
    case None
    then have "active (raws s c) = []" using ok by (simp add: next_ok_def)
    with None s' act e0 show ?thesis
      by (simp add: next_ok_def) (simp add: enable_timer_def)
  next
    case (Some n)
    with ok new have n: "n \<in> set (active (raws s c))" "n \<noteq> i"
      "hw_cval (raws s c) = Some (ns_to_ticks (khz s) (expires (tmr s n)))"
      "\<And>j. j \<in> set (active (raws s c)) \<Longrightarrow>
         unat (expires (tmr s n)) \<le> unat (expires (tmr s j)) + unat DEFAULT_TIMER_MARGIN"
      by (auto simp: next_ok_def)
    have other: "tmr ?r j = tmr s j" if "j \<in> set (active (raws s c))" for j
      using that new by (cases "j = i") simp_all
    have ri: "expires (tmr ?r i) = ?e" by simp
    show ?thesis
    proof (cases "expires (tmr s n) > ?e + DEFAULT_TIMER_MARGIN")
      case True
      then have lt: "unat ?e + unat DEFAULT_TIMER_MARGIN < unat (expires (tmr s n))"
        using em by (simp add: word_less_nat_alt)
      have "unat ?e \<le> unat (expires (tmr s j)) + unat DEFAULT_TIMER_MARGIN"
        if "j \<in> set (active (raws s c))" for j using n(4) [OF that] lt by linarith
      with True Some s' act e0 n(2) other show ?thesis
        by (simp add: next_ok_def del: unat_numeral) (simp add: enable_timer_def)
    next
      case False
      then have "unat (expires (tmr s n)) \<le> unat ?e + unat DEFAULT_TIMER_MARGIN"
        using em by (simp add: word_less_nat_alt)
      with False Some s' act n other show ?thesis
        by (simp add: next_ok_def)
    qed
  qed
qed

text \<open>
  \<^verbatim>\<open>stop_timer\<close> does not reset \<^verbatim>\<open>next_timer\<close> but zeroes its expiry, so no later start
  finds its own expiry earlier and the hardware keeps the deadline of the stopped timer.
\<close>

lemma stop_next_timer_stale:
  assumes nt: "next_timer (raws s c) = Some n" and cpu: "tm_cpu (tmr s n) \<noteq> - 1" and ne: "i \<noteq> n"
    and stop: "stop_timer n s = Inr s1" and st: "setup_and_start_timer c i v s1 = Inr s2"
  shows "next_timer (raws s2 c) = Some n \<and> hw_cval (raws s2 c) = hw_cval (raws s c)"
proof -
  from stop cpu have s1: "expires (tmr s1 n) = 0" "next_timer (raws s1 c) = Some n"
    "hw_cval (raws s1 c) = hw_cval (raws s c)"
    using nt by (auto simp: stop_timer_def Let_def split: option.splits if_splits)
  have "expires (tmr (set_expiry i v s1) n) = 0" using s1 ne by simp
  with st s1 show ?thesis
    by (auto simp: setup_and_start_timer_eq mod_timer_inner_relink split: if_splits)
qed

section \<open>The timer interrupt\<close>




lemma more_upds [simp]:
  "tstate.more (upd_timer i f s) = tstate.more s" "tstate.more (upd_raw c g s) = tstate.more s"
  "tstate.more (list_del_entry i s) = tstate.more s" "tstate.more (enable_timer c e s) = tstate.more s"
  by (simp_all add: upd_timer_def upd_raw_def list_del_entry_def enable_timer_def)







section \<open>Properties\<close>

text \<open>
  C18: \<^verbatim>\<open>muldiv64\<close> computes \<open>a * b div c\<close> exactly (its 96-bit intermediate result loses
  nothing) whenever the quotient fits into 64 bits, so the conversions between nanoseconds and
  counter ticks round towards zero.
\<close>

theorem muldiv64_correct:
  assumes "c \<noteq> 0" and "unat a * unat b div unat c < 2 ^ 64"
  shows "unat (muldiv64 a b c) = unat a * unat b div unat c"
  using muldiv64_exact [OF assms] .

theorem muldiv64_correct_witness:
  "unat (muldiv64 0x123456789abcdef 62500000 1000000000) = 0x123456789abcdef * 62500000 div 1000000000"
  using muldiv64_correct [of 1000000000 "0x123456789abcdef" 62500000] by simp

text \<open>
  C17: starting a timer. In a well-formed timer state a timer that is idle or already on this
  CPU is started without a failing assertion: it becomes the last active entry of the CPU's list,
  expires at least \<^verbatim>\<open>TIMER_PRECISION\<close> from now, no other timer and no other CPU's list changes,
  and if it was not pending and the hardware was programmed for the earliest expiry (up
  to the margin), it still is.
\<close>

theorem start_timer_correct:
  assumes "timers_wf s" and "tm_cpu (tmr s i) = - 1 \<or> tm_cpu (tmr s i) = int c"
    and "unat (clock s) + unat (max v TIMER_PRECISION) + unat DEFAULT_TIMER_MARGIN < 2 ^ 64"
  shows "\<exists>s'. setup_and_start_timer c i v s = Inr s' \<and> timers_wf s' \<and>
           active (raws s' c) = remove1 i (active (raws s c)) @ [i] \<and>
           unat (expires (tmr s' i)) = unat (clock s) + max (unat v) 1000000 \<and>
           (\<forall>j. j \<noteq> i \<longrightarrow> tmr s' j = tmr s j) \<and> (\<forall>d. d \<noteq> c \<longrightarrow> raws s' d = raws s d) \<and>
           (i \<notin> set (active (raws s c)) \<and> next_ok c s \<longrightarrow> next_ok c s')"
proof -
  obtain s' where s': "setup_and_start_timer c i v s = Inr s'" "timers_wf s'"
    "active (raws s' c) = remove1 i (active (raws s c)) @ [i]"
    "expires (tmr s' i) = clock s + max v TIMER_PRECISION"
    "\<And>j. j \<noteq> i \<Longrightarrow> tmr s' j = tmr s j" "\<And>d. d \<noteq> c \<Longrightarrow> raws s' d = raws s d"
    using setup_and_start_timer_spec [OF assms(1,2)] by metis
  have "unat (max v TIMER_PRECISION) = max (unat v) 1000000"
    by (simp add: max_def word_le_nat_alt)
  moreover have "unat (clock s + max v TIMER_PRECISION) = unat (clock s) + unat (max v TIMER_PRECISION)"
    using assms(3) unat_add_lem [of "clock s" "max v TIMER_PRECISION"] by simp
  moreover have "next_ok c s'" if "i \<notin> set (active (raws s c))" "next_ok c s"
    using setup_and_start_timer_next_ok [OF assms(1,2) that(2,1) assms(3) s'(1)] .
  ultimately show ?thesis using s' by auto
qed

definition demo_timers :: "(nat, nat list) tstate_scheme" where
  "demo_timers = \<lparr>
     tmr = (\<lambda>i. \<lparr>tm_cpu = (if i < 3 then 0 else - 1), tm_stop = False,
        expires = (if i < 3 then 5000000 + 1000000 * of_nat i else 0), timeout = 0,
        entry_linked = i < 3, tm_raw = (if i < 3 then Some 0 else None)\<rparr>),
     raws = (\<lambda>c. \<lparr>active = (if c = 0 then [0, 1, 2] else []), tmp_head = [],
        next_timer = (if c = 0 then Some 0 else None), running_timer = None,
        hw_cval = (if c = 0 then Some (ns_to_ticks 62500 5000000) else None)\<rparr>),
     clock = 6000000, khz = 62500, \<dots> = []\<rparr>"

lemma demo_timers_wf: "timers_wf demo_timers"
  by (auto simp: timers_wf_def demo_timers_def timer_pending_def)

theorem start_timer_correct_witness:
  "\<exists>s'. setup_and_start_timer 0 5 70000000 demo_timers = Inr s' \<and> timers_wf s' \<and>
           active (raws s' 0) = remove1 5 (active (raws demo_timers 0)) @ [5] \<and>
           unat (expires (tmr s' 5)) = 76000000"
  using start_timer_correct [of demo_timers 5 0 70000000, OF demo_timers_wf]
  by (auto simp: demo_timers_def)



text \<open>
  C24: \<^verbatim>\<open>stop_timer\<close> leaves a stale \<^verbatim>\<open>next_timer\<close>. After the timer the hardware is programmed for
  is stopped, starting any other timer on that CPU leaves \<^verbatim>\<open>next_timer\<close> and the compare register as
  they were, however early the new timer expires.
\<close>

theorem stop_timer_stale_deadline:
  assumes "next_timer (raws s c) = Some n" and "tm_cpu (tmr s n) \<noteq> - 1" and "i \<noteq> n"
    and "stop_timer n s = Inr s1" and "setup_and_start_timer c i v s1 = Inr s2"
  shows "next_timer (raws s2 c) = Some n \<and> hw_cval (raws s2 c) = hw_cval (raws s c)"
  using stop_next_timer_stale [OF assms] .

definition demo_late :: "nat tstate" where
  "demo_late = \<lparr>
     tmr = (\<lambda>i. \<lparr>tm_cpu = (if i = 0 then 0 else - 1), tm_stop = False,
        expires = (if i = 0 then 1000000000 else 0), timeout = 0,
        entry_linked = (i = 0), tm_raw = (if i = 0 then Some 0 else None)\<rparr>),
     raws = (\<lambda>c. \<lparr>active = (if c = 0 then [0] else []), tmp_head = [],
        next_timer = (if c = 0 then Some 0 else None), running_timer = None,
        hw_cval = (if c = 0 then Some (ns_to_ticks 62500 1000000000) else None)\<rparr>),
     clock = 0, khz = 62500\<rparr>"

theorem stop_timer_stale_deadline_witness:
  "\<exists>s1 s2. stop_timer 0 demo_late = Inr s1 \<and> setup_and_start_timer 0 1 5000000 s1 = Inr s2 \<and>
     expires (tmr s2 1) = 5000000 \<and> active (raws s2 0) = [1] \<and>
     hw_cval (raws s2 0) = Some (ns_to_ticks 62500 1000000000)"
proof -
  obtain s1 where s1: "stop_timer 0 demo_late = Inr s1"
    by (simp add: stop_timer_def demo_late_def Let_def)
  then have s1': "tm_cpu (tmr s1 1) = - 1" "clock s1 = 0" "active (raws s1 0) = []" "\<not> entry_linked (tmr s1 1)"
    by (auto simp: stop_timer_def demo_late_def Let_def detach_timer_def timer_pending_def)
  then obtain s2 where s2: "setup_and_start_timer 0 1 5000000 s1 = Inr s2"
    by (simp add: setup_and_start_timer_eq mod_timer_inner_relink)
  with s1' have "expires (tmr s2 1) = 5000000" "active (raws s2 0) = [1]"
    by (auto simp: setup_and_start_timer_eq mod_timer_inner_relink relink_def detach_timer_def timer_pending_def
        set_expiry_def split: if_splits)
  moreover have "hw_cval (raws s2 0) = hw_cval (raws demo_late 0)"
    using stop_timer_stale_deadline [OF _ _ _ s1 s2] by (simp add: demo_late_def)
  ultimately show ?thesis using s1 s2 by (auto simp: demo_late_def)
qed

end
