(* ===== verification/Kernel.thy ===== *)
theory Kernel
  imports Bitmap Timer
begin

text \<open>
  The state of the task kernel and its lowest layer: \<^verbatim>\<open>struct task\<close> and \<^verbatim>\<open>struct task_info\<close>
  (\<^verbatim>\<open>include/minos/task_def.h\<close>, \<^verbatim>\<open>task_info.h\<close>, \<^verbatim>\<open>task.h\<close>), \<^verbatim>\<open>struct pcpu\<close>
  (\<^verbatim>\<open>include/minos/percpu.h\<close>), preemption (\<^verbatim>\<open>preempt.h\<close>), spin locks
  (\<^verbatim>\<open>spinlock.h\<close>) and the list operations on \<^verbatim>\<open>state_list\<close>.

  The state is that of all CPUs; \<open>cpu_id\<close> is the CPU that executes the next operation, its
  \<open>running_task\<close> is \<^verbatim>\<open>current\<close>. A task pointer is the task's number. A linked list is the list of its
  entries and \<^verbatim>\<open>state_list.next != NULL\<close>, \<^verbatim>\<open>event_list.next != NULL\<close> are the fields
  \<open>state_linked\<close>, \<open>event_linked\<close>. Lock holders are in the set \<open>locks\<close>: to take a lock that is
  held spins. \<^verbatim>\<open>preempt_enable\<close> may reschedule; what it then does is the parameter \<open>rs\<close> of every
  operation that calls it, because the scheduler itself (through \<^verbatim>\<open>flag_set\<close> in \<^verbatim>\<open>pick_next_task\<close>) uses
  these operations; \<open>rs\<close> is the model of \<^verbatim>\<open>sched\<close> everywhere outside the scheduler.
\<close>

unbundle bit_operations_syntax

section \<open>Constants\<close>

abbreviation (input) NR_CPUS :: nat where "NR_CPUS \<equiv> 4"
abbreviation (input) OS_NR_TASKS :: nat where "OS_NR_TASKS \<equiv> 256"
abbreviation (input) OS_PRIO_MAX :: nat where "OS_PRIO_MAX \<equiv> 8"
abbreviation (input) OS_PRIO_VCPU :: nat where "OS_PRIO_VCPU \<equiv> 4"
abbreviation (input) OS_PRIO_DEFAULT :: nat where "OS_PRIO_DEFAULT \<equiv> 5"
abbreviation (input) OS_PRIO_IDLE :: nat where "OS_PRIO_IDLE \<equiv> 7"
abbreviation (input) TASK_RUN_TIME :: u64 where "TASK_RUN_TIME \<equiv> 100"

abbreviation (input) TIF_NEED_RESCHED :: nat where "TIF_NEED_RESCHED \<equiv> 0"
abbreviation (input) TIF_DONOT_PREEMPT :: nat where "TIF_DONOT_PREEMPT \<equiv> 2"
abbreviation (input) TIF_TICK_EXHAUST :: nat where "TIF_TICK_EXHAUST \<equiv> 3"
abbreviation (input) TIF_HARDIRQ_MASK :: nat where "TIF_HARDIRQ_MASK \<equiv> 8"
abbreviation (input) TIF_SOFTIRQ_MASK :: nat where "TIF_SOFTIRQ_MASK \<equiv> 9"
abbreviation (input) TIF_NEED_STOP :: nat where "TIF_NEED_STOP \<equiv> 10"
abbreviation (input) TIF_NEED_FREEZE :: nat where "TIF_NEED_FREEZE \<equiv> 11"
abbreviation (input) TIF_WAIT_INTERRUPTED :: nat where "TIF_WAIT_INTERRUPTED \<equiv> 12"

abbreviation (input) TASK_FLAGS_VCPU :: u64 where "TASK_FLAGS_VCPU \<equiv> 1"
abbreviation (input) TASK_FLAGS_IDLE :: u64 where "TASK_FLAGS_IDLE \<equiv> 4"
abbreviation (input) TASK_FLAGS_NO_AUTO_START :: u64 where "TASK_FLAGS_NO_AUTO_START \<equiv> 8"
abbreviation (input) TASK_FLAGS_PERCPU :: u64 where "TASK_FLAGS_PERCPU \<equiv> 0x20"

text \<open>\<^verbatim>\<open>__TIF_x\<close> is \<open>tif_bit TIF_x\<close>.\<close>

definition tif_bit :: "nat \<Rightarrow> u64" where
  "tif_bit n = push_bit n 1"

section \<open>State\<close>

datatype task_state =
    TASK_STATE_RUNNING | TASK_STATE_READY | TASK_STATE_WAIT_EVENT | TASK_STATE_WAKING
  | TASK_STATE_SUSPEND | TASK_STATE_STOP

datatype pend_state = TASK_STATE_PEND_OK | TASK_STATE_PEND_TO | TASK_STATE_PEND_ABORT

datatype event_type =
    OS_EVENT_TYPE_UNKNOWN | OS_EVENT_TYPE_MBOX | OS_EVENT_TYPE_QUEUE | OS_EVENT_TYPE_SEM
  | OS_EVENT_TYPE_MUTEX | OS_EVENT_TYPE_FLAG | OS_EVENT_TYPE_NORMAL | OS_EVENT_TYPE_TIMER

datatype tmid = Sched_timer nat | Delay_timer nat
datatype flag_id = Kworker_flag nat | Flag_grp nat
datatype lock = Task_lock nat | Event_lock nat | Flag_lock flag_id | Pcpu_lock nat | Tid_lock
datatype sgi = RESCHED_IRQ | IRQWORK_IRQ

text \<open>\<^verbatim>\<open>struct task\<close> with its \<^verbatim>\<open>task_info\<close>; \<open>saved_irqs_off\<close> is the interrupt mask in the saved
  SPSR of the task.\<close>

record task =
  preempt_count :: int
  ti_flags :: u64
  tid :: nat
  task_flags :: u64
  delay :: u32
  state :: task_state
  pend_state :: pend_state
  wait_type :: event_type
  msg :: u64
  wait_event :: u64
  flags_rdy :: u32
  cpu :: int
  last_cpu :: int
  affinity :: int
  prio :: nat
  run_time :: u64
  ctx_sw_cnt :: u64
  start_ns :: u64
  state_linked :: bool
  event_linked :: bool
  saved_irqs_off :: bool

record pcpu =
  pcpu_id :: nat
  new_list :: "nat list"
  stop_list :: "nat list"
  running_task :: nat
  idle_task :: nat
  local_rdy_grp :: u8
  ready_list :: "nat list list"
  tasks_in_prio :: "int list"
  os_is_running :: bool
  irqs_off :: bool

record event =
  ev_type :: event_type
  owner :: nat
  cnt :: u32
  data :: u64
  wait_list :: "nat list"

record flag_node =
  node_task :: nat
  node_flags :: u32
  node_wait_type :: nat

record flag_grp =
  grp_flags :: u32
  grp_wait_list :: "flag_node list"

record kstate = "tmid tstate" +
  tasks :: "nat \<Rightarrow> task"
  pcpus :: "nat \<Rightarrow> pcpu"
  cpu_id :: nat
  events :: "nat \<Rightarrow> event"
  flag_grps :: "flag_id \<Rightarrow> flag_grp"
  locks :: "lock set"
  sgis :: "(sgi \<times> nat) list"
  tid_map :: bitmap
  os_task_table :: "nat \<Rightarrow> nat option"

definition upd_task :: "nat \<Rightarrow> (task \<Rightarrow> task) \<Rightarrow> kstate \<Rightarrow> kstate" where
  "upd_task t f s = s\<lparr>tasks := (tasks s)(t := f (tasks s t))\<rparr>"

definition upd_pcpu :: "nat \<Rightarrow> (pcpu \<Rightarrow> pcpu) \<Rightarrow> kstate \<Rightarrow> kstate" where
  "upd_pcpu c f s = s\<lparr>pcpus := (pcpus s)(c := f (pcpus s c))\<rparr>"

definition upd_event :: "nat \<Rightarrow> (event \<Rightarrow> event) \<Rightarrow> kstate \<Rightarrow> kstate" where
  "upd_event e f s = s\<lparr>events := (events s)(e := f (events s e))\<rparr>"

definition upd_flag :: "flag_id \<Rightarrow> (flag_grp \<Rightarrow> flag_grp) \<Rightarrow> kstate \<Rightarrow> kstate" where
  "upd_flag g f s = s\<lparr>flag_grps := (flag_grps s)(g := f (flag_grps s g))\<rparr>"

text \<open>\<^verbatim>\<open>current\<close> and \<^verbatim>\<open>get_pcpu()\<close>.\<close>

definition cur :: "kstate \<Rightarrow> nat" where
  "cur s = running_task (pcpus s (cpu_id s))"

definition cur_task :: "kstate \<Rightarrow> task" where
  "cur_task s = tasks s (cur s)"

definition get_pcpu :: "kstate \<Rightarrow> pcpu" where
  "get_pcpu s = pcpus s (cpu_id s)"

section \<open>Task flags\<close>

definition set_need_resched :: "kstate \<Rightarrow> kstate" where
  "set_need_resched s = upd_task (cur s) (\<lambda>t. t\<lparr>ti_flags := ti_flags t OR tif_bit TIF_NEED_RESCHED\<rparr>) s"

definition clear_need_resched :: "kstate \<Rightarrow> kstate" where
  "clear_need_resched s = upd_task (cur s) (\<lambda>t. t\<lparr>ti_flags := ti_flags t AND NOT (tif_bit TIF_NEED_RESCHED)\<rparr>) s"

definition clear_do_not_preempt :: "kstate \<Rightarrow> kstate" where
  "clear_do_not_preempt s =
     upd_task (cur s) (\<lambda>t. t\<lparr>ti_flags := ti_flags t AND NOT (tif_bit TIF_DONOT_PREEMPT)\<rparr>) s"

definition need_resched :: "kstate \<Rightarrow> bool" where
  "need_resched s \<longleftrightarrow> ti_flags (cur_task s) AND tif_bit TIF_NEED_RESCHED \<noteq> 0"

definition do_not_preempt :: "kstate \<Rightarrow> kstate" where
  "do_not_preempt s = upd_task (cur s) (\<lambda>t. t\<lparr>ti_flags := ti_flags t OR tif_bit TIF_DONOT_PREEMPT\<rparr>) s"

definition in_interrupt :: "kstate \<Rightarrow> bool" where
  "in_interrupt s \<longleftrightarrow> ti_flags (cur_task s) AND (tif_bit TIF_HARDIRQ_MASK OR tif_bit TIF_SOFTIRQ_MASK) \<noteq> 0"

text \<open>\<^verbatim>\<open>task_set_resched\<close>, \<^verbatim>\<open>task_clear_resched\<close> and \<^verbatim>\<open>task_need_resched\<close> use the bit number
  \<^verbatim>\<open>TIF_NEED_RESCHED\<close> itself as the mask.\<close>

definition task_set_resched :: "nat \<Rightarrow> kstate \<Rightarrow> kstate" where
  "task_set_resched t s = upd_task t (\<lambda>x. x\<lparr>ti_flags := ti_flags x OR of_nat TIF_NEED_RESCHED\<rparr>) s"

definition task_clear_resched :: "nat \<Rightarrow> kstate \<Rightarrow> kstate" where
  "task_clear_resched t s = upd_task t (\<lambda>x. x\<lparr>ti_flags := ti_flags x AND NOT (of_nat TIF_NEED_RESCHED)\<rparr>) s"

definition task_need_resched :: "nat \<Rightarrow> kstate \<Rightarrow> u64" where
  "task_need_resched t s = ti_flags (tasks s t) AND of_nat TIF_NEED_RESCHED"

definition task_is_idle :: "task \<Rightarrow> bool" where
  "task_is_idle t \<longleftrightarrow> task_flags t AND TASK_FLAGS_IDLE \<noteq> 0"

definition task_is_running :: "task \<Rightarrow> bool" where
  "task_is_running t \<longleftrightarrow> state t = TASK_STATE_RUNNING"

definition task_need_stop :: "nat \<Rightarrow> kstate \<Rightarrow> kstate" where
  "task_need_stop t s = upd_task t (\<lambda>x. x\<lparr>ti_flags := ti_flags x OR tif_bit TIF_NEED_STOP\<rparr>) s"

definition task_need_freeze :: "nat \<Rightarrow> kstate \<Rightarrow> kstate" where
  "task_need_freeze t s = upd_task t (\<lambda>x. x\<lparr>ti_flags := ti_flags x OR tif_bit TIF_NEED_FREEZE\<rparr>) s"

section \<open>Preemption, interrupts and locks\<close>

definition irq_disabled :: "kstate \<Rightarrow> bool" where
  "irq_disabled s \<longleftrightarrow> irqs_off (get_pcpu s)"

definition set_irqs_off :: "bool \<Rightarrow> kstate \<Rightarrow> kstate" where
  "set_irqs_off b s = upd_pcpu (cpu_id s) (\<lambda>p. p\<lparr>irqs_off := b\<rparr>) s"

definition preempt_allowed :: "kstate \<Rightarrow> bool" where
  "preempt_allowed s \<longleftrightarrow> preempt_count (cur_task s) = 0"

definition sched_allowed :: "kstate \<Rightarrow> bool" where
  "sched_allowed s \<longleftrightarrow> preempt_allowed s \<and> \<not> irq_disabled s"

definition cond_resched :: "(kstate \<Rightarrow> kstate res) \<Rightarrow> kstate \<Rightarrow> kstate res" where
  "cond_resched rs s = (if need_resched s \<and> sched_allowed s then rs s else Inr s)"

definition preempt_disable :: "kstate \<Rightarrow> kstate" where
  "preempt_disable s = upd_task (cur s) (\<lambda>t. t\<lparr>preempt_count := preempt_count t + 1\<rparr>) s"

definition preempt_enable :: "(kstate \<Rightarrow> kstate res) \<Rightarrow> kstate \<Rightarrow> kstate res" where
  "preempt_enable rs s =
     cond_resched rs (upd_task (cur s) (\<lambda>t. t\<lparr>preempt_count := preempt_count t - 1\<rparr>) s)"

definition raw_spin_lock :: "lock \<Rightarrow> kstate \<Rightarrow> kstate res" where
  "raw_spin_lock l s = (if l \<in> locks s then Inl Spinning else Inr (s\<lparr>locks := insert l (locks s)\<rparr>))"

definition raw_spin_unlock :: "lock \<Rightarrow> kstate \<Rightarrow> kstate" where
  "raw_spin_unlock l s = s\<lparr>locks := locks s - {l}\<rparr>"

definition spin_lock :: "lock \<Rightarrow> kstate \<Rightarrow> kstate res" where
  "spin_lock l s = raw_spin_lock l (preempt_disable s)"

definition spin_unlock :: "(kstate \<Rightarrow> kstate res) \<Rightarrow> lock \<Rightarrow> kstate \<Rightarrow> kstate res" where
  "spin_unlock rs l s = preempt_enable rs (raw_spin_unlock l s)"

text \<open>The saved interrupt flags are the first component of the result.\<close>

definition spin_lock_irqsave :: "lock \<Rightarrow> kstate \<Rightarrow> (bool \<times> kstate) res" where
  "spin_lock_irqsave l s =
     (let s = preempt_disable s; flags = irq_disabled s; s = set_irqs_off True s
      in thenR (raw_spin_lock l s) (\<lambda>s. Inr (flags, s)))"

definition spin_trylock_irqsave ::
  "(kstate \<Rightarrow> kstate res) \<Rightarrow> lock \<Rightarrow> kstate \<Rightarrow> (bool option \<times> kstate) res" where
  "spin_trylock_irqsave rs l s =
     (let s = preempt_disable s; flags = irq_disabled s; s = set_irqs_off True s
      in if l \<in> locks s
         then thenR (preempt_enable rs (set_irqs_off flags s)) (\<lambda>s. Inr (None, s))
         else Inr (Some flags, s\<lparr>locks := insert l (locks s)\<rparr>))"

definition spin_unlock_irqrestore ::
  "(kstate \<Rightarrow> kstate res) \<Rightarrow> lock \<Rightarrow> bool \<Rightarrow> kstate \<Rightarrow> kstate res" where
  "spin_unlock_irqrestore rs l flags s = preempt_enable rs (set_irqs_off flags (raw_spin_unlock l s))"

section \<open>Lists of tasks\<close>

text \<open>\<^verbatim>\<open>list_insert_before\<close>: the entry goes in front of \<open>x\<close> on the list that \<open>x\<close> is on.\<close>

fun insert_before :: "'a \<Rightarrow> 'a \<Rightarrow> 'a list \<Rightarrow> 'a list" where
  "insert_before x new [] = []"
| "insert_before x new (y # ys) = (if y = x then new # y # ys else y # insert_before x new ys)"

definition map_state_lists :: "(nat list \<Rightarrow> nat list) \<Rightarrow> pcpu \<Rightarrow> pcpu" where
  "map_state_lists f p =
     p\<lparr>ready_list := map f (ready_list p), new_list := f (new_list p), stop_list := f (stop_list p)\<rparr>"

definition set_state_linked :: "bool \<Rightarrow> nat \<Rightarrow> kstate \<Rightarrow> kstate" where
  "set_state_linked b t s = upd_task t (\<lambda>x. x\<lparr>state_linked := b\<rparr>) s"

text \<open>\<^verbatim>\<open>list_del(&task->state_list)\<close> for a task on one of the lists of CPU \<open>c\<close>.\<close>

definition list_del_state :: "nat \<Rightarrow> nat \<Rightarrow> kstate \<Rightarrow> kstate" where
  "list_del_state c t s = set_state_linked False t (upd_pcpu c (map_state_lists (remove1 t)) s)"

definition list_add_tail_ready :: "nat \<Rightarrow> nat \<Rightarrow> nat \<Rightarrow> kstate \<Rightarrow> kstate" where
  "list_add_tail_ready c p t s =
     set_state_linked True t (upd_pcpu c (\<lambda>x. x\<lparr>ready_list := (ready_list x)[p := ready_list x ! p @ [t]]\<rparr>) s)"

definition list_add_tail_new :: "nat \<Rightarrow> nat \<Rightarrow> kstate \<Rightarrow> kstate" where
  "list_add_tail_new c t s =
     set_state_linked True t (upd_pcpu c (\<lambda>x. x\<lparr>new_list := new_list x @ [t]\<rparr>) s)"

definition list_add_tail_stop :: "nat \<Rightarrow> nat \<Rightarrow> kstate \<Rightarrow> kstate" where
  "list_add_tail_stop c t s =
     set_state_linked True t (upd_pcpu c (\<lambda>x. x\<lparr>stop_list := stop_list x @ [t]\<rparr>) s)"

definition list_insert_before_state :: "nat \<Rightarrow> nat \<Rightarrow> nat \<Rightarrow> kstate \<Rightarrow> kstate res" where
  "list_insert_before_state c at t s =
     (if state_linked (tasks s at)
      then Inr (set_state_linked True t (upd_pcpu c (map_state_lists (insert_before at t)) s))
      else Inl Null_Deref)"

section \<open>Reading the flag bits\<close>

lemma tif_bits:
  "n < 64 \<Longrightarrow> bit (w OR tif_bit n) m \<longleftrightarrow> bit w m \<or> m = n"
  "bit (w AND NOT (tif_bit n)) m \<longleftrightarrow> bit w m \<and> m \<noteq> n"
  by (auto simp: tif_bit_def bit_simps dest: bit_u64_less)

lemma and_tif_bit:
  assumes "n < 64"
  shows "w AND tif_bit n = 0 \<longleftrightarrow> \<not> bit w n"
proof -
  have "w AND tif_bit n = 0 \<longleftrightarrow> (\<forall>m. \<not> (bit w m \<and> m = n))"
    using assms unfolding bit_eq_iff [of "w AND tif_bit n" 0] by (auto simp: tif_bit_def bit_simps)
  then show ?thesis by blast
qed

lemma need_resched_bit: "need_resched s \<longleftrightarrow> bit (ti_flags (cur_task s)) TIF_NEED_RESCHED"
  by (simp add: need_resched_def and_tif_bit)

end
