(* ===== verification/Sched.thy ===== *)
theory Sched
  imports Kernel
begin

text \<open>
  The scheduler: \<^verbatim>\<open>core/sched.c\<close>, with \<^verbatim>\<open>flag_post\<close> of \<^verbatim>\<open>core/flag.c\<close> because \<^verbatim>\<open>pick_next_task\<close> posts
  the kworker flag. An operation that calls \<^verbatim>\<open>preempt_enable\<close> takes the rescheduling function \<open>rs\<close>;
  inside an exception interrupts are off and it is never called (\<open>no_resched\<close>). A context switch ends
  the model's step: what the old task executes when it is resumed is the next step of that
  task. Register contexts, the switch hooks and memory barriers are not part of the state.
\<close>

unbundle bit_operations_syntax

section \<open>Ready lists\<close>

definition sched_update_sched_timer :: "kstate \<Rightarrow> kstate res" where
  "sched_update_sched_timer s =
     (if tasks_in_prio (get_pcpu s) ! prio (cur_task s) > 1
      then setup_and_start_timer (cpu_id s) (Sched_timer (cpu_id s)) (MILLISECS (run_time (cur_task s))) s
      else stop_timer (Sched_timer (cpu_id s)) s)"

definition add_task_to_ready_list :: "nat \<Rightarrow> nat \<Rightarrow> bool \<Rightarrow> kstate \<Rightarrow> kstate res" where
  "add_task_to_ready_list c t preempt s =
     (if state_linked (tasks s t) then Inl Assert_Failed
      else
        (let p = prio (tasks s t);
             s = upd_pcpu c (\<lambda>x. x\<lparr>tasks_in_prio := (tasks_in_prio x)[p := tasks_in_prio x ! p + 1]\<rparr>) s
         in thenR
              (if prio (cur_task s) = p then
                 thenR (list_insert_before_state c (cur s) t s)
                   (\<lambda>s. if tasks_in_prio (pcpus s c) ! p = 2 then sched_update_sched_timer s else Inr s)
               else Inr (list_add_tail_ready c p t s))
              (\<lambda>s. let s = upd_pcpu c (\<lambda>x. x\<lparr>local_rdy_grp := local_rdy_grp x OR push_bit p 1\<rparr>) s
                    in Inr (if preempt \<or> prio (cur_task s) > p then set_need_resched s else s))))"

definition remove_task_from_ready_list :: "nat \<Rightarrow> nat \<Rightarrow> kstate \<Rightarrow> kstate res" where
  "remove_task_from_ready_list c t s =
     (if \<not> state_linked (tasks s t) then Inl Assert_Failed
      else
        (let p = prio (tasks s t);
             s = list_del_state c t s;
             s = (if ready_list (pcpus s c) ! p = []
                  then upd_pcpu c (\<lambda>x. x\<lparr>local_rdy_grp := local_rdy_grp x AND NOT (push_bit p 1)\<rparr>) s else s);
             s = upd_pcpu c (\<lambda>x. x\<lparr>tasks_in_prio := (tasks_in_prio x)[p := tasks_in_prio x ! p - 1]\<rparr>) s
         in if prio (cur_task s) = p \<and> tasks_in_prio (pcpus s c) ! p = 1
            then sched_update_sched_timer s else Inr s))"

definition send_sgi :: "sgi \<Rightarrow> nat \<Rightarrow> kstate \<Rightarrow> kstate" where
  "send_sgi i c s = (if c \<ge> NR_CPUS then s else s\<lparr>sgis := sgis s @ [(i, c)]\<rparr>)"

definition pcpu_resched :: "nat \<Rightarrow> kstate \<Rightarrow> kstate" where
  "pcpu_resched c s = send_sgi RESCHED_IRQ c s"

definition pcpu_irqwork :: "nat \<Rightarrow> kstate \<Rightarrow> kstate" where
  "pcpu_irqwork c s = send_sgi IRQWORK_IRQ c s"

definition select_task_run_cpu :: int where
  "select_task_run_cpu = int NR_CPUS - 1"

definition percpu_task_ready :: "nat \<Rightarrow> nat \<Rightarrow> bool \<Rightarrow> kstate \<Rightarrow> kstate res" where
  "percpu_task_ready c t preempt s =
     (let flags = irq_disabled s
      in thenR (add_task_to_ready_list c t preempt (set_irqs_off True s)) (\<lambda>s. Inr (set_irqs_off flags s)))"

definition smp_percpu_task_ready ::
  "(kstate \<Rightarrow> kstate res) \<Rightarrow> nat \<Rightarrow> nat \<Rightarrow> bool \<Rightarrow> kstate \<Rightarrow> kstate res" where
  "smp_percpu_task_ready rs c t preempt s =
     (let s = (if preempt then task_set_resched t s else s)
      in if state_linked (tasks s t) then Inl Assert_Failed
         else thenR (spin_lock_irqsave (Pcpu_lock c) s)
                (\<lambda>(flags, s). thenR (spin_unlock_irqrestore rs (Pcpu_lock c) flags (list_add_tail_new c t s))
                   (\<lambda>s. Inr (pcpu_irqwork c s))))"

definition task_ready :: "(kstate \<Rightarrow> kstate res) \<Rightarrow> nat \<Rightarrow> bool \<Rightarrow> kstate \<Rightarrow> kstate res" where
  "task_ready rs t preempt s =
     (let s = preempt_disable s;
          s = upd_task t (\<lambda>x. x\<lparr>cpu := affinity x\<rparr>) s;
          s = (if cpu (tasks s t) = - 1 then upd_task t (\<lambda>x. x\<lparr>cpu := select_task_run_cpu\<rparr>) s else s);
          tc = nat (cpu (tasks s t))
      in thenR (if int (pcpu_id (get_pcpu s)) \<noteq> cpu (tasks s t)
                then smp_percpu_task_ready rs tc t preempt s
                else percpu_task_ready (cpu_id s) t preempt s)
           (preempt_enable rs))"

section \<open>Wake up\<close>

text \<open>The message of a wake-up: \<^verbatim>\<open>flags_rdy\<close> for a flag event, \<^verbatim>\<open>msg\<close> for every other one.\<close>

definition deliver :: "event_type \<Rightarrow> u64 \<Rightarrow> task \<Rightarrow> task" where
  "deliver ev d x =
     (if ev = OS_EVENT_TYPE_FLAG then x\<lparr>flags_rdy := ucast d, msg := 0\<rparr>
      else x\<lparr>msg := d, flags_rdy := 0\<rparr>)"

definition wake_up_interrupted ::
  "(kstate \<Rightarrow> kstate res) \<Rightarrow> nat \<Rightarrow> pend_state \<Rightarrow> event_type \<Rightarrow> u64 \<Rightarrow> kstate \<Rightarrow> (int \<times> kstate) res" where
  "wake_up_interrupted rs t ps ev d s =
     (if ps = TASK_STATE_PEND_TO then Inl Assert_Failed
      else if state (tasks s t) \<noteq> TASK_STATE_WAIT_EVENT then Inr (- EACCES, s)
      else if \<not> irq_disabled s then Inl Panicked
      else
        thenR (spin_trylock_irqsave rs (Task_lock t) s)
          (\<lambda>(fl, s). case fl of
             None \<Rightarrow> Inr (- EBUSY, s)
           | Some flags \<Rightarrow>
               if state (tasks s t) \<noteq> TASK_STATE_WAIT_EVENT then
                 thenR (spin_unlock_irqrestore rs (Task_lock t) flags s) (\<lambda>s. Inr (- EINVAL, s))
               else
                 (let s = upd_task t (\<lambda>x. x\<lparr>ti_flags := ti_flags x OR tif_bit TIF_WAIT_INTERRUPTED\<rparr>) s;
                      s = upd_task t (\<lambda>x. x\<lparr>ti_flags := ti_flags x AND NOT (tif_bit TIF_DONOT_PREEMPT)\<rparr>) s;
                      s = upd_task t (\<lambda>x. deliver ev d
                            (x\<lparr>pend_state := ps, state := TASK_STATE_RUNNING, delay := 0\<rparr>)) s
                  in thenR (spin_unlock_irqrestore rs (Task_lock t) flags s) (\<lambda>s. Inr (0, s)))))"

definition wake_up_common ::
  "(kstate \<Rightarrow> kstate res) \<Rightarrow> nat \<Rightarrow> pend_state \<Rightarrow> event_type \<Rightarrow> u64 \<Rightarrow> kstate \<Rightarrow> (int \<times> kstate) res" where
  "wake_up_common rs t ps ev d s =
     thenR (spin_lock_irqsave (Task_lock t) (preempt_disable s))
       (\<lambda>(flags, s).
          if state (tasks s t) \<noteq> TASK_STATE_WAIT_EVENT then
            thenR (spin_unlock_irqrestore rs (Task_lock t) flags s)
              (\<lambda>s. thenR (preempt_enable rs s) (\<lambda>s. Inr (- EPERM, s)))
          else if cpu (tasks s t) \<noteq> - 1 then Inl Spinning
          else
            (let timeout = delay (tasks s t);
                 s = upd_task t (\<lambda>x. deliver ev d
                       (x\<lparr>pend_state := ps, state := TASK_STATE_WAKING, delay := 0\<rparr>)) s
             in thenR (spin_unlock_irqrestore rs (Task_lock t) flags s)
                  (\<lambda>s. thenR (if timeout \<noteq> 0 \<and> pend_state (tasks s t) \<noteq> TASK_STATE_PEND_TO
                               then stop_timer (Delay_timer t) s else Inr s)
                     (\<lambda>s. thenR (task_ready rs t True s)
                        (\<lambda>s. thenR (preempt_enable rs s) (\<lambda>s. Inr (0, s)))))))"

definition wake_up_gen ::
  "(kstate \<Rightarrow> kstate res) \<Rightarrow> nat \<Rightarrow> pend_state \<Rightarrow> event_type \<Rightarrow> u64 \<Rightarrow> kstate \<Rightarrow> (int \<times> kstate) res" where
  "wake_up_gen rs t ps ev d s =
     (if t = cur s then wake_up_interrupted rs t ps ev d s else wake_up_common rs t ps ev d s)"

definition wake_up :: "(kstate \<Rightarrow> kstate res) \<Rightarrow> nat \<Rightarrow> kstate \<Rightarrow> (int \<times> kstate) res" where
  "wake_up rs t s = wake_up_gen rs t TASK_STATE_PEND_OK OS_EVENT_TYPE_UNKNOWN 0 s"

definition wake_up_timeout :: "(kstate \<Rightarrow> kstate res) \<Rightarrow> nat \<Rightarrow> kstate \<Rightarrow> (int \<times> kstate) res" where
  "wake_up_timeout rs t s = wake_up_gen rs t TASK_STATE_PEND_TO OS_EVENT_TYPE_UNKNOWN 0 s"

definition wake_up_abort :: "(kstate \<Rightarrow> kstate res) \<Rightarrow> nat \<Rightarrow> kstate \<Rightarrow> (int \<times> kstate) res" where
  "wake_up_abort rs t s = wake_up_gen rs t TASK_STATE_PEND_ABORT OS_EVENT_TYPE_UNKNOWN 0 s"

section \<open>Posting a flag\<close>

abbreviation (input) FLAG_WAIT_CLR_ALL :: nat where "FLAG_WAIT_CLR_ALL \<equiv> 0"
abbreviation (input) FLAG_WAIT_CLR_ANY :: nat where "FLAG_WAIT_CLR_ANY \<equiv> 1"
abbreviation (input) FLAG_WAIT_SET_ALL :: nat where "FLAG_WAIT_SET_ALL \<equiv> 2"
abbreviation (input) FLAG_WAIT_SET_ANY :: nat where "FLAG_WAIT_SET_ANY \<equiv> 3"
abbreviation (input) FLAG_CONSUME :: nat where "FLAG_CONSUME \<equiv> 0x80"
abbreviation (input) FLAG_CLR :: nat where "FLAG_CLR \<equiv> 0"
abbreviation (input) FLAG_SET :: nat where "FLAG_SET \<equiv> 1"
abbreviation (input) KWORKER_TASK_RECYCLE :: u32 where "KWORKER_TASK_RECYCLE \<equiv> 1"

definition flag_task_ready :: "(kstate \<Rightarrow> kstate res) \<Rightarrow> flag_node \<Rightarrow> u32 \<Rightarrow> kstate \<Rightarrow> kstate res" where
  "flag_task_ready rs node flags s =
     thenR (wake_up_gen rs (node_task node) TASK_STATE_PEND_OK OS_EVENT_TYPE_FLAG (ucast flags) s)
       (\<lambda>(ret, s). Inr s)"

text \<open>The loop of \<^verbatim>\<open>flag_post\<close> over the waiting nodes; \<open>True\<close> is the early \<^verbatim>\<open>return 0\<close> of the
  \<^verbatim>\<open>default\<close> label, into which \<^verbatim>\<open>FLAG_WAIT_CLR_ANY\<close> falls through.\<close>

fun flag_post_nodes ::
  "(kstate \<Rightarrow> kstate res) \<Rightarrow> flag_id \<Rightarrow> flag_node list \<Rightarrow> kstate \<Rightarrow> (bool \<times> kstate) res" where
  "flag_post_nodes rs g [] s = Inr (False, s)"
| "flag_post_nodes rs g (n # ns) s =
     (let fl = grp_flags (flag_grps s g) in
      if node_wait_type n = FLAG_WAIT_SET_ALL then
        (if fl AND node_flags n = node_flags n
         then thenR (flag_task_ready rs n (fl AND node_flags n) s) (flag_post_nodes rs g ns)
         else flag_post_nodes rs g ns s)
      else if node_wait_type n = FLAG_WAIT_SET_ANY then
        (if fl AND node_flags n \<noteq> 0
         then thenR (flag_task_ready rs n (fl AND node_flags n) s) (flag_post_nodes rs g ns)
         else flag_post_nodes rs g ns s)
      else if node_wait_type n = FLAG_WAIT_CLR_ALL then
        (if NOT fl AND node_flags n = node_flags n
         then thenR (flag_task_ready rs n (NOT fl AND node_flags n) s) (flag_post_nodes rs g ns)
         else flag_post_nodes rs g ns s)
      else if node_wait_type n = FLAG_WAIT_CLR_ANY then
        (if NOT fl AND node_flags n \<noteq> 0
         then thenR (flag_task_ready rs n (NOT fl AND node_flags n) s) (\<lambda>s. Inr (True, s))
         else Inr (True, s))
      else Inr (True, s))"

definition flag_post ::
  "(kstate \<Rightarrow> kstate res) \<Rightarrow> flag_id \<Rightarrow> u32 \<Rightarrow> nat \<Rightarrow> kstate \<Rightarrow> (u32 \<times> kstate) res" where
  "flag_post rs g flags opt s =
     (if opt > FLAG_SET then Inr (- of_int EINVAL, s)
      else
        thenR (spin_lock_irqsave (Flag_lock g) s)
          (\<lambda>(irq, s).
             let s = (if opt = FLAG_CLR then upd_flag g (\<lambda>x. x\<lparr>grp_flags := grp_flags x AND NOT flags\<rparr>) s
                      else upd_flag g (\<lambda>x. x\<lparr>grp_flags := grp_flags x OR flags\<rparr>) s)
             in thenR (flag_post_nodes rs g (grp_wait_list (flag_grps s g)) s)
                  (\<lambda>(early, s).
                     let me = cur s in
                     thenR (spin_unlock_irqrestore rs (Flag_lock g) irq s)
                       (\<lambda>s'. if early then Inr (0, s')
                              else thenR (if cur s' = me then cond_resched rs s' else Inr s')
                                     (\<lambda>s'. Inr (grp_flags (flag_grps s' g), s'))))))"

section \<open>Picking and switching\<close>

text \<open>Inside an exception interrupts are off, so \<^verbatim>\<open>cond_resched\<close> does nothing there.\<close>

definition no_resched :: "kstate \<Rightarrow> kstate res" where
  "no_resched s = Inl Panicked"

definition pick_next_task :: "nat \<Rightarrow> kstate \<Rightarrow> (nat \<times> kstate) res" where
  "pick_next_task c s =
     (let t = cur s in
      if state (tasks s t) = TASK_STATE_READY then Inl Assert_Failed
      else
        thenR (if \<not> task_is_running (tasks s t) then
                 thenR (remove_task_from_ready_list c t s)
                   (\<lambda>s. if state (tasks s t) = TASK_STATE_STOP then
                           thenR (flag_post no_resched (Kworker_flag c) KWORKER_TASK_RECYCLE FLAG_SET
                                    (list_add_tail_stop c t s))
                             (\<lambda>(r, s). Inr s)
                         else Inr s)
               else Inr s)
          (\<lambda>s. let p = ffs_one_table ! unat (local_rdy_grp (pcpus s c)) in
                if p = - 1 then Inl Assert_Failed
                else case ready_list (pcpus s c) ! nat p of
                       [] \<Rightarrow> Inl Assert_Failed
                     | next # _ \<Rightarrow>
                         Inr (next, list_add_tail_ready c (nat p) next (list_del_state c next s))))"

definition switch_to_task :: "nat \<Rightarrow> nat \<Rightarrow> kstate \<Rightarrow> kstate res" where
  "switch_to_task old next s =
     (let now = clock s in
      thenR (if state (tasks s old) = TASK_STATE_WAIT_EVENT \<and> delay (tasks s old) > 0
             then setup_and_start_timer (cpu_id s) (Delay_timer old) (MILLISECS (ucast (delay (tasks s old)))) s
             else if state (tasks s old) = TASK_STATE_RUNNING
             then Inr (upd_task old (\<lambda>x. x\<lparr>state := TASK_STATE_READY\<rparr>) s)
             else Inr s)
        (\<lambda>s. let s = upd_task old (\<lambda>x. x\<lparr>last_cpu := cpu x, run_time := TASK_RUN_TIME, cpu := - 1\<rparr>) s;
                 s = upd_task next (\<lambda>x. x\<lparr>state := TASK_STATE_RUNNING,
                        ti_flags := ti_flags x AND NOT (tif_bit TIF_TICK_EXHAUST),
                        cpu := int (pcpu_id (get_pcpu s))\<rparr>) s;
                 s = upd_pcpu (cpu_id s) (\<lambda>x. x\<lparr>running_task := next\<rparr>) s;
                 s = upd_task next (\<lambda>x. x\<lparr>ctx_sw_cnt := ctx_sw_cnt x + 1, wait_event := 0, start_ns := now\<rparr>) s
             in Inr s))"

definition sched_tick_handler :: "kstate \<Rightarrow> kstate" where
  "sched_tick_handler s =
     set_need_resched (upd_task (cur s) (\<lambda>t. t\<lparr>ti_flags := ti_flags t OR tif_bit TIF_TICK_EXHAUST\<rparr>) s)"

definition exception_return_inner :: "kstate \<Rightarrow> (int \<times> kstate) res" where
  "exception_return_inner s =
     (let task = cur s; ti = tasks s task;
          run_again = (\<lambda>s. let ex = ti_flags (tasks s task) AND tif_bit TIF_TICK_EXHAUST \<noteq> 0;
                               s = upd_task task (\<lambda>t. t\<lparr>ti_flags := ti_flags t AND NOT (tif_bit TIF_TICK_EXHAUST)\<rparr>) s
                           in Inr (if ex then - EAGAIN else - EACCES, s))
      in if ti_flags ti AND tif_bit TIF_NEED_RESCHED = 0 \<or> preempt_count ti > 0 \<or>
            ti_flags ti AND tif_bit TIF_DONOT_PREEMPT \<noteq> 0
         then run_again s
         else thenR (pick_next_task (cpu_id s) (clear_need_resched s))
                (\<lambda>(next, s). if next = task then run_again s
                              else thenR (switch_to_task task next s) (\<lambda>s. Inr (0, s))))"

definition exception_return_handler :: "kstate \<Rightarrow> kstate res" where
  "exception_return_handler s =
     thenR (exception_return_inner s)
       (\<lambda>(ret, s). if ret = 0 \<or> ret = - EAGAIN then sched_update_sched_timer s else Inr s)"

text \<open>
  \<^verbatim>\<open>arch_sys_sched\<close>, a supervisor call: the exception masks interrupts and saves the mask,
  \<^verbatim>\<open>exception_return\<close> runs the handler and returns to the (new) current task with that task's mask.
\<close>

definition arch_sys_sched :: "kstate \<Rightarrow> kstate res" where
  "arch_sys_sched s =
     (let s = upd_task (cur s) (\<lambda>x. x\<lparr>saved_irqs_off := irq_disabled s\<rparr>) s
      in thenR (exception_return_handler (set_irqs_off True s))
           (\<lambda>s. Inr (set_irqs_off (saved_irqs_off (cur_task s)) s)))"

definition sys_sched :: "kstate \<Rightarrow> kstate res" where
  "sys_sched s =
     (if in_interrupt s \<or> (irq_disabled s \<and> \<not> preempt_allowed s) then Inl Panicked else arch_sys_sched s)"

text \<open>The loop of \<^verbatim>\<open>sched\<close> is left after a switch, or when the current task was picked again and its
  \<^verbatim>\<open>NEED_RESCHED\<close> flag is clear; otherwise it repeats the same call (see \<open>sched_stuck\<close>).\<close>

definition sched :: "kstate \<Rightarrow> kstate res" where
  "sched s =
     (let me = cur s in
      thenR (sys_sched (clear_do_not_preempt (set_need_resched s)))
        (\<lambda>s. if cur s = me \<and> need_resched s then Inl Spinning else Inr s))"

definition task_sleep :: "u32 \<Rightarrow> kstate \<Rightarrow> kstate res" where
  "task_sleep d s =
     sched (upd_task (cur s) (\<lambda>x. x\<lparr>delay := d, state := TASK_STATE_WAIT_EVENT, wait_type := OS_EVENT_TYPE_TIMER\<rparr>)
       (do_not_preempt s))"

definition task_suspend :: "kstate \<Rightarrow> kstate res" where
  "task_suspend s =
     sched (upd_task (cur s) (\<lambda>x. x\<lparr>delay := 0, state := TASK_STATE_SUSPEND, wait_type := OS_EVENT_TYPE_UNKNOWN\<rparr>)
       (do_not_preempt s))"

definition task_exit :: "kstate \<Rightarrow> kstate res" where
  "task_exit s = sched (upd_task (cur s) (\<lambda>x. x\<lparr>state := TASK_STATE_STOP, delay := 0\<rparr>) s)"

definition irq_enter :: "kstate \<Rightarrow> kstate" where
  "irq_enter s = upd_task (cur s) (\<lambda>t. t\<lparr>ti_flags := ti_flags t OR tif_bit TIF_HARDIRQ_MASK\<rparr>) s"

definition irq_exit :: "kstate \<Rightarrow> kstate" where
  "irq_exit s = upd_task (cur s) (\<lambda>t. t\<lparr>ti_flags := ti_flags t AND NOT (tif_bit TIF_HARDIRQ_MASK)\<rparr>) s"

section \<open>Inter-processor work\<close>

definition irqwork_task :: "nat \<Rightarrow> nat \<Rightarrow> kstate \<Rightarrow> (u64 \<times> kstate) res" where
  "irqwork_task c t s =
     (let s = list_del_state c t s in
      if state (tasks s t) = TASK_STATE_RUNNING then Inr (0, s)
      else
        (let need_preempt = task_need_resched t s; s = task_clear_resched t s
         in thenR (add_task_to_ready_list c t (need_preempt \<noteq> 0) s)
              (\<lambda>s. let s = upd_task t (\<lambda>x. x\<lparr>state := TASK_STATE_READY\<rparr>) s in
                    if delay (tasks s t) \<noteq> 0 then
                      thenR (stop_timer (Delay_timer t) s)
                        (\<lambda>s. Inr (need_preempt, upd_task t (\<lambda>x. x\<lparr>delay := 0\<rparr>) s))
                    else Inr (need_preempt, s))))"

fun irqwork_tasks :: "nat \<Rightarrow> nat list \<Rightarrow> u64 \<Rightarrow> kstate \<Rightarrow> (u64 \<times> kstate) res" where
  "irqwork_tasks c [] preempt s = Inr (preempt, s)"
| "irqwork_tasks c (t # ts) preempt s =
     thenR (irqwork_task c t s) (\<lambda>(need, s). irqwork_tasks c ts (preempt + need) s)"

definition irqwork_handler :: "kstate \<Rightarrow> kstate res" where
  "irqwork_handler s =
     (let c = cpu_id s in
      thenR (raw_spin_lock (Pcpu_lock c) s)
        (\<lambda>s. thenR (irqwork_tasks c (new_list (pcpus s c)) 0 s)
           (\<lambda>(preempt, s).
              let s = raw_spin_unlock (Pcpu_lock c) s
              in Inr (if preempt \<noteq> 0 \<or> task_is_idle (cur_task s) then set_need_resched s else s))))"

definition resched_handler :: "kstate \<Rightarrow> kstate" where
  "resched_handler s = set_need_resched s"

section \<open>Initialisation\<close>

definition pcpu_sched_init :: "pcpu \<Rightarrow> pcpu" where
  "pcpu_sched_init p = p\<lparr>new_list := [], stop_list := [], ready_list := replicate OS_PRIO_MAX []\<rparr>"

definition sched_init :: "kstate \<Rightarrow> kstate" where
  "sched_init s = s\<lparr>pcpus := (\<lambda>c. if c < NR_CPUS then pcpu_sched_init (pcpus s c) else pcpus s c)\<rparr>"

end
