(* ===== verification/Sched_Inv.thy ===== *)
theory Sched_Inv
  imports Sched
begin

text \<open>
  The ready-list invariant of the scheduler and its preservation by every operation of \<^verbatim>\<open>core/sched.c\<close>;
  the scheduling policy (highest priority first, round robin within a priority).
\<close>

unbundle bit_operations_syntax

section \<open>Frames\<close>

lemma upd_task_frame [simp]:
  "tasks (upd_task t f s) u = (if u = t then f (tasks s t) else tasks s u)"
  "pcpus (upd_task t f s) = pcpus s" "cpu_id (upd_task t f s) = cpu_id s"
  "events (upd_task t f s) = events s" "flag_grps (upd_task t f s) = flag_grps s"
  "locks (upd_task t f s) = locks s" "clock (upd_task t f s) = clock s"
  "tmr (upd_task t f s) = tmr s" "raws (upd_task t f s) = raws s" "sgis (upd_task t f s) = sgis s"
  by (simp_all add: upd_task_def)

lemma upd_pcpu_frame [simp]:
  "pcpus (upd_pcpu c f s) d = (if d = c then f (pcpus s c) else pcpus s d)"
  "tasks (upd_pcpu c f s) = tasks s" "cpu_id (upd_pcpu c f s) = cpu_id s"
  "events (upd_pcpu c f s) = events s" "flag_grps (upd_pcpu c f s) = flag_grps s"
  "locks (upd_pcpu c f s) = locks s" "clock (upd_pcpu c f s) = clock s"
  "tmr (upd_pcpu c f s) = tmr s" "raws (upd_pcpu c f s) = raws s" "sgis (upd_pcpu c f s) = sgis s"
  by (simp_all add: upd_pcpu_def)

lemma upd_flag_frame [simp]:
  "flag_grps (upd_flag g f s) h = (if h = g then f (flag_grps s g) else flag_grps s h)"
  "tasks (upd_flag g f s) = tasks s" "cpu_id (upd_flag g f s) = cpu_id s" "pcpus (upd_flag g f s) = pcpus s"
  "events (upd_flag g f s) = events s" "locks (upd_flag g f s) = locks s"
  by (simp_all add: upd_flag_def)

lemma upd_event_frame [simp]:
  "events (upd_event g f s) h = (if h = g then f (events s g) else events s h)"
  "tasks (upd_event g f s) = tasks s" "cpu_id (upd_event g f s) = cpu_id s" "pcpus (upd_event g f s) = pcpus s"
  "flag_grps (upd_event g f s) = flag_grps s" "locks (upd_event g f s) = locks s"
  by (simp_all add: upd_event_def)

lemma cur_upd [simp]:
  "cur (upd_task t f s) = cur s" "cur (upd_flag g h s) = cur s" "cur (upd_event e k s) = cur s"
  by (simp_all add: cur_def)

text \<open>Timer operations on the kernel state change timers only.\<close>

definition same_kernel :: "kstate \<Rightarrow> kstate \<Rightarrow> bool" where
  "same_kernel s s' \<longleftrightarrow> tasks s' = tasks s \<and> pcpus s' = pcpus s \<and> cpu_id s' = cpu_id s \<and>
     events s' = events s \<and> flag_grps s' = flag_grps s \<and> locks s' = locks s \<and> sgis s' = sgis s \<and>
     tid_map s' = tid_map s \<and> os_task_table s' = os_task_table s"

lemma same_kernel_refl [simp]: "same_kernel s s"
  by (simp add: same_kernel_def)

lemma same_kernel_trans: "same_kernel s s' \<Longrightarrow> same_kernel s' s'' \<Longrightarrow> same_kernel s s''"
  by (simp add: same_kernel_def)

lemma same_kernel_upd [simp]:
  "same_kernel s (upd_timer i f s') = same_kernel s s'" "same_kernel s (upd_raw c g s') = same_kernel s s'"
  "same_kernel s (list_del_entry i s') = same_kernel s s'"
  by (simp_all add: same_kernel_def upd_timer_def upd_raw_def list_del_entry_def)

lemma same_kernel_tmr [simp]:
  "same_kernel s (detach_timer i s') = same_kernel s s'" "same_kernel s (enable_timer c e s') = same_kernel s s'"
  "same_kernel s (set_expiry i v s') = same_kernel s s'"
  by (simp_all add: detach_timer_def enable_timer_def set_expiry_def)

lemma same_kernel_relink [simp]: "same_kernel s (relink c i s') = same_kernel s s'"
  by (simp add: relink_def)

lemma same_kernel_start: "setup_and_start_timer c i v s = Inr s' \<Longrightarrow> same_kernel s s'"
  by (auto simp: setup_and_start_timer_eq mod_timer_inner_relink split: if_splits)

lemma same_kernel_stop: "stop_timer i s = Inr s' \<Longrightarrow> same_kernel s s'"
  by (auto simp: stop_timer_def Let_def split: if_splits option.splits)

lemma same_kernel_sched_timer: "sched_update_sched_timer s = Inr s' \<Longrightarrow> same_kernel s s'"
  by (auto simp: sched_update_sched_timer_def dest: same_kernel_start same_kernel_stop split: if_splits)

section \<open>Lists\<close>

lemma set_insert_before: "set (insert_before x new ys) = (if x \<in> set ys then insert new (set ys) else set ys)"
  by (induction ys) auto

lemma insert_before_notin [simp]: "x \<notin> set ys \<Longrightarrow> insert_before x new ys = ys"
  by (induction ys) auto

lemma length_insert_before: "length (insert_before x new ys) = (if x \<in> set ys then Suc (length ys) else length ys)"
  by (induction ys) auto

lemma distinct_insert_before: "distinct ys \<Longrightarrow> new \<notin> set ys \<Longrightarrow> distinct (insert_before x new ys)"
  by (induction ys) (auto simp: set_insert_before)

lemma nth_subset_concat: "i < length xss \<Longrightarrow> set (xss ! i) \<subseteq> set (concat xss)"
  using nth_mem by fastforce

lemma distinct_concat_disjoint:
  "distinct (concat xss) \<Longrightarrow> i < length xss \<Longrightarrow> j < length xss \<Longrightarrow> i \<noteq> j \<Longrightarrow> set (xss ! i) \<inter> set (xss ! j) = {}"
proof (induction xss arbitrary: i j)
  case (Cons xs xss)
  have sub: "set (xss ! k) \<inter> set xs = {}" if "k < length xss" for k
    using Cons.prems(1) nth_subset_concat [OF that] by auto
  from Cons show ?case using sub by (cases i; cases j) auto
qed simp

lemma set_concat_update:
  "i < length xss \<Longrightarrow> distinct (concat xss) \<Longrightarrow>
     set (concat (xss[i := ys])) = (set (concat xss) - set (xss ! i)) \<union> set ys"
proof (induction xss arbitrary: i)
  case (Cons xs xss)
  show ?case
  proof (cases i)
    case 0
    with Cons.prems show ?thesis by auto
  next
    case (Suc k)
    then have k: "k < length xss" using Cons.prems by simp
    with Cons Suc have "set (concat (xss[k := ys])) = (set (concat xss) - set (xss ! k)) \<union> set ys" by simp
    moreover have "set (xss ! k) \<inter> set xs = {}"
      using Cons.prems(2) nth_subset_concat [OF k] by auto
    ultimately show ?thesis using Suc by auto
  qed
qed simp

lemma distinct_concat_update:
  "i < length xss \<Longrightarrow> distinct (concat xss) \<Longrightarrow> distinct ys \<Longrightarrow>
     set ys \<inter> (set (concat xss) - set (xss ! i)) = {} \<Longrightarrow> distinct (concat (xss[i := ys]))"
proof (induction xss arbitrary: i)
  case (Cons xs xss)
  show ?case
  proof (cases i)
    case 0
    with Cons.prems show ?thesis by auto
  next
    case (Suc k)
    then have k: "k < length xss" using Cons.prems by simp
    have d: "set (xss ! k) \<inter> set xs = {}" using Cons.prems(2) nth_subset_concat [OF k] by auto
    have d2: "distinct (concat xss)" "distinct xs" "set xs \<inter> set (concat xss) = {}"
      using Cons.prems(2) by auto
    have ys: "set ys \<inter> (set (concat xss) - set (xss ! k)) = {}" "set ys \<inter> set xs = {}"
      using Cons.prems(4) Suc d by auto
    have "distinct (concat (xss[k := ys]))" using Cons.IH [OF k d2(1) Cons.prems(3) ys(1)] .
    moreover have "set xs \<inter> set (concat (xss[k := ys])) = {}"
      unfolding set_concat_update [OF k d2(1)] using d2(3) ys(2) by blast
    ultimately show ?thesis using Suc d2(2) by (simp del: set_concat)
  qed
qed simp

section \<open>The invariant\<close>

definition home_cpu :: "task \<Rightarrow> nat" where
  "home_cpu x = (if affinity x = - 1 then NR_CPUS - 1 else nat (affinity x))"

definition task_ok :: "task \<Rightarrow> bool" where
  "task_ok x \<longleftrightarrow> prio x < OS_PRIO_MAX \<and> (affinity x = - 1 \<or> 0 \<le> affinity x \<and> affinity x < int NR_CPUS)"

definition state_tasks :: "pcpu \<Rightarrow> nat list" where
  "state_tasks p = concat (ready_list p) @ new_list p @ stop_list p"

text \<open>
  The lists of one CPU: nothing is on two lists or twice on one, ready tasks are on the list of
  their priority, \<^verbatim>\<open>local_rdy_grp\<close> has the bit of a priority iff its list is not empty,
  \<^verbatim>\<open>tasks_in_prio\<close> counts the list (the idle task is not counted, so priority 7 is left
  out), and every listed task is linked and belongs to this CPU.
\<close>

definition pcpu_wf :: "(nat \<Rightarrow> task) \<Rightarrow> nat \<Rightarrow> pcpu \<Rightarrow> bool" where
  "pcpu_wf T c p \<longleftrightarrow>
     pcpu_id p = c \<and> length (ready_list p) = OS_PRIO_MAX \<and> length (tasks_in_prio p) = OS_PRIO_MAX \<and>
     distinct (state_tasks p) \<and>
     (\<forall>i<OS_PRIO_MAX. \<forall>t\<in>set (ready_list p ! i). prio (T t) = i) \<and>
     (\<forall>i<OS_PRIO_MAX. bit (local_rdy_grp p) i \<longleftrightarrow> ready_list p ! i \<noteq> []) \<and>
     (\<forall>i<OS_PRIO_IDLE. tasks_in_prio p ! i = int (length (ready_list p ! i))) \<and>
     (\<forall>t\<in>set (state_tasks p). state_linked (T t) \<and> home_cpu (T t) = c)"

definition lists_inv :: "kstate \<Rightarrow> bool" where
  "lists_inv s \<longleftrightarrow> cpu_id s < NR_CPUS \<and> (\<forall>t. task_ok (tasks s t)) \<and>
     (\<forall>c<NR_CPUS. pcpu_wf (tasks s) c (pcpus s c)) \<and>
     (\<forall>t. state_linked (tasks s t) \<longrightarrow> t \<in> set (state_tasks (pcpus s (home_cpu (tasks s t)))))"

definition on_ready_list :: "nat \<Rightarrow> kstate \<Rightarrow> nat \<Rightarrow> bool" where
  "on_ready_list c s t \<longleftrightarrow> t \<in> set (ready_list (pcpus s c) ! prio (tasks s t))"

text \<open>The scheduler invariant: the lists are consistent and each CPU's running task is on its ready
  list.\<close>

definition sched_inv :: "kstate \<Rightarrow> bool" where
  "sched_inv s \<longleftrightarrow> lists_inv s \<and> (\<forall>c<NR_CPUS. on_ready_list c s (running_task (pcpus s c)))"

lemma home_cpu_less: "task_ok x \<Longrightarrow> home_cpu x < NR_CPUS"
  by (auto simp: task_ok_def home_cpu_def)

text \<open>The fields of a task and of a pcpu that the invariant reads, and whether the task is stopping.\<close>

definition sched_view :: "task \<Rightarrow> nat \<times> int \<times> bool \<times> bool" where
  "sched_view x = (prio x, affinity x, state_linked x, state x = TASK_STATE_STOP)"

definition pcpu_view :: "pcpu \<Rightarrow> nat \<times> nat list list \<times> nat list \<times> nat list \<times> int list \<times> u8 \<times> nat" where
  "pcpu_view p = (pcpu_id p, ready_list p, new_list p, stop_list p, tasks_in_prio p, local_rdy_grp p, running_task p)"

lemma sched_view_eq: "sched_view x = sched_view y \<longleftrightarrow> prio x = prio y \<and> affinity x = affinity y \<and>
    state_linked x = state_linked y \<and> (state x = TASK_STATE_STOP \<longleftrightarrow> state y = TASK_STATE_STOP)"
  by (simp add: sched_view_def)

lemma pcpu_view_eq: "pcpu_view p = pcpu_view q \<longleftrightarrow> pcpu_id p = pcpu_id q \<and> ready_list p = ready_list q \<and>
    new_list p = new_list q \<and> stop_list p = stop_list q \<and> tasks_in_prio p = tasks_in_prio q \<and>
    local_rdy_grp p = local_rdy_grp q \<and> running_task p = running_task q"
  by (simp add: pcpu_view_def)

definition same_view :: "kstate \<Rightarrow> kstate \<Rightarrow> bool" where
  "same_view s s' \<longleftrightarrow> cpu_id s' = cpu_id s \<and> (\<forall>t. sched_view (tasks s' t) = sched_view (tasks s t)) \<and>
     (\<forall>c. pcpu_view (pcpus s' c) = pcpu_view (pcpus s c))"

lemma task_ok_view: "sched_view x = sched_view y \<Longrightarrow> task_ok x = task_ok y"
  by (simp add: sched_view_eq task_ok_def)

lemma home_cpu_view: "sched_view x = sched_view y \<Longrightarrow> home_cpu x = home_cpu y"
  by (simp add: sched_view_eq home_cpu_def)

lemma state_tasks_view: "pcpu_view p = pcpu_view q \<Longrightarrow> state_tasks p = state_tasks q"
  by (simp add: pcpu_view_eq state_tasks_def)

lemma pcpu_wf_view:
  assumes T: "\<And>t. sched_view (T' t) = sched_view (T t)" and p: "pcpu_view p' = pcpu_view p"
  shows "pcpu_wf T' c p' = pcpu_wf T c p"
proof -
  have "prio (T' t) = prio (T t)" "state_linked (T' t) = state_linked (T t)" "home_cpu (T' t) = home_cpu (T t)" for t
    using T [of t] home_cpu_view [OF T] by (auto simp: sched_view_eq)
  moreover have "state_tasks p' = state_tasks p" using state_tasks_view [OF p] .
  ultimately show ?thesis using p unfolding pcpu_wf_def pcpu_view_eq by simp
qed

lemma lists_inv_view:
  assumes "same_view s s'"
  shows "lists_inv s' = lists_inv s"
proof -
  from assms have T: "\<And>t. sched_view (tasks s' t) = sched_view (tasks s t)"
    and P: "\<And>c. pcpu_view (pcpus s' c) = pcpu_view (pcpus s c)" and c: "cpu_id s' = cpu_id s"
    by (auto simp: same_view_def)
  have "state_linked (tasks s' t) = state_linked (tasks s t)" for t using T [of t] by (simp add: sched_view_eq)
  then show ?thesis
    unfolding lists_inv_def using task_ok_view [OF T] home_cpu_view [OF T] state_tasks_view [OF P]
      pcpu_wf_view [OF T P] c by simp
qed

lemma sched_inv_view:
  assumes "same_view s s'"
  shows "sched_inv s' = sched_inv s"
  using assms lists_inv_view [OF assms]
  by (auto simp: sched_inv_def same_view_def on_ready_list_def sched_view_eq pcpu_view_eq)

lemma same_view_refl [simp]: "same_view s s"
  by (simp add: same_view_def)

lemma same_view_trans: "same_view s s' \<Longrightarrow> same_view s' s'' \<Longrightarrow> same_view s s''"
  by (simp add: same_view_def)

lemma same_view_upd_task [simp]:
  "sched_view (f (tasks s' t)) = sched_view (tasks s' t) \<Longrightarrow> same_view s (upd_task t f s') = same_view s s'"
  by (auto simp: same_view_def)

lemma same_view_upd_pcpu [simp]:
  "(\<And>x. pcpu_view (f x) = pcpu_view x) \<Longrightarrow> same_view s (upd_pcpu c f s') = same_view s s'"
  by (auto simp: same_view_def)

lemma same_view_kernel: "same_kernel s s' \<Longrightarrow> same_view s s'"
  by (simp add: same_view_def same_kernel_def)

section \<open>Changing one ready list\<close>

lemma map_state_lists_ready:
  assumes d: "distinct (state_tasks p)" and i: "i < length (ready_list p)" and x: "x \<in> set (ready_list p ! i)"
    and f: "\<And>ys. x \<notin> set ys \<Longrightarrow> f ys = ys"
  shows "map_state_lists f p = p\<lparr>ready_list := (ready_list p)[i := f (ready_list p ! i)]\<rparr>"
proof -
  have xc: "x \<in> set (concat (ready_list p))" using nth_subset_concat [OF i] x by blast
  have dc: "distinct (concat (ready_list p))" using d by (simp add: state_tasks_def)
  have "f (new_list p) = new_list p" "f (stop_list p) = stop_list p"
    using d xc by (auto simp: state_tasks_def simp del: set_concat intro!: f)
  moreover have "map f (ready_list p) = (ready_list p)[i := f (ready_list p ! i)]"
  proof (rule nth_equalityI)
    fix j assume "j < length (map f (ready_list p))"
    then show "map f (ready_list p) ! j = (ready_list p)[i := f (ready_list p ! i)] ! j"
      using distinct_concat_disjoint [OF dc i, of j] x f [of "ready_list p ! j"]
      by (cases "j = i") (auto simp: nth_list_update)
  qed simp
  ultimately show ?thesis by (simp add: map_state_lists_def)
qed

text \<open>The pcpu in which list \<open>i\<close> has become \<open>ys\<close>, with its count and ready bit.\<close>

definition ready_update :: "nat \<Rightarrow> nat list \<Rightarrow> int \<Rightarrow> pcpu \<Rightarrow> pcpu" where
  "ready_update i ys n p =
     p\<lparr>ready_list := (ready_list p)[i := ys], tasks_in_prio := (tasks_in_prio p)[i := n],
       local_rdy_grp := (if ys = [] then local_rdy_grp p AND NOT (push_bit i 1)
                         else local_rdy_grp p OR push_bit i 1)\<rparr>"

lemma bit_rdy:
  "i < 8 \<Longrightarrow> j < 8 \<Longrightarrow> bit (w OR 2 ^ i :: u8) j \<longleftrightarrow> bit w j \<or> j = i"
  "i < 8 \<Longrightarrow> j < 8 \<Longrightarrow> bit (w AND NOT (2 ^ i) :: u8) j \<longleftrightarrow> bit w j \<and> j \<noteq> i"
  by (auto simp: bit_simps)

lemma ready_update_wf:
  assumes wf: "pcpu_wf T c p" and i: "i < 8" and ys: "distinct ys"
    and new: "set ys \<inter> (set (state_tasks p) - set (ready_list p ! i)) = {}"
    and n: "i < 7 \<Longrightarrow> n = int (length ys)"
    and T: "\<And>t. t \<notin> set ys \<union> set (ready_list p ! i) \<Longrightarrow> sched_view (T' t) = sched_view (T t)"
    and tys: "\<And>t. t \<in> set ys \<Longrightarrow> prio (T' t) = i \<and> state_linked (T' t) \<and> home_cpu (T' t) = c"
  shows "pcpu_wf T' c (ready_update i ys n p)"
    and "set (state_tasks (ready_update i ys n p)) = (set (state_tasks p) - set (ready_list p ! i)) \<union> set ys"
proof -
  let ?q = "ready_update i ys n p"
  have len: "length (ready_list p) = 8" "length (tasks_in_prio p) = 8" and d: "distinct (state_tasks p)"
    using wf by (auto simp: pcpu_wf_def)
  have il: "i < length (ready_list p)" using i len by simp
  have dc: "distinct (concat (ready_list p))"
    and dn: "set (concat (ready_list p)) \<inter> (set (new_list p) \<union> set (stop_list p)) = {}"
    and dns: "distinct (new_list p @ stop_list p)"
    using d by (auto simp: state_tasks_def simp del: set_concat)
  have sub: "set (ready_list p ! i) \<subseteq> set (concat (ready_list p))" using nth_subset_concat [OF il] .
  show st: "set (state_tasks ?q) = (set (state_tasks p) - set (ready_list p ! i)) \<union> set ys"
    using dn sub set_concat_update [OF il dc, of ys]
    by (auto simp: state_tasks_def ready_update_def simp del: set_concat)
  have "distinct (concat ((ready_list p)[i := ys]))"
    using new by (intro distinct_concat_update [OF il dc ys]) (auto simp: state_tasks_def simp del: set_concat)
  then have dq: "distinct (state_tasks ?q)"
    using dn dns new sub set_concat_update [OF il dc, of ys]
    by (auto simp: state_tasks_def ready_update_def simp del: set_concat)
  have other: "t \<notin> set ys \<union> set (ready_list p ! i)" if "j < 8" "j \<noteq> i" "t \<in> set (ready_list p ! j)" for j t
  proof -
    have jl: "j < length (ready_list p)" using that len by simp
    have "t \<in> set (state_tasks p)" using nth_subset_concat [OF jl] that by (auto simp: state_tasks_def simp del: set_concat)
    moreover have "t \<notin> set (ready_list p ! i)" using distinct_concat_disjoint [OF dc il jl] that by auto
    ultimately show ?thesis using new by blast
  qed
  have prios: "prio (T' t) = j" if "j < 8" "t \<in> set (ready_list ?q ! j)" for j t
  proof (cases "j = i")
    case True
    then show ?thesis using that tys len by (simp add: ready_update_def)
  next
    case False
    then have "t \<in> set (ready_list p ! j)" using that by (simp add: ready_update_def)
    then show ?thesis using T [OF other [OF that(1) False]] wf that(1) by (simp add: sched_view_eq pcpu_wf_def)
  qed
  have bits: "bit (local_rdy_grp ?q) j \<longleftrightarrow> ready_list ?q ! j \<noteq> []" if "j < 8" for j
    using wf that i len by (cases "j = i") (auto simp: ready_update_def bit_rdy pcpu_wf_def)
  have cnts: "tasks_in_prio ?q ! j = int (length (ready_list ?q ! j))" if "j < 7" for j
    using wf that i len n by (cases "j = i") (auto simp: ready_update_def pcpu_wf_def)
  have linked: "state_linked (T' t) \<and> home_cpu (T' t) = c" if "t \<in> set (state_tasks ?q)" for t
  proof (cases "t \<in> set ys")
    case False
    then have t: "t \<in> set (state_tasks p)" "t \<notin> set ys \<union> set (ready_list p ! i)" using that st by auto
    have "state_linked (T t) \<and> home_cpu (T t) = c" using wf t(1) by (simp add: pcpu_wf_def)
    then show ?thesis using T [OF t(2)] home_cpu_view [OF T [OF t(2)]] by (simp add: sched_view_eq)
  qed (use tys in simp)
  show "pcpu_wf T' c ?q"
    unfolding pcpu_wf_def using dq prios bits cnts linked len wf
    by (simp add: pcpu_wf_def) (simp add: ready_update_def)
qed

text \<open>Replacing one ready list in the kernel state.\<close>

lemma lists_inv_ready_update:
  assumes inv: "lists_inv s" and c: "c < 4" and i: "i < 8" and ys: "distinct ys"
    and new: "set ys \<inter> (set (state_tasks (pcpus s c)) - set (ready_list (pcpus s c) ! i)) = {}"
    and n: "i < 7 \<Longrightarrow> n = int (length ys)"
    and P: "pcpu_view (pcpus s' c) = pcpu_view (ready_update i ys n (pcpus s c))"
    and P': "\<And>d. d \<noteq> c \<Longrightarrow> pcpu_view (pcpus s' d) = pcpu_view (pcpus s d)" and cpu: "cpu_id s' = cpu_id s"
    and T: "\<And>t. t \<notin> set ys \<union> set (ready_list (pcpus s c) ! i) \<Longrightarrow> sched_view (tasks s' t) = sched_view (tasks s t)"
    and pa: "\<And>t. prio (tasks s' t) = prio (tasks s t) \<and> affinity (tasks s' t) = affinity (tasks s t)"
    and tys: "\<And>t. t \<in> set ys \<Longrightarrow> prio (tasks s' t) = i \<and> state_linked (tasks s' t) \<and> home_cpu (tasks s' t) = c"
    and out: "\<And>t. t \<in> set (ready_list (pcpus s c) ! i) \<Longrightarrow> t \<notin> set ys \<Longrightarrow> \<not> state_linked (tasks s' t)"
  shows "lists_inv s'"
proof -
  have wf: "pcpu_wf (tasks s) d (pcpus s d)" if "d < 4" for d using inv that by (simp add: lists_inv_def)
  note ru = ready_update_wf [OF wf [OF c] i ys new n T tys]
  have view: "pcpu_wf T d p = pcpu_wf T d q" if "pcpu_view p = pcpu_view q" for T d p q
    using pcpu_wf_view [of T T p q d] that by simp
  have home: "home_cpu (tasks s' t) = home_cpu (tasks s t)" for t using pa [of t] by (simp add: home_cpu_def)
  have st: "state_tasks (pcpus s' d) = state_tasks (pcpus s d)" if "d \<noteq> c" for d
    using state_tasks_view [OF P' [OF that]] .
  have stc: "set (state_tasks (pcpus s' c)) = (set (state_tasks (pcpus s c)) - set (ready_list (pcpus s c) ! i)) \<union> set ys"
    using state_tasks_view [OF P] ru(2) by simp
  have rl: "set (ready_list (pcpus s c) ! i) \<subseteq> set (state_tasks (pcpus s c))"
    using nth_subset_concat [of i "ready_list (pcpus s c)"] wf [OF c] i
    by (auto simp: pcpu_wf_def state_tasks_def simp del: set_concat)
  have hc: "home_cpu (tasks s t) = c" if "t \<in> set ys \<union> set (ready_list (pcpus s c) ! i)" for t
    using that tys [of t] home wf [OF c] rl by (auto simp: pcpu_wf_def)
  have wfs: "pcpu_wf (tasks s') d (pcpus s' d)" if "d < 4" for d
  proof (cases "d = c")
    case True
    then show ?thesis using ru(1) view [OF P] by simp
  next
    case False
    have eq: "sched_view (tasks s' t) = sched_view (tasks s t)" if "t \<in> set (state_tasks (pcpus s d))" for t
    proof (rule T)
      have "home_cpu (tasks s t) = d" using wf [OF \<open>d < 4\<close>] that by (simp add: pcpu_wf_def)
      with hc [of t] False show "t \<notin> set ys \<union> set (ready_list (pcpus s c) ! i)" by auto
    qed
    have "pcpu_wf (tasks s') d (pcpus s d)"
      using wf [OF \<open>d < 4\<close>] pa home eq unfolding pcpu_wf_def by (simp add: sched_view_eq)
    then show ?thesis using view [OF P' [OF False]] by simp
  qed
  have "t \<in> set (state_tasks (pcpus s' (home_cpu (tasks s' t))))" if "state_linked (tasks s' t)" for t
  proof (cases "t \<in> set ys \<union> set (ready_list (pcpus s c) ! i)")
    case True
    then show ?thesis using that out [of t] tys [of t] stc hc [OF True] home [of t] by auto
  next
    case False
    then have "state_linked (tasks s t)" using that T [OF False] by (simp add: sched_view_eq)
    then have "t \<in> set (state_tasks (pcpus s (home_cpu (tasks s t))))" using inv by (simp add: lists_inv_def)
    then show ?thesis using False home [of t] st stc by (cases "home_cpu (tasks s t) = c") auto
  qed
  moreover have "task_ok (tasks s' t)" for t using inv pa [of t] by (simp add: lists_inv_def task_ok_def)
  ultimately show ?thesis using wfs inv cpu by (simp add: lists_inv_def)
qed

section \<open>Adding to and removing from the ready lists\<close>

text \<open>A step that links or unlinks \<open>t\<close> and may set flags, but changes no other task field.\<close>

definition link_effect :: "bool \<Rightarrow> nat \<Rightarrow> kstate \<Rightarrow> kstate \<Rightarrow> bool" where
  "link_effect b t s s' \<longleftrightarrow>
     (\<forall>u. tasks s' u = (tasks s u)\<lparr>state_linked := (if u = t then b else state_linked (tasks s u)),
                                   ti_flags := ti_flags (tasks s' u)\<rparr>) \<and>
     (\<forall>u. u \<noteq> cur s \<longrightarrow> ti_flags (tasks s' u) = ti_flags (tasks s u)) \<and>
     cpu_id s' = cpu_id s \<and> (\<forall>c. running_task (pcpus s' c) = running_task (pcpus s c)) \<and>
     (\<forall>c. irqs_off (pcpus s' c) = irqs_off (pcpus s c)) \<and>
     events s' = events s \<and> flag_grps s' = flag_grps s \<and> locks s' = locks s"

lemma link_effect_fields:
  assumes "link_effect b t s s'"
  shows "prio (tasks s' u) = prio (tasks s u)" "affinity (tasks s' u) = affinity (tasks s u)"
    "state (tasks s' u) = state (tasks s u)" "delay (tasks s' u) = delay (tasks s u)"
    "cpu (tasks s' u) = cpu (tasks s u)" "preempt_count (tasks s' u) = preempt_count (tasks s u)"
    "pend_state (tasks s' u) = pend_state (tasks s u)" "home_cpu (tasks s' u) = home_cpu (tasks s u)"
    "task_flags (tasks s' u) = task_flags (tasks s u)"
    "state_linked (tasks s' u) = (if u = t then b else state_linked (tasks s u))"
    "cpu_id s' = cpu_id s" "cur s' = cur s"
proof -
  from assms have e: "tasks s' u = (tasks s u)\<lparr>state_linked := (if u = t then b else state_linked (tasks s u)),
                                   ti_flags := ti_flags (tasks s' u)\<rparr>"
    unfolding link_effect_def by blast
  show "prio (tasks s' u) = prio (tasks s u)" by (subst e) simp
  show "affinity (tasks s' u) = affinity (tasks s u)" by (subst e) simp
  then show "home_cpu (tasks s' u) = home_cpu (tasks s u)" by (simp add: home_cpu_def)
  show "state (tasks s' u) = state (tasks s u)" by (subst e) simp
  show "delay (tasks s' u) = delay (tasks s u)" by (subst e) simp
  show "cpu (tasks s' u) = cpu (tasks s u)" by (subst e) simp
  show "preempt_count (tasks s' u) = preempt_count (tasks s u)" by (subst e) simp
  show "pend_state (tasks s' u) = pend_state (tasks s u)" by (subst e) simp
  show "task_flags (tasks s' u) = task_flags (tasks s u)" by (subst e) simp
  show "state_linked (tasks s' u) = (if u = t then b else state_linked (tasks s u))" by (subst e) simp
  show "cpu_id s' = cpu_id s" "cur s' = cur s" using assms by (auto simp: link_effect_def cur_def)
qed

lemma set_state_linked_frame [simp]:
  "pcpus (set_state_linked b t s) = pcpus s" "cpu_id (set_state_linked b t s) = cpu_id s"
  "events (set_state_linked b t s) = events s" "flag_grps (set_state_linked b t s) = flag_grps s"
  "locks (set_state_linked b t s) = locks s" "cur (set_state_linked b t s) = cur s"
  "tasks (set_state_linked b t s) u = (if u = t then (tasks s t)\<lparr>state_linked := b\<rparr> else tasks s u)"
  by (simp_all add: set_state_linked_def)

lemma set_need_resched_frame [simp]:
  "pcpus (set_need_resched s) = pcpus s" "cpu_id (set_need_resched s) = cpu_id s"
  "events (set_need_resched s) = events s" "flag_grps (set_need_resched s) = flag_grps s"
  "locks (set_need_resched s) = locks s" "cur (set_need_resched s) = cur s" "need_resched (set_need_resched s)"
  "tasks (set_need_resched s) u =
     (if u = cur s then (tasks s u)\<lparr>ti_flags := ti_flags (tasks s u) OR tif_bit TIF_NEED_RESCHED\<rparr> else tasks s u)"
  by (simp_all add: set_need_resched_def need_resched_bit cur_task_def tif_bits)

lemma map_state_lists_frame [simp]:
  "running_task (map_state_lists f p) = running_task p" "irqs_off (map_state_lists f p) = irqs_off p"
  "pcpu_id (map_state_lists f p) = pcpu_id p" "tasks_in_prio (map_state_lists f p) = tasks_in_prio p"
  "local_rdy_grp (map_state_lists f p) = local_rdy_grp p"
  by (simp_all add: map_state_lists_def)

lemma cur_upd_pcpu [simp]:
  "(\<And>x. running_task (f x) = running_task x) \<Longrightarrow> cur (upd_pcpu c f s) = cur s"
  by (simp add: cur_def)

lemma same_kernel_cur: "same_kernel s s' \<Longrightarrow> cur s' = cur s"
  by (simp add: same_kernel_def cur_def)

lemma add_task_effect:
  assumes d: "distinct (state_tasks (pcpus s c))" and p: "p = prio (tasks s t)" "p < length (ready_list (pcpus s c))"
    and cpu: "cpu_id s = c" and run: "prio (tasks s (cur s)) = p \<Longrightarrow> on_ready_list c s (cur s)"
    and st: "add_task_to_ready_list c t preempt s = Inr s'"
  defines "L \<equiv> ready_list (pcpus s c) ! p"
  defines "ys \<equiv> if prio (tasks s (cur s)) = p then insert_before (cur s) t L else L @ [t]"
  shows "\<not> state_linked (tasks s t)" and "link_effect True t s s'"
    and "pcpu_view (pcpus s' c) = pcpu_view (ready_update p ys (tasks_in_prio (pcpus s c) ! p + 1) (pcpus s c))"
    and "\<And>e. e \<noteq> c \<Longrightarrow> pcpus s' e = pcpus s e"
    and "preempt \<or> prio (tasks s (cur s)) > p \<Longrightarrow> need_resched s'"
proof -
  from st show nl: "\<not> state_linked (tasks s t)" by (auto simp: add_task_to_ready_list_def split: if_splits)
  let ?s1 = "upd_pcpu c (\<lambda>x. x\<lparr>tasks_in_prio := (tasks_in_prio x)[p := tasks_in_prio x ! p + 1]\<rparr>) s"
  let ?grp = "\<lambda>x. x\<lparr>local_rdy_grp := local_rdy_grp x OR push_bit p 1\<rparr>"
  obtain s2 where s2: "(if prio (cur_task ?s1) = p then
                 thenR (list_insert_before_state c (cur ?s1) t ?s1)
                   (\<lambda>s. if tasks_in_prio (pcpus s c) ! p = 2 then sched_update_sched_timer s else Inr s)
               else Inr (list_add_tail_ready c p t ?s1)) = Inr s2"
    and s': "s' = (let s = upd_pcpu c ?grp s2
                    in if preempt \<or> prio (cur_task s) > p then set_need_resched s else s)"
    using st nl unfolding add_task_to_ready_list_def Let_def p(1) by auto
  have cur1: "cur ?s1 = cur s" "cur_task ?s1 = tasks s (cur s)" by (simp_all add: cur_task_def)
  let ?q = "\<lambda>y. (pcpus s c)\<lparr>tasks_in_prio := (tasks_in_prio (pcpus s c))[p := tasks_in_prio (pcpus s c) ! p + 1],
      ready_list := (ready_list (pcpus s c))[p := y]\<rparr>"
  obtain s3 where s3: "same_kernel s3 s2" "s3 = set_state_linked True t (upd_pcpu c (\<lambda>_. ?q ys) s)"
  proof (cases "prio (tasks s (cur s)) = p")
    case True
    have q: "map_state_lists (insert_before (cur s) t) (pcpus ?s1 c) = ?q ys"
      using True map_state_lists_ready [of "pcpus ?s1 c" p "cur s" "insert_before (cur s) t"] d p run
      by (simp add: state_tasks_def ys_def L_def on_ready_list_def)
    let ?s3 = "set_state_linked True t (upd_pcpu c (map_state_lists (insert_before (cur s) t)) ?s1)"
    have "?s3 = set_state_linked True t (upd_pcpu c (\<lambda>_. ?q ys) s)"
      using q by (simp add: upd_pcpu_def set_state_linked_def upd_task_def)
    moreover have "same_kernel ?s3 s2"
      using s2 True unfolding cur1 by (auto simp: list_insert_before_state_def split: if_splits dest: same_kernel_sched_timer)
    ultimately show ?thesis using that by blast
  next
    case False
    have "s2 = list_add_tail_ready c p t ?s1" using s2 False unfolding cur1 by simp
    also have "\<dots> = set_state_linked True t (upd_pcpu c (\<lambda>_. ?q ys) s)"
      using False by (simp add: list_add_tail_ready_def upd_pcpu_def set_state_linked_def upd_task_def ys_def L_def)
    finally show ?thesis using that by simp
  qed
  then have s2': "tasks s2 = tasks s3" "pcpus s2 = pcpus s3" "cpu_id s2 = cpu_id s3" "events s2 = events s3"
    "flag_grps s2 = flag_grps s3" "locks s2 = locks s3" by (auto simp: same_kernel_def)
  have curs: "cur s2 = cur s" using s2' s3(2) by (simp add: cur_def)
  have pc: "pcpus s' c = ?grp (?q ys)" "\<And>e. e \<noteq> c \<Longrightarrow> pcpus s' e = pcpus s e"
    using s' s2' s3(2) by (simp_all add: Let_def)
  have "ys \<noteq> []" using run by (auto simp: ys_def L_def on_ready_list_def dest: arg_cong [of _ _ length] simp: length_insert_before)
  then show "pcpu_view (pcpus s' c) = pcpu_view (ready_update p ys (tasks_in_prio (pcpus s c) ! p + 1) (pcpus s c))"
    by (simp add: pc pcpu_view_eq ready_update_def)
  show "\<And>e. e \<noteq> c \<Longrightarrow> pcpus s' e = pcpus s e" by (rule pc)
  show "link_effect True t s s'"
    unfolding link_effect_def using s' s2' s3(2) curs by (auto simp: Let_def)
  show "need_resched s'" if "preempt \<or> prio (tasks s (cur s)) > p"
  proof -
    have "prio (cur_task (upd_pcpu c ?grp s2)) = prio (tasks s (cur s))"
      using s2' s3(2) curs by (simp add: cur_task_def)
    with that s' show ?thesis by (auto simp: Let_def)
  qed
qed

lemma pcpu_wf_of: "lists_inv s \<Longrightarrow> c < 4 \<Longrightarrow> pcpu_wf (tasks s) c (pcpus s c)"
  by (simp add: lists_inv_def)

lemma pcpu_wfD:
  assumes "pcpu_wf T c p"
  shows "pcpu_id p = c" and "length (ready_list p) = 8" and "length (tasks_in_prio p) = 8"
    and "distinct (state_tasks p)" and "i < 8 \<Longrightarrow> t \<in> set (ready_list p ! i) \<Longrightarrow> prio (T t) = i"
    and "i < 8 \<Longrightarrow> bit (local_rdy_grp p) i \<longleftrightarrow> ready_list p ! i \<noteq> []"
    and "i < 7 \<Longrightarrow> tasks_in_prio p ! i = int (length (ready_list p ! i))"
    and "t \<in> set (state_tasks p) \<Longrightarrow> state_linked (T t) \<and> home_cpu (T t) = c"
  using assms unfolding pcpu_wf_def by blast+

lemma prio_less: "lists_inv s \<Longrightarrow> prio (tasks s t) < 8"
  by (auto simp: lists_inv_def task_ok_def)

lemma add_task_inv:
  assumes inv: "lists_inv s" and c: "cpu_id s = c"
    and run: "prio (tasks s (cur s)) = prio (tasks s t) \<Longrightarrow> on_ready_list c s (cur s)"
    and home: "home_cpu (tasks s t) = c" and st: "add_task_to_ready_list c t preempt s = Inr s'"
  shows "lists_inv s'" and "on_ready_list c s' t"
    and "\<And>u. on_ready_list c s u \<Longrightarrow> on_ready_list c s' u"
proof -
  have c4: "c < 4" using inv c by (simp add: lists_inv_def)
  note wf = pcpu_wf_of [OF inv c4]
  let ?p = "prio (tasks s t)"
  let ?L = "ready_list (pcpus s c) ! ?p"
  define ys where "ys = (if prio (tasks s (cur s)) = ?p then insert_before (cur s) t ?L else ?L @ [t])"
  have p: "?p < 8" using prio_less [OF inv] .
  have len: "?p < length (ready_list (pcpus s c))" and d: "distinct (state_tasks (pcpus s c))"
    using wf p by (auto simp: pcpu_wf_def)
  note eff = add_task_effect [OF d refl len c run st, folded ys_def]
  have tn: "t \<notin> set (state_tasks (pcpus s c))" using wf eff(1) by (auto simp: pcpu_wf_def)
  have sub: "set ?L \<subseteq> set (state_tasks (pcpus s c))"
    using nth_subset_concat [OF len] by (auto simp: state_tasks_def simp del: set_concat)
  have dL: "distinct ?L"
  proof -
    have "?L \<in> set (ready_list (pcpus s c))" using len by simp
    then show ?thesis using d by (auto simp: state_tasks_def distinct_concat_iff)
  qed
  have tL: "t \<notin> set ?L" using tn sub by auto
  have ysL: "set ys = insert t (set ?L)" "length ys = Suc (length ?L)" "distinct ys"
    using run dL tL by (auto simp: ys_def set_insert_before length_insert_before distinct_insert_before on_ready_list_def)
  note f = link_effect_fields [OF eff(2)]
  have view: "sched_view (tasks s' u) = sched_view (tasks s u)" if "u \<noteq> t" for u
    using f that by (simp add: sched_view_eq)
  show "lists_inv s'"
  proof (rule lists_inv_ready_update [OF inv c4 p ysL(3) _ _ eff(3)])
    show "set ys \<inter> (set (state_tasks (pcpus s c)) - set ?L) = {}" using ysL tn by auto
    show "tasks_in_prio (pcpus s c) ! ?p + 1 = int (length ys)" if "?p < 7"
      using wf that ysL(2) by (simp add: pcpu_wf_def)
    show "pcpu_view (pcpus s' e) = pcpu_view (pcpus s e)" if "e \<noteq> c" for e using eff(4) that by simp
    show "sched_view (tasks s' u) = sched_view (tasks s u)" if "u \<notin> set ys \<union> set ?L" for u
      using that ysL(1) view by auto
    show "prio (tasks s' u) = ?p \<and> state_linked (tasks s' u) \<and> home_cpu (tasks s' u) = c" if "u \<in> set ys" for u
    proof (cases "u = t")
      case False
      then have u: "u \<in> set ?L" using that ysL(1) by auto
      then have "prio (tasks s u) = ?p" using wf p by (simp add: pcpu_wf_def)
      moreover have "state_linked (tasks s u) \<and> home_cpu (tasks s u) = c" using wf sub u by (auto simp: pcpu_wf_def)
      ultimately show ?thesis using f False by simp
    qed (use f home in simp)
    show "\<not> state_linked (tasks s' u)" if "u \<in> set ?L" "u \<notin> set ys" for u using that ysL(1) by auto
  qed (use f in simp_all)
  have rl: "ready_list (pcpus s' c) = (ready_list (pcpus s c))[?p := ys]"
    using eff(3) by (simp add: pcpu_view_eq ready_update_def)
  show "on_ready_list c s' t" using rl len f ysL(1) by (simp add: on_ready_list_def)
  show "on_ready_list c s' u" if "on_ready_list c s u" for u
    using that rl len f ysL(1) by (cases "prio (tasks s u) = ?p") (auto simp: on_ready_list_def)
qed

lemma or_bit_set: "i < 8 \<Longrightarrow> bit (w :: u8) i \<Longrightarrow> w OR 2 ^ i = w"
  by (rule bit_word_eqI) (auto simp: bit_simps)

lemma remove_task_effect:
  assumes inv: "lists_inv s" and c4: "c < 4" and t: "on_ready_list c s t"
    and st: "remove_task_from_ready_list c t s = Inr s'"
  defines "p \<equiv> prio (tasks s t)"
  defines "ys \<equiv> remove1 t (ready_list (pcpus s c) ! p)"
  shows "link_effect False t s s'"
    and "pcpu_view (pcpus s' c) = pcpu_view (ready_update p ys (tasks_in_prio (pcpus s c) ! p - 1) (pcpus s c))"
    and "\<And>e. e \<noteq> c \<Longrightarrow> pcpus s' e = pcpus s e"
proof -
  note wf = pcpu_wf_of [OF inv c4]
  have p: "p < 8" using prio_less [OF inv] by (simp add: p_def)
  have len: "p < length (ready_list (pcpus s c))" using pcpu_wfD(2) [OF wf] p by simp
  note d = pcpu_wfD(4) [OF wf]
  have "ready_list (pcpus s c) ! p \<noteq> []" using t by (auto simp: on_ready_list_def p_def)
  then have bit: "bit (local_rdy_grp (pcpus s c)) p" using pcpu_wfD(6) [OF wf p] by simp
  have q: "map_state_lists (remove1 t) (pcpus s c) = (pcpus s c)\<lparr>ready_list := (ready_list (pcpus s c))[p := ys]\<rparr>"
    using map_state_lists_ready [OF d len, of t "remove1 t"] t by (simp add: ys_def on_ready_list_def p_def remove1_idem)
  define s1 where "s1 = list_del_state c t s"
  define s2 where "s2 = (if ready_list (pcpus s1 c) ! p = []
             then upd_pcpu c (\<lambda>x. x\<lparr>local_rdy_grp := local_rdy_grp x AND NOT (push_bit p 1)\<rparr>) s1 else s1)"
  define s3 where "s3 = upd_pcpu c (\<lambda>x. x\<lparr>tasks_in_prio := (tasks_in_prio x)[p := tasks_in_prio x ! p - 1]\<rparr>) s2"
  have "Inr s' = (if prio (cur_task s3) = p \<and> tasks_in_prio (pcpus s3 c) ! p = 1
            then sched_update_sched_timer s3 else Inr s3)"
    using st unfolding remove_task_from_ready_list_def Let_def p_def [symmetric] s1_def [symmetric]
      s2_def [symmetric] s3_def [symmetric] by (simp only: split: if_splits) auto
  then have s': "same_kernel s3 s'"
    by (cases "prio (cur_task s3) = p \<and> tasks_in_prio (pcpus s3 c) ! p = 1")
      (simp_all add: same_kernel_sched_timer [OF sym])
  have s1: "pcpus s1 c = (pcpus s c)\<lparr>ready_list := (ready_list (pcpus s c))[p := ys]\<rparr>"
    "\<And>e. e \<noteq> c \<Longrightarrow> pcpus s1 e = pcpus s e"
    using q by (simp_all add: list_del_state_def s1_def)
  have s2: "pcpu_view (pcpus s2 c) = pcpu_view ((pcpus s c)\<lparr>ready_list := (ready_list (pcpus s c))[p := ys],
      local_rdy_grp := (if ys = [] then local_rdy_grp (pcpus s c) AND NOT (push_bit p 1)
                        else local_rdy_grp (pcpus s c) OR push_bit p 1)\<rparr>)"
    "irqs_off (pcpus s2 c) = irqs_off (pcpus s c)" "\<And>e. e \<noteq> c \<Longrightarrow> pcpus s2 e = pcpus s e"
    using s1 len or_bit_set [OF p bit] by (cases "ys = []"; simp add: s2_def pcpu_view_eq)+
  have s3: "pcpu_view (pcpus s3 c) = pcpu_view (ready_update p ys (tasks_in_prio (pcpus s c) ! p - 1) (pcpus s c))"
    "irqs_off (pcpus s3 c) = irqs_off (pcpus s c)" "\<And>e. e \<noteq> c \<Longrightarrow> pcpus s3 e = pcpus s e"
    using s2 by (simp_all add: s3_def pcpu_view_eq ready_update_def)
  then show "pcpu_view (pcpus s' c) = pcpu_view (ready_update p ys (tasks_in_prio (pcpus s c) ! p - 1) (pcpus s c))"
    "\<And>e. e \<noteq> c \<Longrightarrow> pcpus s' e = pcpus s e"
    using s' by (simp_all add: same_kernel_def)
  have run: "running_task (pcpus s3 e) = running_task (pcpus s e)" "irqs_off (pcpus s3 e) = irqs_off (pcpus s e)" for e
    using s3 by (cases "e = c"; simp add: pcpu_view_eq ready_update_def)+
  have "tasks s3 u = (if u = t then (tasks s t)\<lparr>state_linked := False\<rparr> else tasks s u)" for u
    by (simp add: list_del_state_def s1_def s2_def s3_def)
  moreover have "cpu_id s3 = cpu_id s" "events s3 = events s" "flag_grps s3 = flag_grps s" "locks s3 = locks s"
    by (simp_all add: list_del_state_def s1_def s2_def s3_def)
  ultimately show "link_effect False t s s'"
    unfolding link_effect_def using s' run by (simp add: same_kernel_def)
qed

lemma remove_task_inv:
  assumes inv: "lists_inv s" and c4: "c < 4" and t: "on_ready_list c s t"
    and st: "remove_task_from_ready_list c t s = Inr s'"
  shows "lists_inv s'" and "\<not> state_linked (tasks s' t)"
    and "\<And>u. u \<noteq> t \<Longrightarrow> on_ready_list c s' u = on_ready_list c s u"
proof -
  note wf = pcpu_wf_of [OF inv c4]
  let ?p = "prio (tasks s t)"
  let ?L = "ready_list (pcpus s c) ! ?p"
  let ?ys = "remove1 t ?L"
  have p: "?p < 8" using prio_less [OF inv] .
  have len: "?p < length (ready_list (pcpus s c))" and d: "distinct (state_tasks (pcpus s c))"
    using wf p by (auto simp: pcpu_wf_def)
  note eff = remove_task_effect [OF inv c4 t st]
  note f = link_effect_fields [OF eff(1)]
  have "?L \<in> set (ready_list (pcpus s c))" using len by simp
  then have dL: "distinct ?L" using d by (auto simp: state_tasks_def distinct_concat_iff)
  have sub: "set ?L \<subseteq> set (state_tasks (pcpus s c))"
    using nth_subset_concat [OF len] by (auto simp: state_tasks_def simp del: set_concat)
  have tL: "t \<in> set ?L" using t by (simp add: on_ready_list_def)
  have ysL: "set ?ys = set ?L - {t}" "length ?ys = length ?L - 1" "0 < length ?L" using dL tL by (auto simp: length_remove1)
  show "lists_inv s'"
  proof (rule lists_inv_ready_update [OF inv c4 p _ _ _ eff(2)])
    show "distinct ?ys" using dL by simp
    show "set ?ys \<inter> (set (state_tasks (pcpus s c)) - set ?L) = {}" using ysL by auto
    show "tasks_in_prio (pcpus s c) ! ?p - 1 = int (length ?ys)" if "?p < 7"
    proof -
      have "tasks_in_prio (pcpus s c) ! ?p = int (length ?L)" using wf that by (simp add: pcpu_wf_def)
      then show ?thesis using ysL(2,3) by linarith
    qed
    show "pcpu_view (pcpus s' e) = pcpu_view (pcpus s e)" if "e \<noteq> c" for e using eff(3) that by simp
    show "sched_view (tasks s' u) = sched_view (tasks s u)" if "u \<notin> set ?ys \<union> set ?L" for u
      using that f tL by (auto simp: sched_view_eq)
    show "prio (tasks s' u) = ?p \<and> state_linked (tasks s' u) \<and> home_cpu (tasks s' u) = c" if "u \<in> set ?ys" for u
    proof -
      have u: "u \<in> set ?L" "u \<noteq> t" using that ysL(1) by auto
      then have "prio (tasks s u) = ?p" using wf p by (simp add: pcpu_wf_def)
      moreover have "state_linked (tasks s u) \<and> home_cpu (tasks s u) = c" using wf sub u by (auto simp: pcpu_wf_def)
      ultimately show ?thesis using f u by simp
    qed
    show "\<not> state_linked (tasks s' u)" if "u \<in> set ?L" "u \<notin> set ?ys" for u using that ysL(1) f by auto
  qed (use f in simp_all)
  show "\<not> state_linked (tasks s' t)" using f by simp
  have "ready_list (pcpus s' c) = (ready_list (pcpus s c))[?p := ?ys]"
    using eff(2) by (simp add: pcpu_view_eq ready_update_def)
  then show "on_ready_list c s' u = on_ready_list c s u" if "u \<noteq> t" for u
    using that len f ysL(1) by (cases "prio (tasks s u) = ?p") (auto simp: on_ready_list_def)
qed

section \<open>Preservation by the operations that make tasks ready\<close>

text \<open>
  Inside \<^verbatim>\<open>pick_next_task\<close> the current task is already off the ready lists. The operations keep the
  lists consistent there as well, as long as the woken task has another priority than the
  current one. \<open>kinv True\<close> is the full invariant, \<open>kinv False\<close> the one without the running
  task of the executing CPU; \<open>wake_ctx\<close> adds what the operations need of the rescheduling function and of
  the task \<open>t\<close> they act on (\<open>None\<close>: outside the scheduler; \<open>Some v\<close>: inside it, with the running
  tasks \<open>v\<close>).
\<close>

definition kinv :: "bool \<Rightarrow> kstate \<Rightarrow> bool" where
  "kinv b s \<longleftrightarrow> lists_inv s \<and>
     (\<forall>c<NR_CPUS. b \<or> c \<noteq> cpu_id s \<longrightarrow> on_ready_list c s (running_task (pcpus s c)))"

definition rs_ok :: "(kstate \<Rightarrow> kstate res) \<Rightarrow> bool" where
  "rs_ok rs \<longleftrightarrow> (\<forall>s s'. sched_inv s \<longrightarrow> state (cur_task s) \<noteq> TASK_STATE_STOP \<longrightarrow> rs s = Inr s' \<longrightarrow>
     sched_inv s' \<and> state (cur_task s') \<noteq> TASK_STATE_STOP)"

definition runs :: "kstate \<Rightarrow> nat \<times> (nat \<Rightarrow> nat)" where
  "runs s = (cpu_id s, \<lambda>c. running_task (pcpus s c))"

definition wake_ctx ::
  "(nat \<times> (nat \<Rightarrow> nat)) option \<Rightarrow> (kstate \<Rightarrow> kstate res) \<Rightarrow> nat \<Rightarrow> kstate \<Rightarrow> bool" where
  "wake_ctx b rs t s \<longleftrightarrow> kinv (b = None) s \<and>
     (case b of None \<Rightarrow> rs_ok rs \<and> state (cur_task s) \<noteq> TASK_STATE_STOP
      | Some v \<Rightarrow> rs = no_resched \<and> runs s = v \<and> prio (tasks s (cur s)) \<noteq> prio (tasks s t))"

lemma kinv_True: "kinv True s = sched_inv s"
  by (simp add: kinv_def sched_inv_def)

lemma same_view_cur: "same_view s s' \<Longrightarrow> cur s' = cur s"
  by (simp add: same_view_def cur_def pcpu_view_eq)

lemma kinv_view: "same_view s s' \<Longrightarrow> kinv b s' = kinv b s"
  using lists_inv_view [of s s']
  by (auto simp: kinv_def same_view_def on_ready_list_def sched_view_eq pcpu_view_eq)

lemma same_view_runs: "same_view s s' \<Longrightarrow> runs s' = runs s"
  by (simp add: same_view_def runs_def pcpu_view_eq)

lemma wake_ctx_view: "same_view s s' \<Longrightarrow> wake_ctx b rs t s' = wake_ctx b rs t s"
  using kinv_view [of s s' "b = None"] same_view_cur [of s s']
  by (auto simp: wake_ctx_def same_view_def sched_view_eq pcpu_view_eq runs_def cur_task_def split: option.splits)

lemma view_simps [simp]:
  "same_view s (preempt_disable s') = same_view s s'"
  "same_view s (set_irqs_off f s') = same_view s s'"
  by (simp_all add: preempt_disable_def set_irqs_off_def sched_view_def pcpu_view_def)

lemma view_simps1 [simp]:
  "same_view s (raw_spin_unlock l s') = same_view s s'"
  "same_view s (s'\<lparr>locks := L\<rparr>) = same_view s s'"
  "same_view s (s'\<lparr>sgis := g\<rparr>) = same_view s s'"
  "same_view s (upd_flag g' h s') = same_view s s'"
  "same_view s (upd_event e k s') = same_view s s'"
  by (simp_all add: raw_spin_unlock_def same_view_def)

lemma view_simps2 [simp]:
  "same_view s (set_need_resched s') = same_view s s'"
  "same_view s (clear_need_resched s') = same_view s s'"
  "same_view s (clear_do_not_preempt s') = same_view s s'"
  "same_view s (do_not_preempt s') = same_view s s'"
  "same_view s (task_set_resched t s') = same_view s s'"
  "same_view s (task_clear_resched t s') = same_view s s'"
  "same_view s (send_sgi i c s') = same_view s s'"
  by (simp_all add: set_need_resched_def clear_need_resched_def clear_do_not_preempt_def do_not_preempt_def
      task_set_resched_def task_clear_resched_def send_sgi_def sched_view_def)

lemma rs_okD:
  "rs_ok rs \<Longrightarrow> sched_inv s \<Longrightarrow> state (cur_task s) \<noteq> TASK_STATE_STOP \<Longrightarrow> rs s = Inr s' \<Longrightarrow>
     sched_inv s' \<and> state (cur_task s') \<noteq> TASK_STATE_STOP"
  unfolding rs_ok_def by blast

lemma wake_ctx_rs:
  assumes "wake_ctx b rs t s" and "rs s = Inr s'"
  shows "wake_ctx b rs t s'"
proof (cases b)
  case None
  then have "rs_ok rs" "sched_inv s" "state (cur_task s) \<noteq> TASK_STATE_STOP"
    using assms(1) by (simp_all add: wake_ctx_def kinv_True)
  with rs_okD [OF this assms(2)] None show ?thesis by (simp add: wake_ctx_def kinv_True)
next
  case (Some v)
  with assms show ?thesis by (simp add: wake_ctx_def no_resched_def)
qed

lemma preempt_enable_ctx:
  assumes "wake_ctx b rs t s" and "preempt_enable rs s = Inr s'"
  shows "wake_ctx b rs t s'"
proof -
  let ?s = "upd_task (cur s) (\<lambda>t. t\<lparr>preempt_count := preempt_count t - 1\<rparr>) s"
  have v: "same_view s ?s" by (simp add: sched_view_def)
  have w: "wake_ctx b rs t ?s" using assms(1) wake_ctx_view [OF v] by simp
  have "s' = ?s \<or> rs ?s = Inr s'"
    using assms(2) by (auto simp: preempt_enable_def cond_resched_def split: if_splits)
  then show ?thesis using w wake_ctx_rs [OF w] by blast
qed

lemma unlock_ctx:
  assumes "wake_ctx b rs t s" and "spin_unlock_irqrestore rs l fl s = Inr s'"
  shows "wake_ctx b rs t s'"
proof (rule preempt_enable_ctx)
  show "wake_ctx b rs t (set_irqs_off fl (raw_spin_unlock l s))"
    using assms(1) wake_ctx_view [of s "set_irqs_off fl (raw_spin_unlock l s)" b rs t] by simp
qed (use assms(2) in \<open>simp add: spin_unlock_irqrestore_def\<close>)

lemma lock_view: "spin_lock_irqsave l s = Inr (fl, s') \<Longrightarrow> same_view s s'"
  by (auto simp: spin_lock_irqsave_def raw_spin_lock_def Let_def split: if_splits)

lemma trylock_ctx:
  assumes "wake_ctx b rs t s" and "spin_trylock_irqsave rs l s = Inr (fl, s')"
  shows "wake_ctx b rs t s'"
proof -
  let ?s = "set_irqs_off True (preempt_disable s)"
  let ?r = "set_irqs_off (irq_disabled (preempt_disable s)) ?s"
  have "wake_ctx b rs t (?s\<lparr>locks := insert l (locks ?s)\<rparr>)" "wake_ctx b rs t ?r"
    using assms(1) wake_ctx_view [of s "?s\<lparr>locks := insert l (locks ?s)\<rparr>" b rs t] wake_ctx_view [of s ?r b rs t] by simp_all
  with assms(2) preempt_enable_ctx [of b rs t ?r] show ?thesis
    by (auto simp: spin_trylock_irqsave_def Let_def split: if_splits)
qed

lemma lists_inv_link:
  assumes inv: "lists_inv s" and c: "c < 4" and nl: "\<not> state_linked (tasks s t)" and home: "home_cpu (tasks s t) = c"
    and q: "q = (pcpus s c)\<lparr>new_list := new_list (pcpus s c) @ [t]\<rparr> \<or> q = (pcpus s c)\<lparr>stop_list := stop_list (pcpus s c) @ [t]\<rparr>"
  shows "lists_inv (set_state_linked True t (upd_pcpu c (\<lambda>_. q) s))"
proof -
  define s' where "s' = set_state_linked True t (upd_pcpu c (\<lambda>_. q) s)"
  let ?T = "tasks s'"
  note wf = pcpu_wf_of [OF inv]
  have tn: "t \<notin> set (state_tasks (pcpus s d))" if "d < 4" for d using pcpu_wfD(8) [OF wf [OF that]] nl by blast
  have q': "ready_list q = ready_list (pcpus s c)" "tasks_in_prio q = tasks_in_prio (pcpus s c)"
    "local_rdy_grp q = local_rdy_grp (pcpus s c)" "pcpu_id q = pcpu_id (pcpus s c)"
    "set (state_tasks q) = insert t (set (state_tasks (pcpus s c)))" "distinct (state_tasks q)"
    using q tn [OF c] pcpu_wfD(4) [OF wf [OF c]] by (auto simp: state_tasks_def simp del: set_concat)
  have T: "prio (?T u) = prio (tasks s u)" "affinity (?T u) = affinity (tasks s u)" "home_cpu (?T u) = home_cpu (tasks s u)"
    "state_linked (?T u) = (u = t \<or> state_linked (tasks s u))" for u
    by (simp_all add: home_cpu_def s'_def)
  have P: "pcpus s' d = (if d = c then q else pcpus s d)" "cpu_id s' = cpu_id s" for d by (simp_all add: s'_def)
  have "pcpu_wf ?T c q"
    unfolding pcpu_wf_def q'(1-5) T using pcpu_wfD [OF wf [OF c]] home q'(6) by auto
  moreover have "pcpu_wf ?T d (pcpus s d)" if "d < 4" "d \<noteq> c" for d
    unfolding pcpu_wf_def T using pcpu_wfD [OF wf [OF that(1)]] by auto
  ultimately have wfs: "pcpu_wf ?T d (pcpus s' d)" if "d < 4" for d using that P by simp
  have "u \<in> set (state_tasks (pcpus s' (home_cpu (?T u))))" if "state_linked (?T u)" for u
    using that inv home q'(5) unfolding T P by (auto simp: lists_inv_def)
  then have "lists_inv s'"
    using inv wfs T P by (simp add: lists_inv_def task_ok_def)
  then show ?thesis by (simp add: s'_def)
qed

lemma add_new_ctx:
  assumes w: "wake_ctx b rs u s" and c: "c < 4" and nl: "\<not> state_linked (tasks s t)" and home: "home_cpu (tasks s t) = c"
  shows "wake_ctx b rs u (list_add_tail_new c t s)"
proof -
  have eq: "list_add_tail_new c t s =
     set_state_linked True t (upd_pcpu c (\<lambda>_. (pcpus s c)\<lparr>new_list := new_list (pcpus s c) @ [t]\<rparr>) s)"
    by (simp add: list_add_tail_new_def upd_pcpu_def)
  have "lists_inv (list_add_tail_new c t s)"
    unfolding eq using w c nl home by (intro lists_inv_link) (auto simp: wake_ctx_def kinv_def)
  moreover have "on_ready_list d (list_add_tail_new c t s) x = on_ready_list d s x" for d x
    by (simp add: list_add_tail_new_def on_ready_list_def)
  moreover have "cur (list_add_tail_new c t s) = cur s" "cpu_id (list_add_tail_new c t s) = cpu_id s"
    "running_task (pcpus (list_add_tail_new c t s) d) = running_task (pcpus s d)"
    "prio (tasks (list_add_tail_new c t s) x) = prio (tasks s x)"
    "state (tasks (list_add_tail_new c t s) x) = state (tasks s x)" for d x
    by (simp_all add: list_add_tail_new_def cur_def)
  ultimately show ?thesis using w by (simp add: wake_ctx_def kinv_def runs_def cur_task_def split: option.splits)
qed

lemma add_ready_ctx:
  assumes t: "wake_ctx b rs t s" and u: "wake_ctx b rs u s" and c: "cpu_id s = c" and home: "home_cpu (tasks s t) = c"
    and st: "add_task_to_ready_list c t preempt s = Inr s'"
  shows "wake_ctx b rs u s'"
proof -
  have inv: "lists_inv s" using t by (simp add: wake_ctx_def kinv_def)
  then have c4: "c < 4" using c by (simp add: lists_inv_def)
  have run: "on_ready_list c s (cur s)" if "prio (tasks s (cur s)) = prio (tasks s t)"
    using t that c c4 by (cases b) (auto simp: wake_ctx_def kinv_def cur_def)
  note a = add_task_inv [OF inv c run home st]
  have len: "prio (tasks s t) < length (ready_list (pcpus s c))"
    using pcpu_wfD(2) [OF pcpu_wf_of [OF inv c4]] prio_less [OF inv] by simp
  note e = add_task_effect [OF pcpu_wfD(4) [OF pcpu_wf_of [OF inv c4]] refl len c run st]
  note f = link_effect_fields [OF e(2)]
  have run': "running_task (pcpus s' d) = running_task (pcpus s d)" for d using e(2) by (simp add: link_effect_def)
  have "on_ready_list d s' x" if "on_ready_list d s x" for d x
    using that a(3) e(4) [of d] f(1) by (cases "d = c") (auto simp: on_ready_list_def)
  with u a(1) f run' show ?thesis by (auto simp: wake_ctx_def kinv_def runs_def cur_task_def split: option.splits)
qed

lemma task_ready_ctx:
  assumes t: "wake_ctx b rs t s" and u: "wake_ctx b rs u s" and st: "task_ready rs t preempt s = Inr s'"
  shows "wake_ctx b rs u s'"
proof -
  define s1 where "s1 = upd_task t (\<lambda>x. x\<lparr>cpu := affinity x\<rparr>) (preempt_disable s)"
  define s2 where "s2 = (if cpu (tasks s1 t) = - 1 then upd_task t (\<lambda>x. x\<lparr>cpu := select_task_run_cpu\<rparr>) s1 else s1)"
  define c where "c = nat (cpu (tasks s2 t))"
  have v: "same_view s s2" by (simp add: s1_def s2_def sched_view_def)
  have w: "wake_ctx b rs x s2 = wake_ctx b rs x s" for x using wake_ctx_view [OF v] .
  have "wake_ctx b rs t s2" using t w by simp
  then have inv: "lists_inv s2" by (simp add: wake_ctx_def kinv_def)
  have ok: "task_ok (tasks s2 t)" using inv by (simp add: lists_inv_def)
  have cc: "cpu (tasks s2 t) = (if affinity (tasks s2 t) = - 1 then 3 else affinity (tasks s2 t))"
    by (auto simp: s2_def s1_def select_task_run_cpu_def preempt_disable_def)
  have home: "home_cpu (tasks s2 t) = c" "c < 4" "int c = cpu (tasks s2 t)"
    using ok cc by (auto simp: home_cpu_def c_def task_ok_def)
  have id: "pcpu_id (get_pcpu s2) = cpu_id s2"
    using pcpu_wfD(1) [OF pcpu_wf_of [OF inv]] inv by (simp add: get_pcpu_def lists_inv_def)
  obtain s3 where s3: "(if int (pcpu_id (get_pcpu s2)) \<noteq> cpu (tasks s2 t)
                then smp_percpu_task_ready rs c t preempt s2
                else percpu_task_ready (cpu_id s2) t preempt s2) = Inr s3" "preempt_enable rs s3 = Inr s'"
    using st unfolding task_ready_def Let_def s1_def [symmetric] s2_def [symmetric] c_def [symmetric] by auto
  have "wake_ctx b rs u s3"
  proof (cases "int (pcpu_id (get_pcpu s2)) = cpu (tasks s2 t)")
    case True
    then have cid: "cpu_id s2 = c" using id home(3) by simp
    obtain s4 where s4: "add_task_to_ready_list c t preempt (set_irqs_off True s2) = Inr s4"
      "same_view s4 s3"
      using s3(1) True cid by (auto simp: percpu_task_ready_def Let_def)
    have w': "wake_ctx b rs t (set_irqs_off True s2)" "wake_ctx b rs u (set_irqs_off True s2)"
      using t u w wake_ctx_view [of s2 "set_irqs_off True s2"] by simp_all
    have "wake_ctx b rs u s4"
      by (rule add_ready_ctx [OF w' _ _ s4(1)]) (use cid home in \<open>simp_all add: set_irqs_off_def\<close>)
    then show ?thesis using wake_ctx_view [OF s4(2)] by simp
  next
    case False
    let ?s2 = "if preempt then task_set_resched t s2 else s2"
    have v2: "same_view s2 ?s2" by simp
    obtain fl s4 s5 where nl: "\<not> state_linked (tasks ?s2 t)" and l: "spin_lock_irqsave (Pcpu_lock c) ?s2 = Inr (fl, s4)"
      and ul: "spin_unlock_irqrestore rs (Pcpu_lock c) fl (list_add_tail_new c t s4) = Inr s5" and s3': "s3 = pcpu_irqwork c s5"
      using s3(1) False by (auto simp: smp_percpu_task_ready_def Let_def split: if_splits)
    have v4: "same_view s2 s4" using same_view_trans [OF v2 lock_view [OF l]] .
    have v24: "same_view ?s2 s4" using lock_view [OF l] .
    have "\<not> state_linked (tasks s4 t)" "home_cpu (tasks s4 t) = c"
      using nl v24 v4 home(1) home_cpu_view [of "tasks s4 t" "tasks s2 t"] by (auto simp: same_view_def sched_view_eq)
    moreover have "wake_ctx b rs u s4" using u w wake_ctx_view [OF v4] by simp
    ultimately have "wake_ctx b rs u (list_add_tail_new c t s4)" using home(2) by (intro add_new_ctx) simp_all
    from unlock_ctx [OF this ul] show ?thesis
      using s3' wake_ctx_view [of s5 s3 b rs u] by (simp add: pcpu_irqwork_def)
  qed
  from preempt_enable_ctx [OF this s3(2)] show ?thesis .
qed

lemma wake_up_common_ctx:
  assumes t: "wake_ctx b rs t s" and u: "wake_ctx b rs u s" and st: "wake_up_common rs t ps ev d s = Inr (r, s')"
  shows "wake_ctx b rs u s'"
proof -
  obtain fl s1 where l: "spin_lock_irqsave (Task_lock t) (preempt_disable s) = Inr (fl, s1)"
    using st by (auto simp: wake_up_common_def split: if_splits)
  have v1: "same_view s s1" using lock_view [OF l] by (simp add: same_view_def preempt_disable_def sched_view_def split: if_splits)
  have w1: "wake_ctx b rs x s1 = wake_ctx b rs x s" for x using wake_ctx_view [OF v1] .
  show ?thesis
  proof (cases "state (tasks s1 t) = TASK_STATE_WAIT_EVENT")
    case False
    with st l obtain s2 where "spin_unlock_irqrestore rs (Task_lock t) fl s1 = Inr s2" "preempt_enable rs s2 = Inr s'"
      by (auto simp: wake_up_common_def)
    then show ?thesis using u w1 by (metis unlock_ctx preempt_enable_ctx)
  next
    case True
    define s2 where "s2 = upd_task t (\<lambda>x. deliver ev d
                       (x\<lparr>pend_state := ps, state := TASK_STATE_WAKING, delay := 0\<rparr>)) s1"
    have v2: "same_view s1 s2" using True by (simp add: s2_def sched_view_def deliver_def)
    have c: "cpu (tasks s1 t) = - 1" using st l True by (cases "cpu (tasks s1 t) = - 1") (simp_all add: wake_up_common_def)
    obtain s3 s4 s5 where s3: "spin_unlock_irqrestore rs (Task_lock t) fl s2 = Inr s3"
      and s4: "(if delay (tasks s1 t) \<noteq> 0 \<and> pend_state (tasks s3 t) \<noteq> TASK_STATE_PEND_TO
                 then stop_timer (Delay_timer t) s3 else Inr s3) = Inr s4"
      and s5: "task_ready rs t True s4 = Inr s5" and s': "preempt_enable rs s5 = Inr s'"
      using st l True c unfolding wake_up_common_def Let_def s2_def by auto
    have w3: "wake_ctx b rs x s3" if "wake_ctx b rs x s" for x
      using that w1 [of x] wake_ctx_view [OF v2, of b rs x] s3 unlock_ctx by blast
    have v4: "same_view s3 s4" using s4 by (auto intro: same_view_kernel dest: same_kernel_stop split: if_splits)
    have w4: "wake_ctx b rs x s4" if "wake_ctx b rs x s" for x using w3 [OF that] wake_ctx_view [OF v4] by simp
    show ?thesis
      using preempt_enable_ctx [OF task_ready_ctx [OF w4 [OF t] w4 [OF u] s5] s'] .
  qed
qed

lemma wake_up_interrupted_ctx:
  assumes u: "wake_ctx b rs u s" and st: "wake_up_interrupted rs t ps ev d s = Inr (r, s')"
  shows "wake_ctx b rs u s'"
proof (cases "state (tasks s t) = TASK_STATE_WAIT_EVENT")
  case False
  with st u show ?thesis by (simp add: wake_up_interrupted_def split: if_splits)
next
  case True
  define K where "K = (\<lambda>s1. upd_task t (\<lambda>x. deliver ev d (x\<lparr>pend_state := ps, state := TASK_STATE_RUNNING, delay := 0\<rparr>))
       (upd_task t (\<lambda>x. x\<lparr>ti_flags := ti_flags x AND NOT (tif_bit TIF_DONOT_PREEMPT)\<rparr>)
         (upd_task t (\<lambda>x. x\<lparr>ti_flags := ti_flags x OR tif_bit TIF_WAIT_INTERRUPTED\<rparr>) s1)))"
  have v: "same_view s1 (K s1)" if "state (tasks s1 t) = TASK_STATE_WAIT_EVENT" for s1
    using that by (simp add: K_def sched_view_def deliver_def)
  have c: "ps \<noteq> TASK_STATE_PEND_TO" "irq_disabled s"
    using st True by (cases "ps = TASK_STATE_PEND_TO"; cases "irq_disabled s"; simp add: wake_up_interrupted_def)+
  obtain fl s1 where l: "spin_trylock_irqsave rs (Task_lock t) s = Inr (fl, s1)"
    and k: "(case fl of None \<Rightarrow> Inr (- EBUSY, s1)
           | Some flags \<Rightarrow>
               if state (tasks s1 t) \<noteq> TASK_STATE_WAIT_EVENT then
                 thenR (spin_unlock_irqrestore rs (Task_lock t) flags s1) (\<lambda>s. Inr (- EINVAL, s))
               else thenR (spin_unlock_irqrestore rs (Task_lock t) flags (K s1)) (\<lambda>s. Inr (0, s))) = Inr (r, s')"
    using st True c unfolding wake_up_interrupted_def Let_def K_def by auto
  note w1 = trylock_ctx [OF u l]
  have "s' = s1 \<or> (\<exists>flags. spin_unlock_irqrestore rs (Task_lock t) flags s1 = Inr s' \<or>
          state (tasks s1 t) = TASK_STATE_WAIT_EVENT \<and> spin_unlock_irqrestore rs (Task_lock t) flags (K s1) = Inr s')"
    using k by (cases fl) (auto split: if_splits)
  then show ?thesis using w1 wake_ctx_view [OF v, of s1 b rs u] unlock_ctx by blast
qed

lemma wake_up_gen_ctx:
  assumes t: "wake_ctx b rs t s" and u: "wake_ctx b rs u s" and st: "wake_up_gen rs t ps ev d s = Inr (r, s')"
  shows "wake_ctx b rs u s'"
proof (cases "t = cur s")
  case True
  with st have "wake_up_interrupted rs t ps ev d s = Inr (r, s')" by (simp add: wake_up_gen_def)
  from wake_up_interrupted_ctx [OF u this] show ?thesis .
next
  case False
  with st have "wake_up_common rs t ps ev d s = Inr (r, s')" by (simp add: wake_up_gen_def)
  from wake_up_common_ctx [OF t u this] show ?thesis .
qed

lemma flag_task_ready_ctx:
  assumes "wake_ctx b rs (node_task n) s" and "wake_ctx b rs u s" and st: "flag_task_ready rs n fl s = Inr s'"
  shows "wake_ctx b rs u s'"
proof -
  obtain r where "wake_up_gen rs (node_task n) TASK_STATE_PEND_OK OS_EVENT_TYPE_FLAG (ucast fl) s = Inr (r, s')"
    using st by (auto simp: flag_task_ready_def)
  from wake_up_gen_ctx [OF assms(1,2) this] show ?thesis .
qed

lemma flag_post_nodes_ctx:
  "(\<And>n. n \<in> set ns \<Longrightarrow> wake_ctx b rs (node_task n) s) \<Longrightarrow> wake_ctx b rs u s \<Longrightarrow>
     flag_post_nodes rs g ns s = Inr (e, s') \<Longrightarrow> wake_ctx b rs u s'"
proof (induction ns arbitrary: s)
  case (Cons n ns)
  have n: "wake_ctx b rs (node_task n) s" using Cons.prems(1) by simp
  have rest: "wake_ctx b rs (node_task m) s" if "m \<in> set ns" for m using Cons.prems(1) that by simp
  have step: "wake_ctx b rs u s'" if "flag_task_ready rs n fl s = Inr s1" "flag_post_nodes rs g ns s1 = Inr (e, s')" for s1 fl
    using Cons.IH [OF flag_task_ready_ctx [OF n rest that(1)] flag_task_ready_ctx [OF n Cons.prems(2) that(1)] that(2)] .
  have stop: "wake_ctx b rs u s'" if "flag_task_ready rs n fl s = Inr s'" for fl
    using flag_task_ready_ctx [OF n Cons.prems(2) that] .
  show ?case
    using Cons.prems(3) step stop Cons.IH [OF rest Cons.prems(2)] Cons.prems(2)
    by (auto simp: Let_def split: if_splits)
qed simp

lemma cond_resched_ctx:
  assumes w: "wake_ctx b rs t s" and st: "cond_resched rs s = Inr s'"
  shows "wake_ctx b rs t s'"
  using st w wake_ctx_rs [OF w] by (simp add: cond_resched_def split: if_splits)

lemma flag_post_ctx:
  assumes n: "\<And>n. n \<in> set (grp_wait_list (flag_grps s g)) \<Longrightarrow> wake_ctx b rs (node_task n) s"
    and u: "wake_ctx b rs u s" and st: "flag_post rs g fl opt s = Inr (r, s')"
  shows "wake_ctx b rs u s'"
proof (cases "opt > FLAG_SET")
  case True
  with st u show ?thesis by (simp add: flag_post_def)
next
  case False
  obtain irq s1 where l: "spin_lock_irqsave (Flag_lock g) s = Inr (irq, s1)"
    using st False by (auto simp: flag_post_def)
  define s2 where "s2 = (if opt = FLAG_CLR then upd_flag g (\<lambda>x. x\<lparr>grp_flags := grp_flags x AND NOT fl\<rparr>) s1
                      else upd_flag g (\<lambda>x. x\<lparr>grp_flags := grp_flags x OR fl\<rparr>) s1)"
  have "same_view s s1" using lock_view [OF l] .
  then have v: "same_view s s2" by (simp add: s2_def)
  have "flag_grps s1 = flag_grps s"
    using l by (auto simp: spin_lock_irqsave_def raw_spin_lock_def preempt_disable_def set_irqs_off_def Let_def split: if_splits)
  then have gl: "grp_wait_list (flag_grps s2 g) = grp_wait_list (flag_grps s g)" by (simp add: s2_def)
  obtain early s3 s4 where p: "flag_post_nodes rs g (grp_wait_list (flag_grps s2 g)) s2 = Inr (early, s3)"
    and ul: "spin_unlock_irqrestore rs (Flag_lock g) irq s3 = Inr s4"
    and k: "(if early then Inr (0, s4) else thenR (if cur s4 = cur s3 then cond_resched rs s4 else Inr s4)
               (\<lambda>s'. Inr (grp_flags (flag_grps s' g), s'))) = Inr (r, s')"
    using st False l unfolding flag_post_def Let_def s2_def by auto
  have "wake_ctx b rs u s3"
    by (rule flag_post_nodes_ctx [OF _ _ p]) (use n u gl wake_ctx_view [OF v] in auto)
  from unlock_ctx [OF this ul] k show ?thesis
    by (auto split: if_splits dest: cond_resched_ctx)
qed

section \<open>Picking the next task\<close>

text \<open>The woken kworker must not have the priority of the stopping task: \<^verbatim>\<open>add_task_to_ready_list\<close>
  would insert it in front of the stopping task, on the stop list (see
  \<open>stop_list_captures_kworker\<close>).\<close>

definition kworker_ok :: "kstate \<Rightarrow> bool" where
  "kworker_ok s \<longleftrightarrow> (state (cur_task s) = TASK_STATE_STOP \<longrightarrow>
     (\<forall>n\<in>set (grp_wait_list (flag_grps s (Kworker_flag (cpu_id s)))).
        prio (tasks s (node_task n)) \<noteq> prio (cur_task s)))"

lemma rotate_inv:
  assumes inv: "lists_inv s" and c: "c < 4" and p: "p < 8" and L: "ready_list (pcpus s c) ! p = x # xs"
  defines "s' \<equiv> list_add_tail_ready c p x (list_del_state c x s)"
  shows "lists_inv s'" and "ready_list (pcpus s' c) = (ready_list (pcpus s c))[p := xs @ [x]]"
    and "pcpu_view (pcpus s' c) = pcpu_view ((pcpus s c)\<lparr>ready_list := (ready_list (pcpus s c))[p := xs @ [x]]\<rparr>)"
    and "\<And>d. d \<noteq> c \<Longrightarrow> pcpus s' d = pcpus s d" and "runs s' = runs s"
    and "\<And>u. tasks s' u = (if u = x then (tasks s x)\<lparr>state_linked := True\<rparr> else tasks s u)"
    and "\<And>u. tasks s' u = tasks s u" and "flag_grps s' = flag_grps s"
proof -
  note wf = pcpu_wf_of [OF inv c]
  have len: "p < length (ready_list (pcpus s c))" "p < length (tasks_in_prio (pcpus s c))"
    using pcpu_wfD(2,3) [OF wf] p by simp_all
  note d = pcpu_wfD(4) [OF wf]
  have dL: "distinct (x # xs)"
  proof -
    have "x # xs \<in> set (ready_list (pcpus s c))" using len L by (metis nth_mem)
    then show ?thesis using d by (auto simp: state_tasks_def distinct_concat_iff)
  qed
  have q: "map_state_lists (remove1 x) (pcpus s c) = (pcpus s c)\<lparr>ready_list := (ready_list (pcpus s c))[p := xs]\<rparr>"
    using map_state_lists_ready [OF d len(1), of x "remove1 x"] L by (simp add: remove1_idem)
  have pc: "pcpus s' c = (pcpus s c)\<lparr>ready_list := (ready_list (pcpus s c))[p := xs @ [x]]\<rparr>"
    "\<And>e. e \<noteq> c \<Longrightarrow> pcpus s' e = pcpus s e"
    using q len by (simp_all add: s'_def list_add_tail_ready_def list_del_state_def)
  show "ready_list (pcpus s' c) = (ready_list (pcpus s c))[p := xs @ [x]]"
    "pcpu_view (pcpus s' c) = pcpu_view ((pcpus s c)\<lparr>ready_list := (ready_list (pcpus s c))[p := xs @ [x]]\<rparr>)"
    "\<And>d. d \<noteq> c \<Longrightarrow> pcpus s' d = pcpus s d" using pc by simp_all
  have run': "running_task (pcpus s' e) = running_task (pcpus s e)" for e using pc by (cases "e = c") simp_all
  show "runs s' = runs s" using run' by (simp add: runs_def s'_def list_add_tail_ready_def list_del_state_def)
  show T: "\<And>u. tasks s' u = (if u = x then (tasks s x)\<lparr>state_linked := True\<rparr> else tasks s u)"
    "flag_grps s' = flag_grps s"
    by (simp_all add: s'_def list_add_tail_ready_def list_del_state_def)
  have "x \<in> set (state_tasks (pcpus s c))"
    using nth_subset_concat [OF len(1)] L by (auto simp: state_tasks_def simp del: set_concat)
  then have xl: "state_linked (tasks s x)" using pcpu_wfD(8) [OF wf] by simp
  then have "(tasks s x)\<lparr>state_linked := True\<rparr> = tasks s x" by (cases "tasks s x") simp
  with T show Teq: "\<And>u. tasks s' u = tasks s u" by simp
  have bit: "bit (local_rdy_grp (pcpus s c)) p" using pcpu_wfD(6) [OF wf p] L by simp
  have sub: "set (x # xs) \<subseteq> set (state_tasks (pcpus s c))"
    using nth_subset_concat [OF len(1)] L by (auto simp: state_tasks_def simp del: set_concat)
  show "lists_inv s'"
  proof (rule lists_inv_ready_update [OF inv c p])
    show "pcpu_view (pcpus s' c) = pcpu_view (ready_update p (xs @ [x]) (tasks_in_prio (pcpus s c) ! p) (pcpus s c))"
      using pc(1) or_bit_set [OF p bit] by (simp add: pcpu_view_eq ready_update_def)
    show "set (xs @ [x]) \<inter> (set (state_tasks (pcpus s c)) - set (ready_list (pcpus s c) ! p)) = {}" using L by auto
    show "tasks_in_prio (pcpus s c) ! p = int (length (xs @ [x]))" if "p < 7" using pcpu_wfD(7) [OF wf that] L by simp
    show "prio (tasks s' t) = p \<and> state_linked (tasks s' t) \<and> home_cpu (tasks s' t) = c" if "t \<in> set (xs @ [x])" for t
      using that pcpu_wfD(5) [OF wf p, of t] pcpu_wfD(8) [OF wf, of t] L sub Teq by auto
    show "cpu_id s' = cpu_id s" by (simp add: s'_def list_add_tail_ready_def list_del_state_def)
    show "distinct (xs @ [x])" using dL by simp
    show "\<not> state_linked (tasks s' t)" if "t \<in> set (ready_list (pcpus s c) ! p)" "t \<notin> set (xs @ [x])" for t
      using that L by auto
  qed (use pc(2) Teq in \<open>simp_all\<close>)
qed

lemma rdy_grp_lowest:
  assumes wf: "pcpu_wf T c p" and r: "ffs_one_table ! unat (local_rdy_grp p) = q" "q \<noteq> - 1"
  shows "\<exists>i<8. q = int i \<and> ready_list p ! i \<noteq> [] \<and> (\<forall>j<i. ready_list p ! j = [])"
proof -
  have "ffs_one_table ! 0 = - 1" by (simp add: ffs_one_table_def)
  then have "unat (local_rdy_grp p) \<noteq> 0" using r by metis
  then obtain i where i: "i < 8" "ffs_one_table ! unat (local_rdy_grp p) = int i" "bit (unat (local_rdy_grp p)) i"
    "\<forall>j<i. \<not> bit (unat (local_rdy_grp p)) j"
    using ffs_one_table_lowest [of "unat (local_rdy_grp p)"] unat_bounds(1) [of "local_rdy_grp p"] by auto
  then show ?thesis
    using pcpu_wfD(6) [OF wf] r by (intro exI [of _ i]) (auto simp: bit_unsigned_iff)
qed

lemma no_resched_view:
  "cond_resched no_resched s = Inr s' \<Longrightarrow> same_view s s'"
  "preempt_enable no_resched s = Inr s' \<Longrightarrow> same_view s s'"
  "spin_unlock_irqrestore no_resched l fl s = Inr s' \<Longrightarrow> same_view s s'"
  by (auto simp: spin_unlock_irqrestore_def preempt_enable_def cond_resched_def no_resched_def sched_view_def
      split: if_splits)

lemma flag_post_no_waiter:
  assumes "grp_wait_list (flag_grps s g) = []" and st: "flag_post no_resched g fl opt s = Inr (r, s')"
  shows "same_view s s'"
proof (cases "opt > FLAG_SET")
  case True
  with st show ?thesis by (simp add: flag_post_def)
next
  case False
  obtain irq s1 where l: "spin_lock_irqsave (Flag_lock g) s = Inr (irq, s1)"
    using st False by (auto simp: flag_post_def)
  define s2 where "s2 = (if opt = FLAG_CLR then upd_flag g (\<lambda>x. x\<lparr>grp_flags := grp_flags x AND NOT fl\<rparr>) s1
                      else upd_flag g (\<lambda>x. x\<lparr>grp_flags := grp_flags x OR fl\<rparr>) s1)"
  have "flag_grps s1 = flag_grps s"
    using l by (auto simp: spin_lock_irqsave_def raw_spin_lock_def preempt_disable_def set_irqs_off_def Let_def split: if_splits)
  then have gl: "grp_wait_list (flag_grps s2 g) = []" using assms(1) by (simp add: s2_def)
  obtain s4 where ul: "spin_unlock_irqrestore no_resched (Flag_lock g) irq s2 = Inr s4"
    and k: "s' = s4 \<or> cond_resched no_resched s4 = Inr s'"
    using st False l gl unfolding flag_post_def Let_def s2_def by (auto split: if_splits)
  have "same_view s s2" using lock_view [OF l] by (simp add: s2_def)
  moreover have "same_view s4 s'" using k no_resched_view(1) by auto
  ultimately show ?thesis using no_resched_view(3) [OF ul] by (blast intro: same_view_trans)
qed

text \<open>The first half of \<^verbatim>\<open>pick_next_task\<close>: a task that does not run any more leaves the ready lists.\<close>

definition retire :: "nat \<Rightarrow> kstate \<Rightarrow> kstate res" where
  "retire c s =
     (let t = cur s in
      if \<not> task_is_running (tasks s t) then
        thenR (remove_task_from_ready_list c t s)
          (\<lambda>s. if state (tasks s t) = TASK_STATE_STOP then
                  thenR (flag_post no_resched (Kworker_flag c) KWORKER_TASK_RECYCLE FLAG_SET (list_add_tail_stop c t s))
                    (\<lambda>(r, s). Inr s)
                else Inr s)
      else Inr s)"

lemma pick_next_task_retire:
  "pick_next_task c s =
     (if state (cur_task s) = TASK_STATE_READY then Inl Assert_Failed
      else thenR (retire c s)
          (\<lambda>s. let p = ffs_one_table ! unat (local_rdy_grp (pcpus s c)) in
                if p = - 1 then Inl Assert_Failed
                else case ready_list (pcpus s c) ! nat p of
                       [] \<Rightarrow> Inl Assert_Failed
                     | next # _ \<Rightarrow> Inr (next, list_add_tail_ready c (nat p) next (list_del_state c next s))))"
  by (simp add: pick_next_task_def retire_def cur_task_def Let_def)

lemma retire_inv:
  assumes inv: "sched_inv s" and ok: "kworker_ok s" and st: "retire (cpu_id s) s = Inr s'"
  shows "kinv False s'" and "runs s' = runs s"
proof -
  let ?c = "cpu_id s"
  let ?t = "cur s"
  have li: "lists_inv s" and c4: "?c < 4" and run: "on_ready_list ?c s ?t"
    using inv by (auto simp: sched_inv_def lists_inv_def cur_def)
  have all: "on_ready_list d s (running_task (pcpus s d))" if "d < 4" for d using inv that by (simp add: sched_inv_def)
  have "kinv False s' \<and> runs s' = runs s"
  proof (cases "task_is_running (tasks s ?t)")
    case True
    then show ?thesis using st inv by (simp add: retire_def kinv_def sched_inv_def)
  next
    case False
    then obtain s1 where s1: "remove_task_from_ready_list ?c ?t s = Inr s1"
      and k: "(if state (tasks s1 ?t) = TASK_STATE_STOP then
                  thenR (flag_post no_resched (Kworker_flag ?c) KWORKER_TASK_RECYCLE FLAG_SET (list_add_tail_stop ?c ?t s1))
                    (\<lambda>(r, s). Inr s)
                else Inr s1) = Inr s'"
      using st by (auto simp: retire_def Let_def)
    note r = remove_task_inv [OF li c4 run s1]
    note e = remove_task_effect [OF li c4 run s1]
    note f = link_effect_fields [OF e(1)]
    have runs1: "runs s1 = runs s" using e(1) by (auto simp: link_effect_def runs_def)
    have k1: "kinv False s1"
      using r(1) all e(3) f runs1 by (auto simp: kinv_def on_ready_list_def runs_def)
    show ?thesis
    proof (cases "state (tasks s1 ?t) = TASK_STATE_STOP")
      case False
      then show ?thesis using k k1 runs1 by simp
    next
      case True
      let ?q = "(pcpus s1 ?c)\<lparr>stop_list := stop_list (pcpus s1 ?c) @ [?t]\<rparr>"
      define s2 where "s2 = list_add_tail_stop ?c ?t s1"
      have s2: "s2 = set_state_linked True ?t (upd_pcpu ?c (\<lambda>_. ?q) s1)"
        by (simp add: s2_def list_add_tail_stop_def upd_pcpu_def)
      have home: "home_cpu (tasks s1 ?t) = ?c"
      proof -
        have "?t \<in> set (state_tasks (pcpus s ?c))"
          using run nth_subset_concat [of "prio (tasks s ?t)" "ready_list (pcpus s ?c)"]
            pcpu_wfD(2) [OF pcpu_wf_of [OF li c4]] prio_less [OF li]
          by (auto simp: on_ready_list_def state_tasks_def simp del: set_concat)
        then show ?thesis using pcpu_wfD(8) [OF pcpu_wf_of [OF li c4]] f by simp
      qed
      have "lists_inv s2" unfolding s2 using r c4 home by (intro lists_inv_link) auto
      then have k2: "kinv False s2" and runs2: "runs s2 = runs s"
        using k1 runs1 by (auto simp: s2 kinv_def on_ready_list_def runs_def fun_eq_iff)
      have pr: "prio (tasks s2 u) = prio (tasks s u)" for u using f by (simp add: s2)
      have cur2: "cur s2 = ?t" using runs2 by (auto simp: runs_def cur_def fun_eq_iff)
      have fg: "flag_grps s2 = flag_grps s" using e(1) by (simp add: s2 link_effect_def)
      obtain x where fp: "flag_post no_resched (Kworker_flag ?c) KWORKER_TASK_RECYCLE FLAG_SET s2 = Inr (x, s')"
        using k True by (auto simp: s2_def)
      have stop: "state (cur_task s) = TASK_STATE_STOP" using True f by (simp add: cur_task_def)
      let ?W = "grp_wait_list (flag_grps s2 (Kworker_flag ?c))"
      have w: "wake_ctx (Some (runs s)) no_resched (node_task n) s2" if "n \<in> set ?W" for n
        using that k2 runs2 cur2 pr ok stop fg by (auto simp: wake_ctx_def kworker_ok_def cur_task_def)
      show ?thesis
      proof (cases "?W = []")
        case True
        from kinv_view [OF flag_post_no_waiter [OF True fp]] same_view_runs [OF flag_post_no_waiter [OF True fp]]
        show ?thesis using k2 runs2 by simp
      next
        case False
        then obtain n where "n \<in> set ?W" by (meson list.set_sel(1))
        from flag_post_ctx [OF w w [OF this] fp] show ?thesis by (simp add: wake_ctx_def)
      qed
    qed
  qed
  then show "kinv False s'" "runs s' = runs s" by simp_all
qed

lemma pick_next_task_inv:
  assumes inv: "sched_inv s" and ok: "kworker_ok s" and st: "pick_next_task (cpu_id s) s = Inr (next, s')"
  shows "kinv False s'" and "runs s' = runs s" and "on_ready_list (cpu_id s) s' next"
    and "\<And>u. on_ready_list (cpu_id s) s' u \<Longrightarrow> prio (tasks s' next) \<le> prio (tasks s' u)"
proof -
  let ?c = "cpu_id s"
  have c4: "?c < 4" using inv by (simp add: sched_inv_def lists_inv_def)
  obtain s1 p xs where s1: "retire ?c s = Inr s1" and p: "p = ffs_one_table ! unat (local_rdy_grp (pcpus s1 ?c))" "p \<noteq> - 1"
    and L: "ready_list (pcpus s1 ?c) ! nat p = next # xs"
    and s': "s' = list_add_tail_ready ?c (nat p) next (list_del_state ?c next s1)"
    using st by (auto simp: pick_next_task_retire Let_def split: if_splits list.splits)
  note r = retire_inv [OF inv ok s1]
  have li: "lists_inv s1" using r(1) by (simp add: kinv_def)
  note wf = pcpu_wf_of [OF li c4]
  obtain i where i: "i < 8" "p = int i" "\<forall>j<i. ready_list (pcpus s1 ?c) ! j = []"
    using rdy_grp_lowest [OF wf] p by metis
  have L': "ready_list (pcpus s1 ?c) ! i = next # xs" and s'': "s' = list_add_tail_ready ?c i next (list_del_state ?c next s1)"
    using L s' i by simp_all
  note ro = rotate_inv [OF li c4 i(1) L', folded s'']
  note li' = ro(1) and rl = ro(2) and T = ro(7) and pe = ro(4)
  show rs: "runs s' = runs s" using ro(5) r(2) by simp
  have len: "i < length (ready_list (pcpus s1 ?c))" using pcpu_wfD(2) [OF wf] i by simp
  have pn: "prio (tasks s1 next) = i" using pcpu_wfD(5) [OF wf i(1), of "next"] L' by simp
  show "kinv False s'"
    using li' r rs pe T by (auto simp: kinv_def on_ready_list_def runs_def fun_eq_iff)
  show "on_ready_list ?c s' next" using rl len pn T by (simp add: on_ready_list_def)
  show "prio (tasks s' next) \<le> prio (tasks s' u)" if "on_ready_list ?c s' u" for u
  proof (rule ccontr)
    assume "\<not> ?thesis"
    then have lt: "prio (tasks s1 u) < i" using T pn by simp
    then have "u \<in> set (ready_list (pcpus s1 ?c) ! prio (tasks s1 u))" using that T rl by (simp add: on_ready_list_def)
    then show False using i(3) lt by simp
  qed
qed

lemma retire_not_stop:
  assumes inv: "sched_inv s" and ns: "state (cur_task s) \<noteq> TASK_STATE_STOP" and st: "retire (cpu_id s) s = Inr s'"
  shows "if task_is_running (cur_task s) then s' = s else \<not> state_linked (tasks s' (cur s)) \<and>
           link_effect False (cur s) s s' \<and> remove_task_from_ready_list (cpu_id s) (cur s) s = Inr s'"
proof (cases "task_is_running (cur_task s)")
  case True
  then show ?thesis using st by (simp add: retire_def cur_task_def)
next
  case False
  have li: "lists_inv s" and c4: "cpu_id s < 4" and run: "on_ready_list (cpu_id s) s (cur s)"
    using inv by (auto simp: sched_inv_def lists_inv_def cur_def)
  obtain s1 where s1: "remove_task_from_ready_list (cpu_id s) (cur s) s = Inr s1"
    using False st by (auto simp: retire_def cur_task_def Let_def)
  note e = remove_task_effect(1) [OF li c4 run s1]
  have "state (tasks s1 (cur s)) \<noteq> TASK_STATE_STOP"
    using ns link_effect_fields(3) [OF e] by (simp add: cur_task_def)
  then have "s' = s1" using False st s1 by (simp add: retire_def cur_task_def)
  then show ?thesis using False e s1 remove_task_inv(2) [OF li c4 run s1] by simp
qed

lemma pick_next_task_same:
  assumes inv: "sched_inv s" and ns: "state (cur_task s) \<noteq> TASK_STATE_STOP"
    and st: "pick_next_task (cpu_id s) s = Inr (cur s, s')"
  shows "state (cur_task s) = TASK_STATE_RUNNING" and "tasks s' = tasks s"
proof -
  let ?c = "cpu_id s"
  have c4: "?c < 4" using inv by (simp add: sched_inv_def lists_inv_def)
  have ok: "kworker_ok s" using ns by (simp add: kworker_ok_def)
  obtain s1 p xs where s1: "retire ?c s = Inr s1" and p: "p = ffs_one_table ! unat (local_rdy_grp (pcpus s1 ?c))" "p \<noteq> - 1"
    and L: "ready_list (pcpus s1 ?c) ! nat p = cur s # xs"
    and s': "s' = list_add_tail_ready ?c (nat p) (cur s) (list_del_state ?c (cur s) s1)"
    using st by (auto simp: pick_next_task_retire Let_def split: if_splits list.splits)
  have li: "lists_inv s1" using retire_inv(1) [OF inv ok s1] by (simp add: kinv_def)
  note wf = pcpu_wf_of [OF li c4]
  obtain i where i: "i < 8" "p = int i" using rdy_grp_lowest [OF wf] p by metis
  have L': "ready_list (pcpus s1 ?c) ! i = cur s # xs" using L i by simp
  have "cur s \<in> set (state_tasks (pcpus s1 ?c))"
    using L' nth_subset_concat [of i "ready_list (pcpus s1 ?c)"] pcpu_wfD(2) [OF wf] i(1)
    by (auto simp: state_tasks_def simp del: set_concat)
  then have "state_linked (tasks s1 (cur s))" using pcpu_wfD(8) [OF wf] by simp
  then have run: "task_is_running (cur_task s)" and eq: "s1 = s"
    using retire_not_stop [OF inv ns s1] by (auto split: if_splits)
  show "state (cur_task s) = TASK_STATE_RUNNING" using run by (simp add: task_is_running_def)
  show "tasks s' = tasks s" using rotate_inv(7) [OF li c4 i(1) L'] s' i(2) eq by (simp add: fun_eq_iff)
qed

section \<open>Switching\<close>

lemma switch_to_task_inv:
  assumes k: "kinv False s" and n: "on_ready_list (cpu_id s) s next" and st: "switch_to_task old next s = Inr s'"
  shows "sched_inv s'" and "state (cur_task s') = TASK_STATE_RUNNING" and "cur s' = next" and "cpu_id s' = cpu_id s"
proof -
  let ?c = "cpu_id s"
  obtain s1 where s1: "(if state (tasks s old) = TASK_STATE_WAIT_EVENT \<and> delay (tasks s old) > 0
             then setup_and_start_timer (cpu_id s) (Delay_timer old) (MILLISECS (ucast (delay (tasks s old)))) s
             else if state (tasks s old) = TASK_STATE_RUNNING
             then Inr (upd_task old (\<lambda>x. x\<lparr>state := TASK_STATE_READY\<rparr>) s)
             else Inr s) = Inr s1"
    using st by (auto simp: switch_to_task_def Let_def)
  have v1: "same_view s s1"
    using s1 by (auto split: if_splits intro: same_view_kernel dest: same_kernel_start simp: sched_view_def)
  define s2 where "s2 = upd_task old (\<lambda>x. x\<lparr>last_cpu := cpu x, run_time := TASK_RUN_TIME, cpu := - 1\<rparr>) s1"
  define s3 where "s3 = upd_task next (\<lambda>x. x\<lparr>state := TASK_STATE_RUNNING,
                        ti_flags := ti_flags x AND NOT (tif_bit TIF_TICK_EXHAUST),
                        cpu := int (pcpu_id (get_pcpu s2))\<rparr>) s2"
  have v2: "same_view s s2" using v1 by (simp add: s2_def sched_view_def)
  have s': "s' = upd_task next (\<lambda>x. x\<lparr>ctx_sw_cnt := ctx_sw_cnt x + 1, wait_event := 0, start_ns := clock s\<rparr>)
        (upd_pcpu (cpu_id s3) (\<lambda>x. x\<lparr>running_task := next\<rparr>) s3)"
    using st s1 unfolding switch_to_task_def Let_def s3_def s2_def by auto
  have c': "cpu_id s3 = ?c" using v2 by (simp add: s3_def same_view_def)
  have p': "pcpus s' d = (if d = ?c then (pcpus s2 d)\<lparr>running_task := next\<rparr> else pcpus s2 d)" for d
    by (simp add: s' c') (simp add: s3_def)
  show "cpu_id s' = ?c" by (simp add: s' c')
  then show "cur s' = next" by (simp add: cur_def p')
  then show "state (cur_task s') = TASK_STATE_RUNNING" by (simp add: cur_task_def s' s3_def)
  have T: "prio (tasks s' u) = prio (tasks s u)" "affinity (tasks s' u) = affinity (tasks s u)"
    "state_linked (tasks s' u) = state_linked (tasks s u)" "home_cpu (tasks s' u) = home_cpu (tasks s u)" for u
    using v2 by (auto simp: s' s3_def same_view_def sched_view_eq home_cpu_def)
  have P: "ready_list (pcpus s' d) = ready_list (pcpus s d)" "state_tasks (pcpus s' d) = state_tasks (pcpus s d)"
    "pcpu_id (pcpus s' d) = pcpu_id (pcpus s d)" "tasks_in_prio (pcpus s' d) = tasks_in_prio (pcpus s d)"
    "local_rdy_grp (pcpus s' d) = local_rdy_grp (pcpus s d)"
    "running_task (pcpus s' d) = (if d = ?c then next else running_task (pcpus s d))" for d
    using v2 unfolding p' by (auto simp: same_view_def pcpu_view_eq state_tasks_def)
  have "lists_inv s'"
    using k \<open>cpu_id s' = ?c\<close> unfolding kinv_def lists_inv_def pcpu_wf_def task_ok_def T P by simp
  moreover have "on_ready_list d s' (running_task (pcpus s' d))" if "d < 4" for d
    using k n that by (auto simp: kinv_def on_ready_list_def T P)
  ultimately show "sched_inv s'" by (simp add: sched_inv_def)
qed

lemma sched_update_inv: "sched_update_sched_timer s = Inr s' \<Longrightarrow> same_view s s'"
  by (intro same_view_kernel same_kernel_sched_timer)

lemma kinv_cur: "kinv False s \<Longrightarrow> on_ready_list (cpu_id s) s (cur s) \<Longrightarrow> sched_inv s"
  by (auto simp: kinv_def sched_inv_def cur_def)

lemma kworker_ok_view:
  assumes "same_view s s'" and "flag_grps s' = flag_grps s"
  shows "kworker_ok s' = kworker_ok s"
  using assms same_view_cur [OF assms(1)] by (simp add: kworker_ok_def same_view_def sched_view_eq cur_task_def)

lemma exception_return_inner_inv:
  assumes inv: "sched_inv s" and ok: "kworker_ok s" and st: "exception_return_inner s = Inr (r, s')"
  shows "sched_inv s'" and "r = 0 \<Longrightarrow> state (cur_task s') = TASK_STATE_RUNNING"
    and "r \<noteq> 0 \<Longrightarrow> runs s' = runs s"
proof -
  let ?ra = "\<lambda>s. upd_task (cur s) (\<lambda>t. t\<lparr>ti_flags := ti_flags t AND NOT (tif_bit TIF_TICK_EXHAUST)\<rparr>) s"
  have ra: "same_view s (?ra s)" for s by (simp add: sched_view_def)
  have v: "same_view s (clear_need_resched s)" by simp
  have inv': "sched_inv (clear_need_resched s)" using sched_inv_view [OF v] inv by simp
  have ok': "kworker_ok (clear_need_resched s)"
    using ok kworker_ok_view [OF v] by (simp add: clear_need_resched_def)
  have cid: "cpu_id (clear_need_resched s) = cpu_id s" by (simp add: clear_need_resched_def)
  consider "s' = ?ra s" "r \<noteq> 0"
    | "next" s1 where "pick_next_task (cpu_id s) (clear_need_resched s) = Inr (next, s1)" "next = cur s"
        "s' = upd_task (cur s) (\<lambda>t. t\<lparr>ti_flags := ti_flags t AND NOT (tif_bit TIF_TICK_EXHAUST)\<rparr>) s1" "r \<noteq> 0"
    | "next" s1 where "pick_next_task (cpu_id s) (clear_need_resched s) = Inr (next, s1)" "next \<noteq> cur s"
        "switch_to_task (cur s) next s1 = Inr s'" "r = 0"
    using st by (auto simp: exception_return_inner_def Let_def split: if_splits)
  then have "sched_inv s' \<and> (r = 0 \<longrightarrow> state (cur_task s') = TASK_STATE_RUNNING) \<and> (r \<noteq> 0 \<longrightarrow> runs s' = runs s)"
  proof cases
    case 1
    then show ?thesis using sched_inv_view [OF ra] same_view_runs [OF ra] inv by simp
  next
    case 2
    note p = pick_next_task_inv [OF inv' ok', unfolded cid, OF 2(1)]
    have r: "runs s1 = runs s" using p(2) same_view_runs [OF v] by simp
    then have c: "cpu_id s1 = cpu_id s" "cur s1 = cur s" by (auto simp: runs_def cur_def fun_eq_iff)
    then have "sched_inv s1" using kinv_cur [OF p(1)] p(3) 2(2) by simp
    moreover have "same_view s1 s'" using 2(3) by (simp add: sched_view_def)
    ultimately show ?thesis using sched_inv_view same_view_runs r 2(4) by metis
  next
    case 3
    note p = pick_next_task_inv [OF inv' ok', unfolded cid, OF 3(1)]
    have "cpu_id s1 = cpu_id s" using p(2) same_view_runs [OF v] by (simp add: runs_def)
    then show ?thesis using switch_to_task_inv [OF p(1) _ 3(3)] p(3) 3(4) by simp
  qed
  then show "sched_inv s'" "r = 0 \<Longrightarrow> state (cur_task s') = TASK_STATE_RUNNING" "r \<noteq> 0 \<Longrightarrow> runs s' = runs s"
    by simp_all
qed

lemma exception_return_handler_inv:
  assumes "sched_inv s" and "kworker_ok s" and "exception_return_handler s = Inr s'"
  shows "sched_inv s'"
proof -
  obtain r s1 where s1: "exception_return_inner s = Inr (r, s1)" "s' = s1 \<or> sched_update_sched_timer s1 = Inr s'"
    using assms(3) by (auto simp: exception_return_handler_def split: if_splits)
  then have "same_view s1 s'" using sched_update_inv by auto
  with exception_return_inner_inv(1) [OF assms(1,2) s1(1)] sched_inv_view show ?thesis by blast
qed

lemma exception_return_inner_state:
  assumes inv: "sched_inv s" and ns: "state (cur_task s) \<noteq> TASK_STATE_STOP" and st: "exception_return_inner s = Inr (r, s')"
  shows "state (cur_task s') \<noteq> TASK_STATE_STOP"
proof (cases "r = 0")
  case True
  have "kworker_ok s" using ns by (simp add: kworker_ok_def)
  with exception_return_inner_inv(2) [OF inv _ st] True show ?thesis by simp
next
  case False
  let ?k = "clear_need_resched s"
  have v: "same_view s ?k" by simp
  have cid: "cpu_id ?k = cpu_id s" "cur ?k = cur s" by (simp_all add: clear_need_resched_def)
  have inv': "sched_inv ?k" and ns': "state (cur_task ?k) \<noteq> TASK_STATE_STOP"
    using inv sched_inv_view [OF v] ns v by (auto simp: same_view_def sched_view_eq cur_task_def cid)
  have "cur s' = cur s"
    using exception_return_inner_inv(3) [OF inv _ st False] ns
    by (simp add: kworker_ok_def runs_def cur_def fun_eq_iff)
  moreover have "state (tasks s' (cur s)) = state (tasks s (cur s))"
  proof -
    consider "s' = upd_task (cur s) (\<lambda>t. t\<lparr>ti_flags := ti_flags t AND NOT (tif_bit TIF_TICK_EXHAUST)\<rparr>) s"
      | s1 where "pick_next_task (cpu_id s) ?k = Inr (cur s, s1)"
          "s' = upd_task (cur s) (\<lambda>t. t\<lparr>ti_flags := ti_flags t AND NOT (tif_bit TIF_TICK_EXHAUST)\<rparr>) s1"
      using st False by (auto simp: exception_return_inner_def Let_def split: if_splits)
    then show ?thesis
    proof cases
      case 2
      from pick_next_task_same(2) [OF inv' ns', unfolded cid, OF 2(1)] 2(2) show ?thesis
        by (simp add: clear_need_resched_def)
    qed simp
  qed
  ultimately show ?thesis using ns by (simp add: cur_task_def)
qed

lemma sys_sched_inv:
  assumes inv: "sched_inv s" and ok: "kworker_ok s" and st: "sys_sched s = Inr s'"
  shows "sched_inv s'"
    and "state (cur_task s) \<noteq> TASK_STATE_STOP \<Longrightarrow> state (cur_task s') \<noteq> TASK_STATE_STOP"
proof -
  define s1 where "s1 = set_irqs_off True (upd_task (cur s) (\<lambda>x. x\<lparr>saved_irqs_off := irq_disabled s\<rparr>) s)"
  obtain r s2 s3 where s2: "exception_return_inner s1 = Inr (r, s2)" "s3 = s2 \<or> sched_update_sched_timer s2 = Inr s3"
    and s': "s' = set_irqs_off (saved_irqs_off (cur_task s3)) s3"
    using st unfolding sys_sched_def arch_sys_sched_def exception_return_handler_def Let_def s1_def
    by (auto split: if_splits)
  have v: "same_view s s1" by (simp add: s1_def sched_view_def)
  have inv1: "sched_inv s1" using inv sched_inv_view [OF v] by simp
  have ok1: "kworker_ok s1" using ok kworker_ok_view [OF v] by (simp add: s1_def set_irqs_off_def)
  have v2: "same_view s2 s'" using s2(2) sched_update_inv s' by (auto simp: same_view_trans)
  show "sched_inv s'" using exception_return_inner_inv(1) [OF inv1 ok1 s2(1)] sched_inv_view [OF v2] by simp
  show "state (cur_task s') \<noteq> TASK_STATE_STOP" if "state (cur_task s) \<noteq> TASK_STATE_STOP"
  proof -
    have "state (cur_task s1) \<noteq> TASK_STATE_STOP"
      using that v same_view_cur [OF v] by (simp add: same_view_def sched_view_eq cur_task_def)
    from exception_return_inner_state [OF inv1 this s2(1)] show ?thesis
      using v2 same_view_cur [OF v2] by (simp add: same_view_def sched_view_eq cur_task_def)
  qed
qed

lemma sched_sched_inv:
  assumes inv: "sched_inv s" and ok: "kworker_ok s" and st: "sched s = Inr s'"
  shows "sched_inv s'"
    and "state (cur_task s) \<noteq> TASK_STATE_STOP \<Longrightarrow> state (cur_task s') \<noteq> TASK_STATE_STOP"
proof -
  let ?k = "clear_do_not_preempt (set_need_resched s)"
  have v: "same_view s ?k" by simp
  have f: "flag_grps ?k = flag_grps s" by (simp add: clear_do_not_preempt_def)
  have sy: "sys_sched ?k = Inr s'" using st by (auto simp: sched_def Let_def split: if_splits)
  have inv': "sched_inv ?k" and ok': "kworker_ok ?k"
    using inv ok sched_inv_view [OF v] kworker_ok_view [OF v f] by simp_all
  show "sched_inv s'" using sys_sched_inv(1) [OF inv' ok' sy] .
  show "state (cur_task s') \<noteq> TASK_STATE_STOP" if "state (cur_task s) \<noteq> TASK_STATE_STOP"
    using sys_sched_inv(2) [OF inv' ok' sy] that v same_view_cur [OF v]
    by (simp add: same_view_def sched_view_eq cur_task_def)
qed

text \<open>\<^verbatim>\<open>sched\<close> is a rescheduling function the other operations may use.\<close>

lemma rs_ok_sched: "rs_ok sched"
proof -
  have "sched_inv s' \<and> state (cur_task s') \<noteq> TASK_STATE_STOP"
    if "sched_inv s" "state (cur_task s) \<noteq> TASK_STATE_STOP" "sched s = Inr s'" for s s'
  proof -
    have "kworker_ok s" using that(2) by (simp add: kworker_ok_def)
    from sched_sched_inv [OF that(1) this that(3)] that(2) show ?thesis by simp
  qed
  then show ?thesis unfolding rs_ok_def by blast
qed

lemma wake_ctx_sched: "sched_inv s \<Longrightarrow> state (cur_task s) \<noteq> TASK_STATE_STOP \<Longrightarrow> wake_ctx None sched t s"
  by (simp add: wake_ctx_def kinv_True rs_ok_sched)

lemma wake_ctx_schedD: "wake_ctx None rs t s \<Longrightarrow> sched_inv s \<and> state (cur_task s) \<noteq> TASK_STATE_STOP"
  by (simp add: wake_ctx_def kinv_True)

section \<open>Inter-processor work\<close>

lemma list_del_new_inv:
  assumes inv: "lists_inv s" and c: "c < 4" and nl: "new_list (pcpus s c) = t # ts"
  defines "s' \<equiv> list_del_state c t s"
  shows "lists_inv s'" and "new_list (pcpus s' c) = ts" and "\<not> state_linked (tasks s' t)"
    and "home_cpu (tasks s' t) = c"
    and "\<And>u. sched_view (tasks s' u) = (if u = t then sched_view ((tasks s t)\<lparr>state_linked := False\<rparr>) else sched_view (tasks s u))"
    and "\<And>d u. on_ready_list d s' u = on_ready_list d s u" and "runs s' = runs s"
    and "\<And>u. state (tasks s' u) = state (tasks s u)"
proof -
  note wf = pcpu_wf_of [OF inv]
  have tin: "t \<in> set (state_tasks (pcpus s c))" using nl by (simp add: state_tasks_def)
  have d: "distinct (state_tasks (pcpus s c))" using pcpu_wfD(4) [OF wf [OF c]] .
  have nin: "t \<notin> set (concat (ready_list (pcpus s c)))" "t \<notin> set (stop_list (pcpus s c))" "t \<notin> set ts"
    using d nl by (auto simp: state_tasks_def simp del: set_concat)
  have "map (remove1 t) (ready_list (pcpus s c)) = ready_list (pcpus s c)"
    using nin(1) by (intro map_idI) (auto simp: remove1_idem)
  then have q: "map_state_lists (remove1 t) (pcpus s c) = (pcpus s c)\<lparr>new_list := ts\<rparr>"
    using nin nl by (simp add: map_state_lists_def remove1_idem)
  have P: "pcpus s' d = (if d = c then (pcpus s c)\<lparr>new_list := ts\<rparr> else pcpus s d)" "cpu_id s' = cpu_id s" for d
    using q by (simp_all add: s'_def list_del_state_def)
  have T: "tasks s' u = (if u = t then (tasks s t)\<lparr>state_linked := False\<rparr> else tasks s u)" for u
    by (simp add: s'_def list_del_state_def)
  have F: "prio (tasks s' u) = prio (tasks s u)" "home_cpu (tasks s' u) = home_cpu (tasks s u)"
    "affinity (tasks s' u) = affinity (tasks s u)"
    "state_linked (tasks s' u) = (u \<noteq> t \<and> state_linked (tasks s u))" for u
    by (simp_all add: T home_cpu_def)
  show "new_list (pcpus s' c) = ts" by (simp add: P)
  show "\<not> state_linked (tasks s' t)" by (simp add: F)
  have home: "home_cpu (tasks s t) = c" using pcpu_wfD(8) [OF wf [OF c] tin] by simp
  then show "home_cpu (tasks s' t) = c" by (simp add: F)
  show "\<And>u. sched_view (tasks s' u) = (if u = t then sched_view ((tasks s t)\<lparr>state_linked := False\<rparr>) else sched_view (tasks s u))"
    by (simp add: T)
  show "\<And>d u. on_ready_list d s' u = on_ready_list d s u" by (simp add: on_ready_list_def P F)
  show "runs s' = runs s" by (simp add: runs_def P fun_eq_iff)
  show "\<And>u. state (tasks s' u) = state (tasks s u)" by (simp add: T)
  let ?q = "(pcpus s c)\<lparr>new_list := ts\<rparr>"
  have st: "set (state_tasks ?q) = set (state_tasks (pcpus s c)) - {t}" "distinct (state_tasks ?q)"
    using d nl nin by (auto simp: state_tasks_def simp del: set_concat)
  have wfs: "pcpu_wf (tasks s') d (pcpus s' d)" if "d < 4" for d
  proof (cases "d = c")
    case True
    have "pcpu_wf (tasks s') c ?q"
      unfolding pcpu_wf_def F using pcpu_wfD [OF wf [OF c]] st by auto
    then show ?thesis using True by (simp add: P)
  next
    case False
    have "t \<notin> set (state_tasks (pcpus s d))" using pcpu_wfD(8) [OF wf [OF that], of t] home False by auto
    then have "pcpu_wf (tasks s') d (pcpus s d)"
      unfolding pcpu_wf_def F using pcpu_wfD [OF wf [OF that]] by auto
    then show ?thesis using False by (simp add: P)
  qed
  have "u \<in> set (state_tasks (pcpus s' (home_cpu (tasks s' u))))" if "state_linked (tasks s' u)" for u
    using that inv st(1) unfolding F P(1) by (auto simp: lists_inv_def)
  then show "lists_inv s'"
    using inv wfs F P by (simp add: lists_inv_def task_ok_def)
qed

lemma same_view_inv:
  "same_view s s' \<Longrightarrow> sched_inv s \<Longrightarrow> sched_inv s'"
  using sched_inv_view by blast

lemma sched_inv_cong:
  assumes "\<And>u. prio (tasks s' u) = prio (tasks s u)" and "\<And>u. affinity (tasks s' u) = affinity (tasks s u)"
    and "\<And>u. state_linked (tasks s' u) = state_linked (tasks s u)" and "pcpus s' = pcpus s" and "cpu_id s' = cpu_id s"
  shows "sched_inv s' = sched_inv s"
proof -
  have "home_cpu (tasks s' u) = home_cpu (tasks s u)" "task_ok (tasks s' u) = task_ok (tasks s u)" for u
    by (simp_all add: home_cpu_def task_ok_def assms(1,2))
  then show ?thesis
    unfolding sched_inv_def lists_inv_def pcpu_wf_def on_ready_list_def by (simp only: assms)
qed

lemma irqwork_task_inv:
  assumes inv: "sched_inv s" and nl: "new_list (pcpus s (cpu_id s)) = t # ts" and st: "irqwork_task (cpu_id s) t s = Inr (r, s')"
  shows "sched_inv s'" and "new_list (pcpus s' (cpu_id s)) = ts" and "cpu_id s' = cpu_id s"
proof -
  let ?c = "cpu_id s"
  define s1 where "s1 = list_del_state ?c t s"
  have li: "lists_inv s" and c4: "?c < 4" using inv by (auto simp: sched_inv_def lists_inv_def)
  note d = list_del_new_inv [OF li c4 nl, folded s1_def]
  have c1: "cpu_id s1 = ?c" "cur s1 = cur s" using d(7) by (auto simp: runs_def cur_def fun_eq_iff)
  have run1: "running_task (pcpus s1 x) = running_task (pcpus s x)" for x using d(7) by (auto simp: runs_def fun_eq_iff)
  have inv1: "sched_inv s1" using inv d(1,6) run1 by (simp add: sched_inv_def)
  have "sched_inv s' \<and> new_list (pcpus s' ?c) = ts \<and> cpu_id s' = ?c"
  proof (cases "state (tasks s1 t) = TASK_STATE_RUNNING")
    case True
    then show ?thesis using st inv1 d(2) c1 by (simp add: irqwork_task_def flip: s1_def)
  next
    case False
    define s2 where "s2 = task_clear_resched t s1"
    obtain s3 where s3: "add_task_to_ready_list ?c t (task_need_resched t s1 \<noteq> 0) s2 = Inr s3"
      and k: "same_kernel (upd_task t (\<lambda>x. x\<lparr>state := TASK_STATE_READY\<rparr>) s3) s' \<or>
         (\<exists>s4. same_kernel (upd_task t (\<lambda>x. x\<lparr>state := TASK_STATE_READY\<rparr>) s3) s4 \<and> s' = upd_task t (\<lambda>x. x\<lparr>delay := 0\<rparr>) s4)"
      using st False unfolding irqwork_task_def Let_def s1_def [symmetric] s2_def [symmetric]
      by (auto split: if_splits dest: same_kernel_stop)
    have v2: "same_view s1 s2" by (simp add: s2_def)
    have inv2: "sched_inv s2" using same_view_inv [OF v2 inv1] .
    have li2: "lists_inv s2" and c2: "cpu_id s2 = ?c" "cur s2 = cur s" and run2: "on_ready_list ?c s2 (cur s2)"
      using inv2 c1 v2 same_view_cur [OF v2] c4 by (auto simp: sched_inv_def same_view_def cur_def)
    have "sched_view (tasks s2 t) = sched_view (tasks s1 t)" using v2 unfolding same_view_def by blast
    then have h2: "home_cpu (tasks s2 t) = ?c" using d(4) home_cpu_view [of "tasks s2 t" "tasks s1 t"] by simp
    note a = add_task_inv [OF li2 c2(1) run2 h2 s3]
    have len: "prio (tasks s2 t) < length (ready_list (pcpus s2 ?c))" and ds: "distinct (state_tasks (pcpus s2 ?c))"
      using pcpu_wfD(2,4) [OF pcpu_wf_of [OF li2 c4]] prio_less [OF li2] by simp_all
    note e = add_task_effect [OF ds refl len c2(1) run2 s3]
    note f = link_effect_fields [OF e(2)]
    have run3: "running_task (pcpus s3 x) = running_task (pcpus s2 x)" for x using e(2) by (simp add: link_effect_def)
    have "on_ready_list x s3 (running_task (pcpus s3 x))" if "x < 4" for x
      using inv2 that a(3) e(4) [of x] f(1) run3 by (cases "x = ?c") (auto simp: sched_inv_def on_ready_list_def)
    then have inv3: "sched_inv s3" using a(1) by (simp add: sched_inv_def)
    have nl3: "new_list (pcpus s3 ?c) = ts" and c3: "cpu_id s3 = ?c"
      using e(3) f c2 d(2) v2 by (auto simp: pcpu_view_eq ready_update_def same_view_def)
    have s'3: "u \<noteq> t \<Longrightarrow> tasks s' u = tasks s3 u" "pcpus s' = pcpus s3" "cpu_id s' = cpu_id s3"
      "prio (tasks s' t) = prio (tasks s3 t)" "affinity (tasks s' t) = affinity (tasks s3 t)"
      "state_linked (tasks s' t) = state_linked (tasks s3 t)" for u
      using k by (auto simp: same_kernel_def)
    have "prio (tasks s' u) = prio (tasks s3 u)" "affinity (tasks s' u) = affinity (tasks s3 u)"
      "state_linked (tasks s' u) = state_linked (tasks s3 u)" for u
      using s'3(1) [of u] s'3(4-6) by (cases "u = t"; simp)+
    then have "sched_inv s'" using sched_inv_cong [of s' s3] inv3 s'3(2,3) by simp
    then show ?thesis using nl3 c3 s'3(2,3) by simp
  qed
  then show "sched_inv s'" "new_list (pcpus s' ?c) = ts" "cpu_id s' = ?c" by simp_all
qed

lemma irqwork_tasks_inv:
  "sched_inv s \<Longrightarrow> irqwork_tasks (cpu_id s) ts p s = Inr (r, s') \<Longrightarrow> new_list (pcpus s (cpu_id s)) = ts \<Longrightarrow>
     sched_inv s' \<and> new_list (pcpus s' (cpu_id s)) = [] \<and> cpu_id s' = cpu_id s"
proof (induction ts arbitrary: p s)
  case (Cons t ts)
  then obtain n s1 where s1: "irqwork_task (cpu_id s) t s = Inr (n, s1)" "irqwork_tasks (cpu_id s) ts (p + n) s1 = Inr (r, s')"
    by auto
  note i = irqwork_task_inv [OF Cons.prems(1,3) s1(1)]
  from Cons.IH [OF i(1)] s1(2) i show ?case by simp
qed simp

lemma irqwork_handler_inv:
  assumes inv: "sched_inv s" and st: "irqwork_handler s = Inr s'"
  shows "sched_inv s'" and "new_list (pcpus s' (cpu_id s)) = []"
proof -
  let ?c = "cpu_id s"
  obtain s1 p s2 where s1: "raw_spin_lock (Pcpu_lock ?c) s = Inr s1"
    and s2: "irqwork_tasks ?c (new_list (pcpus s1 ?c)) 0 s1 = Inr (p, s2)"
    and s': "s' = (let s = raw_spin_unlock (Pcpu_lock ?c) s2
              in if p \<noteq> 0 \<or> task_is_idle (cur_task s) then set_need_resched s else s)"
    using st by (auto simp: irqwork_handler_def Let_def)
  have v: "same_view s s1" and c: "cpu_id s1 = ?c" using s1 by (auto simp: raw_spin_lock_def split: if_splits)
  have i: "sched_inv s2 \<and> new_list (pcpus s2 ?c) = []"
    using irqwork_tasks_inv [OF same_view_inv [OF v inv], of "new_list (pcpus s1 ?c)" 0 p s2] s2 c by simp
  have v2: "same_view s2 s'" by (simp add: s' Let_def)
  show "sched_inv s'" using same_view_inv [OF v2] i by simp
  show "new_list (pcpus s' ?c) = []" using v2 i by (simp add: same_view_def pcpu_view_eq)
qed

end
