(* ===== verification/Sched_Props.thy ===== *)
theory Sched_Props
  imports Sched_Inv
begin

text \<open>
  Properties of the scheduler: the invariant holds in every state reachable by interleaved kernel steps of all
  CPUs, \<^verbatim>\<open>pick_next_task\<close> implements highest priority first with round robin, \<^verbatim>\<open>sched\<close>
  under disabled preemption never returns, waking a task of another CPU hands it over
  through that CPU's \<^verbatim>\<open>new_list\<close>, and two defects of the code.
\<close>

unbundle bit_operations_syntax

section \<open>Kernel steps\<close>



lemma sched_inv_upd_task:
  assumes "sched_inv s" and "prio (f (tasks s t)) = prio (tasks s t)"
    and "affinity (f (tasks s t)) = affinity (tasks s t)" and "state_linked (f (tasks s t)) = state_linked (tasks s t)"
  shows "sched_inv (upd_task t f s)"
  using assms sched_inv_cong [of "upd_task t f s" s] by simp

lemma do_not_preempt_frame [simp]:
  "flag_grps (do_not_preempt s) = flag_grps s" "cur (do_not_preempt s) = cur s" "cpu_id (do_not_preempt s) = cpu_id s"
  "prio (tasks (do_not_preempt s) u) = prio (tasks s u)"
  by (simp_all add: do_not_preempt_def)


section \<open>Picking\<close>

text \<open>The scheduling timer can be stopped: it is idle or its handler is not running.\<close>

definition can_stop :: "tmid \<Rightarrow> kstate \<Rightarrow> bool" where
  "can_stop i s \<longleftrightarrow> tm_cpu (tmr s i) = - 1 \<or> (\<exists>r. tm_raw (tmr s i) = Some r \<and> running_timer (raws s r) \<noteq> Some i)"

lemma can_stop_total: "can_stop i s \<Longrightarrow> \<exists>s'. stop_timer i s = Inr s'"
  by (auto simp: can_stop_def stop_timer_def Let_def)

text \<open>The priority list the next task is taken from, after a blocking current task has left it.\<close>

definition ready_after :: "kstate \<Rightarrow> nat \<Rightarrow> nat list" where
  "ready_after s i =
     (let L = ready_list (get_pcpu s) ! i in
      if task_is_running (cur_task s) then L else remove1 (cur s) L)"

lemma remove_total:
  assumes inv: "sched_inv s" and stop: "can_stop (Sched_timer (cpu_id s)) s"
  shows "\<exists>s'. remove_task_from_ready_list (cpu_id s) (cur s) s = Inr s'"
proof -
  let ?c = "cpu_id s"
  let ?p = "prio (tasks s (cur s))"
  have li: "lists_inv s" and c4: "?c < 4" and run: "on_ready_list ?c s (cur s)"
    using inv by (auto simp: sched_inv_def lists_inv_def cur_def)
  note wf = pcpu_wf_of [OF li c4]
  have len: "?p < length (ready_list (pcpus s ?c))" using pcpu_wfD(2) [OF wf] prio_less [OF li] by simp
  have linked: "state_linked (tasks s (cur s))"
    using run nth_subset_concat [OF len] pcpu_wfD(8) [OF wf]
    by (auto simp: on_ready_list_def state_tasks_def simp del: set_concat)
  define s1 where "s1 = list_del_state ?c (cur s) s"
  define s2 where "s2 = (if ready_list (pcpus s1 ?c) ! ?p = []
             then upd_pcpu ?c (\<lambda>x. x\<lparr>local_rdy_grp := local_rdy_grp x AND NOT (push_bit ?p 1)\<rparr>) s1 else s1)"
  define s3 where "s3 = upd_pcpu ?c (\<lambda>x. x\<lparr>tasks_in_prio := (tasks_in_prio x)[?p := tasks_in_prio x ! ?p - 1]\<rparr>) s2"
  have fr: "tmr s3 = tmr s" "raws s3 = raws s" "cpu_id s3 = ?c" "cur s3 = cur s" "prio (tasks s3 u) = prio (tasks s u)" for u
    by (simp_all add: s3_def s2_def s1_def list_del_state_def set_state_linked_def cur_def)
  have eq: "remove_task_from_ready_list ?c (cur s) s =
      (if prio (cur_task s3) = ?p \<and> tasks_in_prio (pcpus s3 ?c) ! ?p = 1 then sched_update_sched_timer s3 else Inr s3)"
    using linked unfolding remove_task_from_ready_list_def Let_def s1_def [symmetric] s2_def [symmetric] s3_def [symmetric] by simp
  show ?thesis
  proof (cases "prio (cur_task s3) = ?p \<and> tasks_in_prio (pcpus s3 ?c) ! ?p = 1")
    case True
    then have "sched_update_sched_timer s3 = stop_timer (Sched_timer ?c) s3"
      by (simp add: sched_update_sched_timer_def get_pcpu_def fr)
    moreover have "can_stop (Sched_timer ?c) s3" using stop by (simp add: can_stop_def fr)
    ultimately show ?thesis using eq True can_stop_total by metis
  qed (use eq in auto)
qed

lemma ready_after_retire:
  assumes inv: "sched_inv s" and ns: "state (cur_task s) \<noteq> TASK_STATE_STOP" and st: "retire (cpu_id s) s = Inr s1" and i: "i < 8"
  shows "ready_list (pcpus s1 (cpu_id s)) ! i = ready_after s i"
proof (cases "task_is_running (cur_task s)")
  case True
  then show ?thesis using retire_not_stop [OF inv ns st] by (simp add: ready_after_def get_pcpu_def)
next
  case False
  let ?c = "cpu_id s"
  let ?p = "prio (tasks s (cur s))"
  have li: "lists_inv s" and c4: "?c < 4" and run: "on_ready_list ?c s (cur s)"
    using inv by (auto simp: sched_inv_def lists_inv_def cur_def)
  note wf = pcpu_wf_of [OF li c4]
  have rm: "remove_task_from_ready_list ?c (cur s) s = Inr s1" using False retire_not_stop [OF inv ns st] by simp
  have "ready_list (pcpus s1 ?c) = (ready_list (pcpus s ?c))[?p := remove1 (cur s) (ready_list (pcpus s ?c) ! ?p)]"
    using remove_task_effect(2) [OF li c4 run rm] by (simp add: pcpu_view_eq ready_update_def)
  moreover have "cur s \<notin> set (ready_list (pcpus s ?c) ! i)" if "i \<noteq> ?p"
    using that pcpu_wfD(5) [OF wf i, of "cur s"] by auto
  ultimately show ?thesis
    using False i pcpu_wfD(2) [OF wf] by (cases "i = ?p") (auto simp: ready_after_def get_pcpu_def remove1_idem Let_def)
qed

lemma pick_next_task_total:
  assumes inv: "sched_inv s" and st: "state (cur_task s) \<notin> {TASK_STATE_READY, TASK_STATE_STOP}"
    and stop: "can_stop (Sched_timer (cpu_id s)) s" and some: "i < 8" "ready_after s i \<noteq> []"
    and low: "\<forall>j<i. ready_after s j = []"
  shows "\<exists>s'. pick_next_task (cpu_id s) s = Inr (hd (ready_after s i), s') \<and>
           ready_list (pcpus s' (cpu_id s)) ! i = rotate1 (ready_after s i) \<and>
           (\<forall>j<8. j \<noteq> i \<longrightarrow> ready_list (pcpus s' (cpu_id s)) ! j = ready_after s j)"
proof -
  let ?c = "cpu_id s"
  have c4: "?c < 4" using inv by (simp add: sched_inv_def lists_inv_def)
  have ns: "state (cur_task s) \<noteq> TASK_STATE_STOP" using st by simp
  then have ok: "kworker_ok s" by (simp add: kworker_ok_def)
  obtain s1 where s1: "retire ?c s = Inr s1"
  proof (cases "task_is_running (cur_task s)")
    case True
    then show ?thesis using that by (simp add: retire_def cur_task_def)
  next
    case False
    obtain s2 where s2: "remove_task_from_ready_list ?c (cur s) s = Inr s2" using remove_total [OF inv stop] by blast
    have "lists_inv s" "on_ready_list ?c s (cur s)" using inv c4 by (auto simp: sched_inv_def cur_def)
    from link_effect_fields(3) [OF remove_task_effect(1) [OF this(1) c4 this(2) s2]]
    have "state (tasks s2 (cur s)) \<noteq> TASK_STATE_STOP" using ns by (simp add: cur_task_def)
    then show ?thesis using that [of s2] False s2 by (simp add: retire_def cur_task_def)
  qed
  note rl = ready_after_retire [OF inv ns s1]
  have li: "lists_inv s1" using retire_inv(1) [OF inv ok s1] by (simp add: kinv_def)
  note wf = pcpu_wf_of [OF li c4]
  define q where "q = ffs_one_table ! unat (local_rdy_grp (pcpus s1 ?c))"
  have "bit (local_rdy_grp (pcpus s1 ?c)) i" using pcpu_wfD(6) [OF wf some(1)] rl [OF some(1)] some(2) by simp
  then have nz: "unat (local_rdy_grp (pcpus s1 ?c)) \<noteq> 0" by (auto simp: unat_eq_zero)
  then have "q \<noteq> - 1"
    using ffs_one_table_lowest [of "unat (local_rdy_grp (pcpus s1 ?c))"] unat_bounds(1) [of "local_rdy_grp (pcpus s1 ?c)"]
    by (auto simp: q_def)
  then obtain k where k: "k < 8" "q = int k" "ready_list (pcpus s1 ?c) ! k \<noteq> []" "\<forall>j<k. ready_list (pcpus s1 ?c) ! j = []"
    using rdy_grp_lowest [OF wf, of q] q_def by auto
  have "k = i"
  proof (rule linorder_cases [of k i])
    assume "k < i" then show ?thesis using low k(3) rl [OF k(1)] by simp
  next
    assume "i < k" then show ?thesis using k(4) rl [OF some(1)] some(2) by simp
  qed
  then have L: "ready_list (pcpus s1 ?c) ! i = hd (ready_after s i) # tl (ready_after s i)" using rl [OF some(1)] some(2) by simp
  let ?n = "hd (ready_after s i)"
  let ?s' = "list_add_tail_ready ?c i ?n (list_del_state ?c ?n s1)"
  have "pick_next_task ?c s = Inr (?n, ?s')"
    using st s1 L k(2) \<open>k = i\<close> \<open>q \<noteq> - 1\<close> by (simp add: pick_next_task_retire Let_def flip: q_def)
  moreover have "ready_list (pcpus ?s' ?c) = (ready_list (pcpus s1 ?c))[i := tl (ready_after s i) @ [?n]]"
    using rotate_inv(2) [OF li c4 some(1) L] .
  moreover have "i < length (ready_list (pcpus s1 ?c))" using pcpu_wfD(2) [OF wf] some(1) by simp
  moreover have "rotate1 (ready_after s i) = tl (ready_after s i) @ [?n]" using some(2) by (cases "ready_after s i") auto
  ultimately show ?thesis using rl by (intro exI [of _ ?s']) simp
qed

section \<open>The loop of sched\<close>

lemma upd_task_idle: "f (tasks s t) = tasks s t \<Longrightarrow> upd_task t f s = s"
  by (simp add: upd_task_def fun_upd_idem)

lemma upd_pcpu_idle: "f (pcpus s c) = pcpus s c \<Longrightarrow> upd_pcpu c f s = s"
  by (simp add: upd_pcpu_def fun_upd_idem)

lemma and_not_tif_idle: "n < 64 \<Longrightarrow> \<not> bit w n \<Longrightarrow> w AND NOT (tif_bit n) = w"
  by (rule bit_word_eqI) (auto simp: tif_bits)

text \<open>A state in which the supervisor call returns to the caller with nothing changed.\<close>

lemma sys_sched_fixpoint:
  assumes "preempt_count (cur_task s) > 0" and "\<not> irq_disabled s" and "\<not> in_interrupt s"
    and "\<not> bit (ti_flags (cur_task s)) TIF_TICK_EXHAUST" and "\<not> saved_irqs_off (cur_task s)"
  shows "sys_sched s = Inr s"
proof -
  have 1: "upd_task (cur s) (\<lambda>x. x\<lparr>saved_irqs_off := irq_disabled s\<rparr>) s = s"
    using assms by (intro upd_task_idle) (simp add: cur_task_def)
  let ?k = "set_irqs_off True s"
  have k: "cur ?k = cur s" "tasks ?k = tasks s" by (simp_all add: set_irqs_off_def upd_pcpu_def cur_def)
  have "upd_task (cur s) (\<lambda>t. t\<lparr>ti_flags := ti_flags t AND NOT (tif_bit TIF_TICK_EXHAUST)\<rparr>) ?k = ?k"
    using assms k by (intro upd_task_idle) (simp add: and_not_tif_idle cur_task_def)
  then have 2: "exception_return_inner ?k = Inr (- EACCES, ?k)"
    using assms k by (simp add: exception_return_inner_def Let_def cur_task_def and_tif_bit)
  have "set_irqs_off False ?k = s"
    using assms(2) by (simp add: set_irqs_off_def upd_pcpu_def irq_disabled_def get_pcpu_def fun_upd_idem)
  then show ?thesis
    using assms 1 2 k by (simp add: sys_sched_def arch_sys_sched_def exception_return_handler_def cur_task_def)
qed

lemma sched_stuck:
  assumes "preempt_count (cur_task s) > 0" and "\<not> irq_disabled s" and "\<not> in_interrupt s"
    and "\<not> bit (ti_flags (cur_task s)) TIF_TICK_EXHAUST"
  shows "\<exists>s1. sys_sched (clear_do_not_preempt (set_need_resched s)) = Inr s1 \<and> need_resched s1 \<and> cur s1 = cur s \<and>
           sys_sched s1 = Inr s1 \<and> sched s = Inl Spinning"
proof -
  define s0 where "s0 = clear_do_not_preempt (set_need_resched s)"
  define s1 where "s1 = upd_task (cur s0) (\<lambda>x. x\<lparr>saved_irqs_off := False\<rparr>) s0"
  have c: "cur s0 = cur s" "cur s1 = cur s"
    by (simp_all add: s1_def s0_def clear_do_not_preempt_def set_need_resched_def cur_def upd_task_def)
  have p: "pcpus s0 = pcpus s" "pcpus s1 = pcpus s" "cpu_id s0 = cpu_id s" "cpu_id s1 = cpu_id s"
    by (simp_all add: s1_def s0_def clear_do_not_preempt_def set_need_resched_def upd_task_def)
  have f: "ti_flags (cur_task s1) = ti_flags (cur_task s0)" "preempt_count (cur_task s1) = preempt_count (cur_task s)"
    "preempt_count (cur_task s0) = preempt_count (cur_task s)" "\<not> saved_irqs_off (cur_task s1)"
    using c by (simp_all add: s1_def s0_def clear_do_not_preempt_def set_need_resched_def cur_task_def upd_task_def cur_def)
  have g: "ti_flags (cur_task s0) = (ti_flags (cur_task s) OR tif_bit TIF_NEED_RESCHED) AND NOT (tif_bit TIF_DONOT_PREEMPT)"
    by (simp add: s0_def clear_do_not_preempt_def set_need_resched_def cur_task_def upd_task_def cur_def)
  have b: "bit (ti_flags (cur_task s0)) n \<longleftrightarrow> (bit (ti_flags (cur_task s)) n \<or> n = 0) \<and> n \<noteq> 2" for n
    by (simp only: g tif_bits)
  have ni: "in_interrupt k \<longleftrightarrow> bit (ti_flags (cur_task k)) 8 \<or> bit (ti_flags (cur_task k)) 9" for k
    using and_tif_bit [of 8 "ti_flags (cur_task k)"] and_tif_bit [of 9 "ti_flags (cur_task k)"]
    by (simp add: in_interrupt_def bit.conj_disj_distrib or_eq_0_iff)
  have i: "\<not> in_interrupt s1" "\<not> in_interrupt s0" using assms(3) f(1) b by (simp_all add: ni)
  have q: "\<not> irq_disabled s0" "\<not> irq_disabled s1" using assms(2) p by (simp_all add: irq_disabled_def get_pcpu_def)
  have fix1: "sys_sched s1 = Inr s1" using sys_sched_fixpoint [of s1] assms f i q b by simp
  have "sys_sched s0 = sys_sched s1"
  proof -
    have "upd_task (cur s1) (\<lambda>x. x\<lparr>saved_irqs_off := irq_disabled s1\<rparr>) s1 = s1"
      using q f(4) by (intro upd_task_idle) (simp add: cur_task_def)
    moreover have "upd_task (cur s0) (\<lambda>x. x\<lparr>saved_irqs_off := irq_disabled s0\<rparr>) s0 = s1" using q by (simp add: s1_def)
    ultimately show ?thesis using i q by (simp add: sys_sched_def arch_sys_sched_def)
  qed
  moreover have "need_resched s1" using f(1) b by (simp add: need_resched_bit)
  ultimately show ?thesis using fix1 c unfolding sched_def s0_def [symmetric] by simp
qed

section \<open>Waking\<close>

lemma preempt_enable_masked:
  "irq_disabled s \<Longrightarrow> preempt_enable rs s = Inr (upd_task (cur s) (\<lambda>t. t\<lparr>preempt_count := preempt_count t - 1\<rparr>) s)"
  by (simp add: preempt_enable_def cond_resched_def sched_allowed_def irq_disabled_def get_pcpu_def upd_task_def)

lemma lock_unlock_masked:
  assumes "irq_disabled s" and "l \<notin> locks s"
  shows "spin_lock_irqsave l s = Inr (True, (preempt_disable s)\<lparr>locks := insert l (locks s)\<rparr>)"
proof -
  have "set_irqs_off True (preempt_disable s) = preempt_disable s"
    using assms(1) by (simp add: set_irqs_off_def preempt_disable_def upd_pcpu_idle irq_disabled_def get_pcpu_def upd_task_def)
  then show ?thesis using assms
    by (simp add: spin_lock_irqsave_def raw_spin_lock_def irq_disabled_def get_pcpu_def preempt_disable_def upd_task_def Let_def)
qed

lemma unlock_masked:
  assumes "irq_disabled s"
  shows "spin_unlock_irqrestore rs l True s =
     Inr ((upd_task (cur s) (\<lambda>t. t\<lparr>preempt_count := preempt_count t - 1\<rparr>) s)\<lparr>locks := locks s - {l}\<rparr>)"
proof -
  have "set_irqs_off True (raw_spin_unlock l s) = raw_spin_unlock l s"
    using assms by (simp add: set_irqs_off_def upd_pcpu_idle irq_disabled_def get_pcpu_def raw_spin_unlock_def)
  then show ?thesis
    using assms preempt_enable_masked [of "raw_spin_unlock l s" rs]
    by (simp add: spin_unlock_irqrestore_def raw_spin_unlock_def irq_disabled_def get_pcpu_def cur_def upd_task_def)
qed

text \<open>The waking task as \<^verbatim>\<open>wake_up_common\<close> leaves it.\<close>

definition woken :: "pend_state \<Rightarrow> event_type \<Rightarrow> u64 \<Rightarrow> task \<Rightarrow> task" where
  "woken ps ev d x = deliver ev d (x\<lparr>pend_state := ps, state := TASK_STATE_WAKING, delay := 0\<rparr>)"

lemma woken_fields [simp]:
  "state (woken ps ev d x) = TASK_STATE_WAKING" "pend_state (woken ps ev d x) = ps" "delay (woken ps ev d x) = 0"
  "prio (woken ps ev d x) = prio x" "affinity (woken ps ev d x) = affinity x" "state_linked (woken ps ev d x) = state_linked x"
  "cpu (woken ps ev d x) = cpu x" "ti_flags (woken ps ev d x) = ti_flags x" "preempt_count (woken ps ev d x) = preempt_count x"
  "home_cpu (woken ps ev d x) = home_cpu x"
  by (simp_all add: woken_def deliver_def home_cpu_def)

lemma wake_up_masked:
  assumes "irq_disabled s" and "t \<noteq> cur s" and "Task_lock t \<notin> locks s"
    and "state (tasks s t) = TASK_STATE_WAIT_EVENT" and "cpu (tasks s t) = - 1" and "delay (tasks s t) = 0"
  shows "wake_up_gen rs t ps ev d s =
     thenR (task_ready rs t True (upd_task t (woken ps ev d) (preempt_disable s)))
       (\<lambda>s. thenR (preempt_enable rs s) (\<lambda>s. Inr (0, s)))"
proof -
  have p: "irq_disabled (preempt_disable s)" "locks (preempt_disable s) = locks s" "cur (preempt_disable s) = cur s"
    using assms(1) by (simp_all add: irq_disabled_def get_pcpu_def preempt_disable_def upd_task_def cur_def)
  define s1 where "s1 = (preempt_disable (preempt_disable s))\<lparr>locks := insert (Task_lock t) (locks s)\<rparr>"
  have l: "spin_lock_irqsave (Task_lock t) (preempt_disable s) = Inr (True, s1)"
    using lock_unlock_masked [of "preempt_disable s" "Task_lock t"] p assms(3) by (simp add: s1_def)
  have tt: "tasks s1 t = tasks s t" using assms(2) by (simp add: s1_def preempt_disable_def upd_task_def cur_def)
  let ?s = "upd_task t (woken ps ev d) s1"
  have i: "irq_disabled ?s"
    using assms(1) by (simp add: s1_def irq_disabled_def get_pcpu_def preempt_disable_def upd_task_def)
  have "(upd_task (cur ?s) (\<lambda>t. t\<lparr>preempt_count := preempt_count t - 1\<rparr>) ?s)\<lparr>locks := locks ?s - {Task_lock t}\<rparr> =
      upd_task t (woken ps ev d) (preempt_disable s)"
    using assms(2,3) by (simp add: s1_def preempt_disable_def upd_task_def cur_def fun_upd_twist add.commute)
  then have "spin_unlock_irqrestore rs (Task_lock t) True ?s = Inr (upd_task t (woken ps ev d) (preempt_disable s))"
    using unlock_masked [OF i] by simp
  then show ?thesis
    using assms l tt unfolding wake_up_gen_def wake_up_common_def by (simp add: woken_def [abs_def])
qed

text \<open>\<^verbatim>\<open>task_set_resched\<close> changes nothing, \<^verbatim>\<open>task_need_resched\<close> is always zero.\<close>

lemma task_resched_noop: "task_set_resched t s = s" "task_clear_resched t s = s" "task_need_resched t s = 0"
  by (simp_all add: task_set_resched_def task_clear_resched_def task_need_resched_def upd_task_idle)

lemma task_ready_cpu:
  assumes "t \<noteq> cur s" and "task_ok (tasks s t)" and "pcpu_id (get_pcpu s) = cpu_id s"
  defines "s1 \<equiv> upd_task t (\<lambda>x. x\<lparr>cpu := int (home_cpu x)\<rparr>) (preempt_disable s)"
  shows "task_ready rs t preempt s =
     thenR (if home_cpu (tasks s t) \<noteq> cpu_id s then smp_percpu_task_ready rs (home_cpu (tasks s t)) t preempt s1
            else percpu_task_ready (cpu_id s) t preempt s1) (preempt_enable rs)"
proof -
  let ?k = "preempt_disable s"
  have k: "tasks ?k t = tasks s t" "pcpus ?k = pcpus s" "cpu_id ?k = cpu_id s"
    using assms(1) by (simp_all add: preempt_disable_def upd_task_def)
  define s2 where "s2 = upd_task t (\<lambda>x. x\<lparr>cpu := affinity x\<rparr>) ?k"
  have 2: "(if cpu (tasks s2 t) = - 1 then upd_task t (\<lambda>x. x\<lparr>cpu := select_task_run_cpu\<rparr>) s2 else s2) = s1"
    using assms(2) k(1) by (auto simp: s2_def s1_def upd_task_def home_cpu_def select_task_run_cpu_def task_ok_def)
  have 3: "cpu (tasks s1 t) = int (home_cpu (tasks s t))" "get_pcpu s1 = get_pcpu s" "cpu_id s1 = cpu_id s"
    using k by (simp_all add: s1_def upd_task_def get_pcpu_def)
  show ?thesis
    unfolding task_ready_def Let_def s2_def [symmetric] 2 using 3 assms(3) by simp
qed

lemma wake_up_remote:
  assumes irq: "irq_disabled s" and t: "t \<noteq> cur s" and l: "Task_lock t \<notin> locks s" "Pcpu_lock h \<notin> locks s"
    and w: "state (tasks s t) = TASK_STATE_WAIT_EVENT" "cpu (tasks s t) = - 1" "delay (tasks s t) = 0" "\<not> state_linked (tasks s t)"
    and inv: "lists_inv s" and h: "home_cpu (tasks s t) = h" "h \<noteq> cpu_id s"
  shows "wake_up_gen rs t ps ev d s =
    Inr (0, s\<lparr>tasks := (tasks s)(t := (woken ps ev d (tasks s t))\<lparr>cpu := int h, state_linked := True\<rparr>),
              pcpus := (pcpus s)(h := (pcpus s h)\<lparr>new_list := new_list (pcpus s h) @ [t]\<rparr>),
              sgis := sgis s @ [(IRQWORK_IRQ, h)]\<rparr>)"
proof -
  let ?c = "cpu_id s"
  let ?r = "running_task (pcpus s ?c)"
  have c4: "?c < 4" and ok: "task_ok (tasks s t)" using inv by (auto simp: lists_inv_def)
  have h4: "h < 4" using home_cpu_less [OF ok] h(1) by simp
  have id: "pcpu_id (pcpus s ?c) = ?c" using pcpu_wfD(1) [OF pcpu_wf_of [OF inv c4]] .
  define a where "a = upd_task t (woken ps ev d) (preempt_disable s)"
  have ta: "tasks a t = woken ps ev d (tasks s t)" "cur a = cur s" "cpu_id a = ?c" "pcpus a = pcpus s" "locks a = locks s"
    "sgis a = sgis s"
    using t by (simp_all add: a_def preempt_disable_def upd_task_def cur_def)
  have ok': "task_ok (tasks a t)" using ok by (simp add: ta task_ok_def)
  define b where "b = upd_task t (\<lambda>x. x\<lparr>cpu := int (home_cpu x)\<rparr>) (preempt_disable a)"
  have r1: "task_ready rs t True a = thenR (smp_percpu_task_ready rs h t True b) (preempt_enable rs)"
    using task_ready_cpu [of t a rs True] ok' t ta h id by (simp add: b_def get_pcpu_def)
  have tb: "tasks b t = (woken ps ev d (tasks s t))\<lparr>cpu := int h\<rparr>" "cur b = cur s" "cpu_id b = ?c" "pcpus b = pcpus s"
    "locks b = locks s" "sgis b = sgis s"
    using t ta h by (simp_all add: b_def preempt_disable_def upd_task_def cur_def)
  have ib: "irq_disabled b" using irq tb by (simp add: irq_disabled_def get_pcpu_def)
  define e where "e = list_add_tail_new h t ((preempt_disable b)\<lparr>locks := insert (Pcpu_lock h) (locks s)\<rparr>)"
  have ie: "irq_disabled e" "cur e = cur s" "locks e = insert (Pcpu_lock h) (locks s)" "cpu_id e = ?c"
    using irq tb h(2) by (simp_all add: e_def list_add_tail_new_def set_state_linked_def irq_disabled_def get_pcpu_def
        upd_task_def upd_pcpu_def preempt_disable_def cur_def)
  have r2: "smp_percpu_task_ready rs h t True b = Inr (pcpu_irqwork h
      ((upd_task (cur s) (\<lambda>t. t\<lparr>preempt_count := preempt_count t - 1\<rparr>) e)\<lparr>locks := locks s\<rparr>))"
    using lock_unlock_masked [OF ib, of "Pcpu_lock h"] tb l w unlock_masked [OF ie(1), of rs "Pcpu_lock h"] ie
    by (simp add: smp_percpu_task_ready_def task_resched_noop e_def [symmetric])
  define f where "f = pcpu_irqwork h ((upd_task (cur s) (\<lambda>t. t\<lparr>preempt_count := preempt_count t - 1\<rparr>) e)\<lparr>locks := locks s\<rparr>)"
  have fi: "irq_disabled f" "cur f = cur s"
    using ie by (simp_all add: f_def pcpu_irqwork_def send_sgi_def irq_disabled_def get_pcpu_def upd_task_def cur_def)
  define g where "g = upd_task (cur s) (\<lambda>t. t\<lparr>preempt_count := preempt_count t - 1\<rparr>) f"
  have gi: "irq_disabled g" "cur g = cur s"
    using fi by (simp_all add: g_def irq_disabled_def get_pcpu_def upd_task_def cur_def)
  have "wake_up_gen rs t ps ev d s = Inr (0, upd_task (cur s) (\<lambda>t. t\<lparr>preempt_count := preempt_count t - 1\<rparr>) g)"
    using wake_up_masked [OF irq t l(1) w(1-3), of rs ps ev d] r1 r2 preempt_enable_masked [OF fi(1), of rs]
      preempt_enable_masked [OF gi(1), of rs] fi gi
    by (simp add: f_def [symmetric] g_def [symmetric] a_def [symmetric])
  moreover have "upd_task (cur s) (\<lambda>t. t\<lparr>preempt_count := preempt_count t - 1\<rparr>) g =
    s\<lparr>tasks := (tasks s)(t := (woken ps ev d (tasks s t))\<lparr>cpu := int h, state_linked := True\<rparr>),
              pcpus := (pcpus s)(h := (pcpus s h)\<lparr>new_list := new_list (pcpus s h) @ [t]\<rparr>),
              sgis := sgis s @ [(IRQWORK_IRQ, h)]\<rparr>"
    using t h h4 by (simp add: g_def f_def e_def b_def a_def pcpu_irqwork_def send_sgi_def list_add_tail_new_def set_state_linked_def
        preempt_disable_def upd_task_def upd_pcpu_def cur_def fun_upd_twist)
  ultimately show ?thesis by simp
qed

text \<open>A wake-up on the task's own CPU is \<^verbatim>\<open>add_task_to_ready_list\<close> on the woken task, with preemption
  disabled twice meanwhile.\<close>

definition waking_here :: "nat \<Rightarrow> pend_state \<Rightarrow> event_type \<Rightarrow> u64 \<Rightarrow> kstate \<Rightarrow> kstate" where
  "waking_here t ps ev d s =
     s\<lparr>tasks := (tasks s)(t := (woken ps ev d (tasks s t))\<lparr>cpu := int (cpu_id s)\<rparr>,
         cur s := (cur_task s)\<lparr>preempt_count := preempt_count (cur_task s) + 2\<rparr>)\<rparr>"

lemma wake_up_here:
  assumes irq: "irq_disabled s" and t: "t \<noteq> cur s" and l: "Task_lock t \<notin> locks s"
    and w: "state (tasks s t) = TASK_STATE_WAIT_EVENT" "cpu (tasks s t) = - 1" "delay (tasks s t) = 0"
    and inv: "lists_inv s" and h: "home_cpu (tasks s t) = cpu_id s"
    and add: "add_task_to_ready_list (cpu_id s) t True (waking_here t ps ev d s) = Inr e"
    and e: "irq_disabled e" "cur e = cur s" "cpu_id e = cpu_id s"
  shows "wake_up_gen rs t ps ev d s = Inr (0, upd_task (cur s) (\<lambda>x. x\<lparr>preempt_count := preempt_count x - 2\<rparr>) e)"
proof -
  let ?c = "cpu_id s"
  have c4: "?c < 4" and ok: "task_ok (tasks s t)" using inv by (auto simp: lists_inv_def)
  have id: "pcpu_id (pcpus s ?c) = ?c" using pcpu_wfD(1) [OF pcpu_wf_of [OF inv c4]] .
  define a where "a = upd_task t (woken ps ev d) (preempt_disable s)"
  have ta: "tasks a t = woken ps ev d (tasks s t)" "cur a = cur s" "cpu_id a = ?c" "pcpus a = pcpus s"
    using t by (simp_all add: a_def preempt_disable_def upd_task_def cur_def)
  have ok': "task_ok (tasks a t)" using ok by (simp add: ta task_ok_def)
  have b: "upd_task t (\<lambda>x. x\<lparr>cpu := int (home_cpu x)\<rparr>) (preempt_disable a) = waking_here t ps ev d s"
    using t h by (simp add: a_def preempt_disable_def upd_task_def cur_def cur_task_def waking_here_def fun_upd_twist add.commute)
  have r1: "task_ready rs t True a = thenR (percpu_task_ready ?c t True (waking_here t ps ev d s)) (preempt_enable rs)"
    using task_ready_cpu [of t a rs True] ok' t ta h id b by (simp add: get_pcpu_def)
  have ib: "irq_disabled (waking_here t ps ev d s)" using irq by (simp add: waking_here_def irq_disabled_def get_pcpu_def)
  then have i1: "set_irqs_off True (waking_here t ps ev d s) = waking_here t ps ev d s"
    by (simp add: set_irqs_off_def upd_pcpu_idle irq_disabled_def get_pcpu_def)
  have r3: "percpu_task_ready ?c t True (waking_here t ps ev d s) = Inr e"
    using add i1 ib e by (simp add: percpu_task_ready_def set_irqs_off_def upd_pcpu_idle irq_disabled_def get_pcpu_def)
  define g where "g = upd_task (cur s) (\<lambda>t. t\<lparr>preempt_count := preempt_count t - 1\<rparr>) e"
  have gi: "irq_disabled g" "cur g = cur s"
    using e by (simp_all add: g_def irq_disabled_def get_pcpu_def upd_task_def cur_def)
  have "wake_up_gen rs t ps ev d s = Inr (0, upd_task (cur s) (\<lambda>t. t\<lparr>preempt_count := preempt_count t - 1\<rparr>) g)"
    using wake_up_masked [OF irq t l(1) w(1-3), of rs ps ev d] r1 r3 preempt_enable_masked [OF e(1), of rs]
      preempt_enable_masked [OF gi(1), of rs] e gi
    by (simp add: g_def [symmetric] a_def [symmetric])
  then show ?thesis by (simp add: g_def upd_task_def)
qed

lemmas waking_defs = waking_here_def set_need_resched_def list_add_tail_ready_def set_state_linked_def
  irq_disabled_def get_pcpu_def upd_task_def upd_pcpu_def cur_def cur_task_def

lemma wake_up_local:
  assumes irq: "irq_disabled s" and t: "t \<noteq> cur s" and l: "Task_lock t \<notin> locks s"
    and w: "state (tasks s t) = TASK_STATE_WAIT_EVENT" "cpu (tasks s t) = - 1" "delay (tasks s t) = 0" "\<not> state_linked (tasks s t)"
    and inv: "lists_inv s" and h: "home_cpu (tasks s t) = cpu_id s" and pr: "prio (tasks s t) \<noteq> prio (cur_task s)"
  defines "p \<equiv> prio (tasks s t)" and "c \<equiv> cpu_id s"
  shows "wake_up_gen rs t ps ev d s =
    Inr (0, s\<lparr>pcpus := (pcpus s)(c := (pcpus s c)
                 \<lparr>tasks_in_prio := (tasks_in_prio (pcpus s c))[p := tasks_in_prio (pcpus s c) ! p + 1],
                  ready_list := (ready_list (pcpus s c))[p := ready_list (pcpus s c) ! p @ [t]],
                  local_rdy_grp := local_rdy_grp (pcpus s c) OR push_bit p 1\<rparr>),
              tasks := (tasks s)(t := (woken ps ev d (tasks s t))\<lparr>cpu := int c, state_linked := True\<rparr>,
                 cur s := (cur_task s)\<lparr>ti_flags := ti_flags (cur_task s) OR tif_bit TIF_NEED_RESCHED\<rparr>)\<rparr>)"
proof -
  let ?b = "waking_here t ps ev d s"
  define b1 where "b1 = upd_pcpu c (\<lambda>x. x\<lparr>tasks_in_prio := (tasks_in_prio x)[p := tasks_in_prio x ! p + 1]\<rparr>) ?b"
  define e where "e = set_need_resched (upd_pcpu c (\<lambda>x. x\<lparr>local_rdy_grp := local_rdy_grp x OR push_bit p 1\<rparr>)
       (list_add_tail_ready c p t b1))"
  have b: "prio (tasks ?b t) = p" "\<not> state_linked (tasks ?b t)" "prio (cur_task b1) = prio (cur_task s)"
    using t w by (simp_all add: b1_def p_def c_def waking_defs)
  then have add: "add_task_to_ready_list c t True ?b = Inr e"
    using pr unfolding add_task_to_ready_list_def Let_def by (simp add: e_def b1_def p_def)
  have e: "irq_disabled e" "cur e = cur s" "cpu_id e = c"
    using irq by (simp_all add: e_def b1_def c_def waking_defs)
  show ?thesis
    using wake_up_here [OF irq t l w(1-3) inv h, of ps ev d e rs] add e t h
    by (simp add: e_def b1_def waking_defs fun_upd_twist c_def)
qed

text \<open>The same wake-up when the current task has the same priority and stands on the stop list.\<close>

lemma insert_before_absent: "x \<notin> set xs \<Longrightarrow> insert_before x y xs = xs"
  by (induction xs) auto

lemma wake_up_stopping:
  assumes irq: "irq_disabled s" and t: "t \<noteq> cur s" and l: "Task_lock t \<notin> locks s"
    and w: "state (tasks s t) = TASK_STATE_WAIT_EVENT" "cpu (tasks s t) = - 1" "delay (tasks s t) = 0" "\<not> state_linked (tasks s t)"
    and inv: "lists_inv s" and h: "home_cpu (tasks s t) = cpu_id s" and pr: "prio (tasks s t) = prio (cur_task s)"
    and stop: "cur s \<in> set (stop_list (get_pcpu s))"
    and n: "tasks_in_prio (get_pcpu s) ! prio (tasks s t) \<noteq> 1"
  shows "\<exists>s'. wake_up_gen rs t ps ev d s = Inr (0, s') \<and> ready_list (get_pcpu s') = ready_list (get_pcpu s) \<and>
     stop_list (get_pcpu s') = insert_before (cur s) t (stop_list (get_pcpu s))"
proof -
  let ?b = "waking_here t ps ev d s"
  let ?c = "cpu_id s"
  let ?p = "prio (tasks s t)"
  have c4: "?c < 4" using inv by (simp add: lists_inv_def)
  note wf = pcpu_wf_of [OF inv c4]
  have p8: "?p < length (tasks_in_prio (pcpus s ?c))" using pcpu_wfD(3) [OF wf] prio_less [OF inv] by simp
  have linked: "state_linked (tasks s (cur s))"
    using stop pcpu_wfD(8) [OF wf, of "cur s"] by (simp add: state_tasks_def get_pcpu_def)
  have off: "cur s \<notin> set (concat (ready_list (pcpus s ?c)))"
    using stop pcpu_wfD(4) [OF wf] by (auto simp: state_tasks_def get_pcpu_def simp del: set_concat)
  then have map: "map (insert_before (cur s) t) (ready_list (pcpus s ?c)) = ready_list (pcpus s ?c)"
    by (intro map_idI insert_before_absent) auto
  define b1 where "b1 = upd_pcpu ?c (\<lambda>x. x\<lparr>tasks_in_prio := (tasks_in_prio x)[?p := tasks_in_prio x ! ?p + 1]\<rparr>) ?b"
  define b2 where "b2 = set_state_linked True t (upd_pcpu ?c (map_state_lists (insert_before (cur s) t)) b1)"
  define e where "e = set_need_resched (upd_pcpu ?c (\<lambda>x. x\<lparr>local_rdy_grp := local_rdy_grp x OR push_bit ?p 1\<rparr>) b2)"
  have b: "prio (tasks ?b t) = ?p" "\<not> state_linked (tasks ?b t)" "prio (cur_task b1) = prio (cur_task s)" "cur b1 = cur s"
    "state_linked (tasks b1 (cur s))" "tasks_in_prio (pcpus b2 ?c) ! ?p \<noteq> 2"
    using t w linked n p8 by (simp_all add: b1_def b2_def map_state_lists_def waking_defs)
  have ins: "list_insert_before_state ?c (cur b1) t b1 = Inr b2" using b by (simp add: list_insert_before_state_def b2_def)
  have add: "add_task_to_ready_list ?c t True ?b = Inr e"
    unfolding add_task_to_ready_list_def Let_def b(1) b1_def [symmetric] ins using b pr by (simp add: e_def)
  have e: "irq_disabled e" "cur e = cur s" "cpu_id e = ?c"
    using irq by (simp_all add: e_def b1_def b2_def map_state_lists_def waking_defs)
  show ?thesis
    using wake_up_here [OF irq t l w(1-3) inv h add e, of rs] map t
    by (simp add: e_def b1_def b2_def map_state_lists_def waking_defs)
qed

lemma exception_return_switches:
  assumes inv: "sched_inv s" and nr: "need_resched s" and run: "state (cur_task s) = TASK_STATE_RUNNING"
    and pc: "preempt_count (cur_task s) = 0" and dn: "\<not> bit (ti_flags (cur_task s)) TIF_DONOT_PREEMPT"
    and p: "p < 8" "ready_list (get_pcpu s) ! p = t # ts" "\<forall>j<p. ready_list (get_pcpu s) ! j = []" and t: "t \<noteq> cur s"
  shows "\<exists>s'. exception_return_inner s = Inr (0, s') \<and> cur s' = t \<and> cpu_id s' = cpu_id s \<and>
           state (tasks s' t) = TASK_STATE_RUNNING \<and> state (tasks s' (cur s)) = TASK_STATE_READY \<and>
           ready_list (get_pcpu s') ! p = ts @ [t] \<and> tmr s' = tmr s \<and> raws s' = raws s \<and>
           tasks_in_prio (get_pcpu s') = tasks_in_prio (get_pcpu s) \<and> prio (cur_task s') = prio (tasks s t)"
proof -
  let ?c = "cpu_id s"
  let ?k = "clear_need_resched s"
  have k: "cur ?k = cur s" "cpu_id ?k = ?c" "pcpus ?k = pcpus s" "tmr ?k = tmr s" "raws ?k = raws s"
    "state (tasks ?k u) = state (tasks s u)" "prio (tasks ?k u) = prio (tasks s u)" for u
    by (simp_all add: clear_need_resched_def upd_task_def cur_def)
  have v: "same_view s ?k" by simp
  have li: "lists_inv ?k" using inv sched_inv_view [OF v] by (simp add: sched_inv_def)
  have c4: "?c < 4" using inv by (simp add: sched_inv_def lists_inv_def)
  note wf = pcpu_wf_of [OF li, of ?c, unfolded k, OF c4]
  have bp: "bit (local_rdy_grp (pcpus s ?c)) p" using pcpu_wfD(6) [OF wf p(1)] p(2) by (simp add: get_pcpu_def)
  define q where "q = ffs_one_table ! unat (local_rdy_grp (pcpus s ?c))"
  have "unat (local_rdy_grp (pcpus s ?c)) \<noteq> 0" using bp by (auto simp: unat_eq_zero)
  then have qn: "q \<noteq> - 1"
    using ffs_one_table_lowest [of "unat (local_rdy_grp (pcpus s ?c))"] unat_bounds(1) [of "local_rdy_grp (pcpus s ?c)"]
    by (auto simp: q_def)
  then obtain i where i: "i < 8" "q = int i" "ready_list (pcpus s ?c) ! i \<noteq> []" "\<forall>j<i. ready_list (pcpus s ?c) ! j = []"
    using rdy_grp_lowest [OF wf, of q] q_def by auto
  have "i = p"
    using i(3,4) p(2,3) by (cases i p rule: linorder_cases) (auto simp: get_pcpu_def)
  define s1 where "s1 = list_add_tail_ready ?c p t (list_del_state ?c t ?k)"
  note rot = rotate_inv [OF li c4 p(1), of t ts, folded s1_def]
  have L: "ready_list (pcpus ?k ?c) ! p = t # ts" using p(2) k by (simp add: get_pcpu_def)
  have pick: "pick_next_task ?c ?k = Inr (t, s1)"
    using run i(2) qn \<open>i = p\<close> L k
    by (simp add: pick_next_task_def Let_def task_is_running_def cur_task_def s1_def flip: q_def)
  have r: "runs s1 = runs ?k" "tasks s1 = tasks ?k" using rot(5) [OF L] rot(7) [OF L] by auto
  then have c1: "cur s1 = cur s" "cpu_id s1 = ?c" "\<And>c. running_task (pcpus s1 c) = running_task (pcpus s c)"
    using k by (auto simp: runs_def cur_def fun_eq_iff)
  have tm: "tmr s1 = tmr s" "raws s1 = raws s"
    by (simp_all add: s1_def list_add_tail_ready_def list_del_state_def set_state_linked_def upd_task_def upd_pcpu_def k)
  have tp: "tasks_in_prio (pcpus s1 ?c) = tasks_in_prio (pcpus s ?c)" using rot(3) [OF L] k by (simp add: pcpu_view_eq)
  have rl: "ready_list (pcpus s1 ?c) ! p = ts @ [t]"
    using rot(2) [OF L] pcpu_wfD(2) [OF wf] p(1) k by simp
  have st: "state (tasks s1 (cur s)) = TASK_STATE_RUNNING" using run r k by (simp add: cur_task_def)
  obtain s2 where s2: "switch_to_task (cur s) t s1 = Inr s2" "cur s2 = t" "cpu_id s2 = ?c" "state (tasks s2 t) = TASK_STATE_RUNNING"
    "state (tasks s2 (cur s)) = TASK_STATE_READY" "ready_list (pcpus s2 ?c) = ready_list (pcpus s1 ?c)"
    "tasks_in_prio (pcpus s2 ?c) = tasks_in_prio (pcpus s1 ?c)" "tmr s2 = tmr s1" "raws s2 = raws s1" "prio (tasks s2 t) = prio (tasks s1 t)"
    using st t c1 by (simp add: switch_to_task_def upd_task_def upd_pcpu_def cur_def Let_def)
  have "exception_return_inner s = Inr (0, s2)"
    using nr pc dn pick t s2(1) k
    by (simp add: exception_return_inner_def Let_def need_resched_def cur_task_def and_tif_bit)
  then show ?thesis
    using s2 rl tp tm r k by (intro exI [of _ s2]) (simp add: get_pcpu_def cur_task_def)
qed

section \<open>Example states\<close>

definition demo_task :: "nat \<Rightarrow> int \<Rightarrow> task_state \<Rightarrow> int \<Rightarrow> bool \<Rightarrow> task" where
  "demo_task p a st c linked = \<lparr>preempt_count = 0, ti_flags = 0, tid = 0, task_flags = 0, delay = 0, state = st,
     pend_state = TASK_STATE_PEND_OK, wait_type = OS_EVENT_TYPE_UNKNOWN, msg = 0, wait_event = 0, flags_rdy = 0,
     cpu = c, last_cpu = - 1, affinity = a, prio = p, run_time = 100, ctx_sw_cnt = 0, start_ns = 0,
     state_linked = linked, event_linked = False, saved_irqs_off = False\<rparr>"

definition demo_pcpu :: "nat \<Rightarrow> nat list \<Rightarrow> nat \<Rightarrow> pcpu" where
  "demo_pcpu c p5 r = \<lparr>pcpu_id = c, new_list = [], stop_list = [], running_task = r, idle_task = c,
     local_rdy_grp = (if p5 = [] then 128 else 160), ready_list = [[], [], [], [], [], p5, [], [c]],
     tasks_in_prio = [0, 0, 0, 0, 0, int (length p5), 0, 0], os_is_running = True, irqs_off = False\<rparr>"

text \<open>Tasks 0 to 3 are the idle tasks; 10 runs on CPU 0 and 11 is ready there at the same priority; 12 and
  13 wait, with higher priority, on CPU 0 and CPU 2; 14 waits at the priority of 10.\<close>

definition demo_sys :: kstate where
  "demo_sys = \<lparr>
     tmr = (\<lambda>i. \<lparr>tm_cpu = - 1, tm_stop = False, expires = 0, timeout = 0, entry_linked = False, tm_raw = None\<rparr>),
     raws = (\<lambda>c. \<lparr>active = [], tmp_head = [], next_timer = None, running_timer = None, hw_cval = None\<rparr>),
     clock = 0, khz = 62500,
     tasks = (\<lambda>t. if t = 0 then demo_task 7 0 TASK_STATE_READY (- 1) True
                  else if t < 4 then demo_task 7 (int t) TASK_STATE_RUNNING (int t) True
                  else if t = 10 then demo_task 5 0 TASK_STATE_RUNNING 0 True
                  else if t = 11 then demo_task 5 0 TASK_STATE_READY (- 1) True
                  else if t = 12 then demo_task 3 0 TASK_STATE_WAIT_EVENT (- 1) False
                  else if t = 13 then demo_task 3 2 TASK_STATE_WAIT_EVENT (- 1) False
                  else if t = 14 then demo_task 5 0 TASK_STATE_WAIT_EVENT (- 1) False
                  else demo_task 5 0 TASK_STATE_SUSPEND (- 1) False),
     pcpus = (\<lambda>c. demo_pcpu c (if c = 0 then [11, 10] else []) (if c = 0 then 10 else c)),
     cpu_id = 0, events = (\<lambda>e. \<lparr>ev_type = OS_EVENT_TYPE_SEM, owner = 0, cnt = 0, data = 0, wait_list = []\<rparr>),
     flag_grps = (\<lambda>g. \<lparr>grp_flags = 0, grp_wait_list = []\<rparr>), locks = {}, sgis = [], tid_map = [],
     os_task_table = (\<lambda>t. None)\<rparr>"

lemma all_less_4: "(\<forall>i<4. P i) \<longleftrightarrow> P 0 \<and> P 1 \<and> P 2 \<and> P (3 :: nat)"
  by (simp add: numeral_eq_Suc All_less_Suc conj_ac)

lemma all_less_7: "(\<forall>i<7. P i) \<longleftrightarrow> P 0 \<and> P 1 \<and> P 2 \<and> P 3 \<and> P 4 \<and> P 5 \<and> P (6 :: nat)"
  by (simp add: numeral_eq_Suc All_less_Suc conj_ac)

lemma all_less_8: "(\<forall>i<8. P i) \<longleftrightarrow> P 0 \<and> P 1 \<and> P 2 \<and> P 3 \<and> P 4 \<and> P 5 \<and> P 6 \<and> P (7 :: nat)"
  by (simp add: numeral_eq_Suc All_less_Suc conj_ac)

lemma demo_pcpu_fields [simp]:
  "pcpu_id (demo_pcpu c l r) = c" "new_list (demo_pcpu c l r) = []" "stop_list (demo_pcpu c l r) = []"
  "running_task (demo_pcpu c l r) = r" "ready_list (demo_pcpu c l r) = [[], [], [], [], [], l, [], [c]]"
  "tasks_in_prio (demo_pcpu c l r) = [0, 0, 0, 0, 0, int (length l), 0, 0]" "irqs_off (demo_pcpu c l r) = False"
  "local_rdy_grp (demo_pcpu c l r) = (if l = [] then 128 else 160)"
  by (simp_all add: demo_pcpu_def)

lemma demo_task_fields [simp]:
  "prio (demo_task p a st c l) = p" "affinity (demo_task p a st c l) = a" "state (demo_task p a st c l) = st"
  "state_linked (demo_task p a st c l) = l" "cpu (demo_task p a st c l) = c" "ti_flags (demo_task p a st c l) = 0"
  "preempt_count (demo_task p a st c l) = 0" "delay (demo_task p a st c l) = 0"
  "home_cpu (demo_task p a st c l) = (if a = - 1 then 3 else nat a)"
  by (simp_all add: demo_task_def home_cpu_def)

lemma demo_pcpu_wf:
  assumes "\<And>t. t \<in> set l \<Longrightarrow> prio (T t) = 5 \<and> state_linked (T t) \<and> home_cpu (T t) = c"
    and "distinct l" "c \<notin> set l" "prio (T c) = 7" "state_linked (T c)" "home_cpu (T c) = c"
  shows "pcpu_wf T c (demo_pcpu c l r)"
  unfolding pcpu_wf_def state_tasks_def demo_pcpu_fields all_less_8 all_less_7
  using assms by (auto simp: bit_iff_odd drop_bit_eq_div split: if_splits)

lemma demo_sys_inv: "sched_inv demo_sys"
proof -
  have wf: "pcpu_wf (tasks demo_sys) c (pcpus demo_sys c)" if "c < 4" for c
    using that by (auto simp: demo_sys_def intro!: demo_pcpu_wf)
  have "lists_inv demo_sys"
    unfolding lists_inv_def using wf by (auto simp: demo_sys_def task_ok_def state_tasks_def)
  then show ?thesis unfolding sched_inv_def all_less_4 by (simp add: on_ready_list_def demo_sys_def)
qed



lemma sched_inv_state:
  "sched_inv s \<Longrightarrow> sched_inv (upd_task u (\<lambda>x. x\<lparr>state := st\<rparr>) s)"
  by (rule sched_inv_upd_task) simp_all

lemma wake_preempts:
  assumes inv: "sched_inv s" and irq: "irq_disabled s" and l: "Task_lock t \<notin> locks s"
    and w: "state (tasks s t) = TASK_STATE_WAIT_EVENT" "cpu (tasks s t) = - 1" "delay (tasks s t) = 0" "\<not> state_linked (tasks s t)"
    and h: "home_cpu (tasks s t) = cpu_id s"
    and run: "state (cur_task s) = TASK_STATE_RUNNING" "preempt_count (cur_task s) = 0"
      "\<not> bit (ti_flags (cur_task s)) TIF_DONOT_PREEMPT"
    and high: "\<forall>j\<le>prio (tasks s t). ready_list (get_pcpu s) ! j = []"
    and stop: "can_stop (Sched_timer (cpu_id s)) s"
  shows "\<exists>s1 s2. wake_up_gen sched t ps ev d s = Inr (0, s1) \<and> exception_return_handler s1 = Inr s2 \<and> cur s2 = t \<and>
     state (tasks s2 t) = TASK_STATE_RUNNING \<and> state (tasks s2 (cur s)) = TASK_STATE_READY \<and> sched_inv s2"
proof -
  let ?c = "cpu_id s"
  let ?p = "prio (tasks s t)"
  have li: "lists_inv s" and c4: "?c < 4" and oncur: "on_ready_list ?c s (cur s)"
    using inv by (auto simp: sched_inv_def lists_inv_def cur_def)
  note wf = pcpu_wf_of [OF li c4]
  have t: "t \<noteq> cur s" using w(1) run(1) by (auto simp: cur_task_def)
  have high': "ready_list (pcpus s ?c) ! j = []" if "j \<le> ?p" for j using high that by (simp add: get_pcpu_def)
  have pc: "?p < prio (tasks s (cur s))"
    using oncur high' [of "prio (tasks s (cur s))"] by (cases "prio (tasks s (cur s)) \<le> ?p") (auto simp: on_ready_list_def)
  have p7: "?p < 7" "?p < 8" using pc prio_less [OF li, of "cur s"] by auto
  define s1 where "s1 = s\<lparr>pcpus := (pcpus s)(?c := (pcpus s ?c)
                 \<lparr>tasks_in_prio := (tasks_in_prio (pcpus s ?c))[?p := tasks_in_prio (pcpus s ?c) ! ?p + 1],
                  ready_list := (ready_list (pcpus s ?c))[?p := ready_list (pcpus s ?c) ! ?p @ [t]],
                  local_rdy_grp := local_rdy_grp (pcpus s ?c) OR push_bit ?p 1\<rparr>),
              tasks := (tasks s)(t := (woken ps ev d (tasks s t))\<lparr>cpu := int ?c, state_linked := True\<rparr>,
                 cur s := (cur_task s)\<lparr>ti_flags := ti_flags (cur_task s) OR tif_bit TIF_NEED_RESCHED\<rparr>)\<rparr>"
  have wk: "wake_up_gen sched t ps ev d s = Inr (0, s1)"
    using wake_up_local [OF irq t l w li h, of sched ps ev d] pc by (simp add: s1_def cur_task_def)
  have inv1: "sched_inv s1"
    using wake_up_gen_ctx [OF wake_ctx_sched wake_ctx_sched wk] inv run(1) wake_ctx_schedD by fastforce
  have f: "cur s1 = cur s" "cpu_id s1 = ?c" "tmr s1 = tmr s" "raws s1 = raws s"
    by (simp_all add: s1_def cur_def)
  have ct: "cur_task s1 = (cur_task s)\<lparr>ti_flags := ti_flags (cur_task s) OR tif_bit TIF_NEED_RESCHED\<rparr>" and pt: "prio (tasks s1 t) = ?p"
    using f(1) t by (simp_all add: cur_task_def s1_def)
  have rl: "ready_list (get_pcpu s1) ! ?p = [t]" "\<forall>j<?p. ready_list (get_pcpu s1) ! j = []"
    "tasks_in_prio (get_pcpu s1) ! ?p = 1"
    using high' p7 pcpu_wfD(2,3,7) [OF wf] by (simp_all add: s1_def get_pcpu_def)
  have nr: "need_resched s1" "\<not> bit (ti_flags (cur_task s1)) TIF_DONOT_PREEMPT"
    using run(3) by (simp_all add: need_resched_bit ct tif_bits)
  obtain s2 where s2: "exception_return_inner s1 = Inr (0, s2)" "cur s2 = t" "cpu_id s2 = ?c"
    "state (tasks s2 t) = TASK_STATE_RUNNING" "state (tasks s2 (cur s)) = TASK_STATE_READY"
    "tmr s2 = tmr s" "raws s2 = raws s" "tasks_in_prio (get_pcpu s2) = tasks_in_prio (get_pcpu s1)" "prio (cur_task s2) = ?p"
    using exception_return_switches [OF inv1 nr(1) _ _ nr(2) p7(2) rl(1,2)] run t f ct pt by auto
  have "sched_update_sched_timer s2 = stop_timer (Sched_timer ?c) s2"
    using s2 rl(3) by (simp add: sched_update_sched_timer_def)
  moreover have "can_stop (Sched_timer ?c) s2" using stop s2 by (simp add: can_stop_def)
  ultimately obtain s3 where s3: "sched_update_sched_timer s2 = Inr s3" using can_stop_total by metis
  note sk = same_kernel_sched_timer [OF s3]
  have eh: "exception_return_handler s1 = Inr s3" using s2(1) s3 by (simp add: exception_return_handler_def)
  have "sched_inv s3"
    using exception_return_handler_inv [OF inv1 _ eh] ct run(1) by (simp add: kworker_ok_def)
  then show ?thesis using wk eh s2 same_kernel_cur [OF sk] sk by (auto simp: same_kernel_def)
qed

section \<open>Properties\<close>




text \<open>
  C2: \<^verbatim>\<open>pick_next_task\<close> always finds a task: the head of the first non-empty priority list, where the
  current task has left its list if it blocks. It moves that task to the tail of
  the list (round robin) and leaves the other lists alone.
\<close>

theorem pick_next_task_policy:
  assumes "sched_inv s" and "state (cur_task s) \<notin> {TASK_STATE_READY, TASK_STATE_STOP}"
    and "can_stop (Sched_timer (cpu_id s)) s" and "i < OS_PRIO_MAX" and "ready_after s i \<noteq> []" and "\<forall>j<i. ready_after s j = []"
  shows "\<exists>s'. pick_next_task (cpu_id s) s = Inr (hd (ready_after s i), s') \<and>
           ready_list (pcpus s' (cpu_id s)) ! i = rotate1 (ready_after s i) \<and>
           (\<forall>j<OS_PRIO_MAX. j \<noteq> i \<longrightarrow> ready_list (pcpus s' (cpu_id s)) ! j = ready_after s j)"
  using pick_next_task_total [OF assms] .

theorem pick_next_task_policy_witness:
  "\<exists>s'. pick_next_task 0 (upd_task 10 (\<lambda>x. x\<lparr>state := TASK_STATE_SUSPEND\<rparr>) demo_sys) = Inr (11, s') \<and>
     ready_list (pcpus s' 0) ! 5 = [11] \<and> ready_list (pcpus s' 0) ! 7 = [0]"
proof -
  let ?s = "upd_task 10 (\<lambda>x. x\<lparr>state := TASK_STATE_SUSPEND\<rparr>) demo_sys"
  have f: "cpu_id ?s = 0" "cur ?s = 10" "state (cur_task ?s) = TASK_STATE_SUSPEND" "can_stop (Sched_timer 0) ?s"
    by (simp_all add: demo_sys_def cur_def cur_task_def can_stop_def upd_task_def)
  have ra: "ready_after ?s j = remove1 10 ([[], [], [], [], [], [11, 10], [], [0]] ! j)" for j
    using f by (simp add: ready_after_def task_is_running_def get_pcpu_def) (simp add: demo_sys_def)
  have "\<forall>j<5. [[], [], [], [], [], [11, 10], [], [0 :: nat]] ! j = []" by (simp add: numeral_eq_Suc All_less_Suc)
  then have r: "ready_after ?s 5 = [11]" "ready_after ?s 7 = [0]" "\<forall>j<5. ready_after ?s j = []" by (simp_all add: ra)
  have "\<exists>s'. pick_next_task (cpu_id ?s) ?s = Inr (hd (ready_after ?s 5), s') \<and>
           ready_list (pcpus s' (cpu_id ?s)) ! 5 = rotate1 (ready_after ?s 5) \<and>
           (\<forall>j<OS_PRIO_MAX. j \<noteq> 5 \<longrightarrow> ready_list (pcpus s' (cpu_id ?s)) ! j = ready_after ?s j)"
    using f r by (intro pick_next_task_policy sched_inv_state demo_sys_inv) simp_all
  then show ?thesis using r f(1) by auto
qed

text \<open>
  C3: waking a task of higher priority than everything ready on this CPU, in an interrupt
  handler, makes that task the running one when the exception returns; the interrupted task stays ready.
\<close>

theorem wake_up_preempts:
  assumes "sched_inv s" and "irq_disabled s" and "Task_lock t \<notin> locks s"
    and "state (tasks s t) = TASK_STATE_WAIT_EVENT" "cpu (tasks s t) = - 1" "delay (tasks s t) = 0" "\<not> state_linked (tasks s t)"
    and "home_cpu (tasks s t) = cpu_id s"
    and "state (cur_task s) = TASK_STATE_RUNNING" "preempt_count (cur_task s) = 0"
      "\<not> bit (ti_flags (cur_task s)) TIF_DONOT_PREEMPT"
    and "\<forall>j\<le>prio (tasks s t). ready_list (get_pcpu s) ! j = []"
    and "can_stop (Sched_timer (cpu_id s)) s"
  shows "\<exists>s1 s2. wake_up_gen sched t ps ev d s = Inr (0, s1) \<and> exception_return_handler s1 = Inr s2 \<and> cur s2 = t \<and>
     state (tasks s2 t) = TASK_STATE_RUNNING \<and> state (tasks s2 (cur s)) = TASK_STATE_READY \<and> sched_inv s2"
  using wake_preempts [OF assms] .

theorem wake_up_preempts_witness:
  "\<exists>s1 s2. wake_up_gen sched 12 TASK_STATE_PEND_OK OS_EVENT_TYPE_SEM 1 (set_irqs_off True demo_sys) = Inr (0, s1) \<and>
     exception_return_handler s1 = Inr s2 \<and> cur s2 = 12 \<and> state (tasks s2 10) = TASK_STATE_READY"
proof -
  let ?s = "set_irqs_off True demo_sys"
  have f: "cpu_id ?s = 0" "cur ?s = 10" "irq_disabled ?s" "tasks ?s = tasks demo_sys" "locks ?s = {}" "can_stop (Sched_timer 0) ?s"
    "ready_list (get_pcpu ?s) = [[], [], [], [], [], [11, 10], [], [0]]"
    by (simp_all add: set_irqs_off_def upd_pcpu_def demo_sys_def cur_def irq_disabled_def get_pcpu_def can_stop_def)
  have d: "tasks demo_sys 12 = demo_task 3 0 TASK_STATE_WAIT_EVENT (- 1) False" "tasks demo_sys 10 = demo_task 5 0 TASK_STATE_RUNNING 0 True"
    by (simp_all add: demo_sys_def)
  have v: "same_view demo_sys ?s" by simp
  have "\<forall>j\<le>3. [[], [], [], [], [], [11, 10], [], [0 :: nat]] ! j = []"
    by (simp add: le_Suc_eq numeral_eq_Suc all_simps)
  then show ?thesis
    using wake_up_preempts [OF same_view_inv [OF v demo_sys_inv] f(3), where t = 12 and ps = TASK_STATE_PEND_OK
        and ev = OS_EVENT_TYPE_SEM and d = 1] f d by (auto simp: cur_task_def)
qed

text \<open>
  C4: waking a task whose home is another CPU, with interrupts off, changes exactly this: the task
  is waking with its result and message delivered, it is at the end of that CPU's
  \<^verbatim>\<open>new_list\<close>, and that CPU gets the irqwork interrupt; no ready list is touched and no lock is left held.
\<close>

theorem wake_up_remote_handoff:
  assumes "irq_disabled s" and "t \<noteq> cur s" and "Task_lock t \<notin> locks s" "Pcpu_lock h \<notin> locks s"
    and "state (tasks s t) = TASK_STATE_WAIT_EVENT" "cpu (tasks s t) = - 1" "delay (tasks s t) = 0" "\<not> state_linked (tasks s t)"
    and "lists_inv s" and "home_cpu (tasks s t) = h" "h \<noteq> cpu_id s"
  shows "wake_up_gen rs t ps ev d s =
    Inr (0, s\<lparr>tasks := (tasks s)(t := (woken ps ev d (tasks s t))\<lparr>cpu := int h, state_linked := True\<rparr>),
              pcpus := (pcpus s)(h := (pcpus s h)\<lparr>new_list := new_list (pcpus s h) @ [t]\<rparr>),
              sgis := sgis s @ [(IRQWORK_IRQ, h)]\<rparr>)"
  using wake_up_remote [OF assms] .

theorem wake_up_remote_handoff_witness:
  "\<exists>s'. wake_up_gen sched 13 TASK_STATE_PEND_OK OS_EVENT_TYPE_SEM 7 (set_irqs_off True demo_sys) = Inr (0, s') \<and>
     new_list (pcpus s' 2) = [13] \<and> sgis s' = [(IRQWORK_IRQ, 2)] \<and> msg (tasks s' 13) = 7"
proof -
  let ?s = "set_irqs_off True demo_sys"
  have f: "cpu_id ?s = 0" "cur ?s = 10" "irq_disabled ?s" "tasks ?s = tasks demo_sys" "locks ?s = {}" "sgis ?s = []"
    "new_list (pcpus ?s 2) = []"
    by (simp_all add: set_irqs_off_def upd_pcpu_def demo_sys_def cur_def irq_disabled_def get_pcpu_def)
  have d: "tasks demo_sys 13 = demo_task 3 2 TASK_STATE_WAIT_EVENT (- 1) False" by (simp add: demo_sys_def)
  have "same_view demo_sys ?s" by simp
  then have "lists_inv ?s" using same_view_inv [OF _ demo_sys_inv] by (simp add: sched_inv_def)
  then show ?thesis
    using wake_up_remote_handoff [of ?s 13 2 sched TASK_STATE_PEND_OK OS_EVENT_TYPE_SEM 7] f d by (simp add: woken_def deliver_def)
qed

text \<open>
  C21: \<^verbatim>\<open>sched\<close> called with preemption disabled and interrupts enabled never returns: the supervisor
  call comes back with \<^verbatim>\<open>NEED_RESCHED\<close> still set and repeating it changes nothing.
\<close>

theorem sched_preempt_disabled_spins:
  assumes "preempt_count (cur_task s) > 0" and "\<not> irq_disabled s" and "\<not> in_interrupt s"
    and "\<not> bit (ti_flags (cur_task s)) TIF_TICK_EXHAUST"
  shows "\<exists>s1. sys_sched (clear_do_not_preempt (set_need_resched s)) = Inr s1 \<and> need_resched s1 \<and> cur s1 = cur s \<and>
           sys_sched s1 = Inr s1 \<and> sched s = Inl Spinning"
  using sched_stuck [OF assms] .

theorem sched_preempt_disabled_spins_witness: "sched (preempt_disable demo_sys) = Inl Spinning"
proof -
  let ?s = "preempt_disable demo_sys"
  have "preempt_count (cur_task ?s) = 1" "ti_flags (cur_task ?s) = 0" "\<not> irq_disabled ?s"
    by (simp_all add: preempt_disable_def upd_task_def cur_task_def cur_def demo_sys_def irq_disabled_def get_pcpu_def)
  then show ?thesis using sched_preempt_disabled_spins [of ?s] by (auto simp: in_interrupt_def)
qed

text \<open>
  C22: the irqwork interrupt empties the CPU's \<^verbatim>\<open>new_list\<close> and keeps the invariant, but a waker's request
  to preempt is lost: \<^verbatim>\<open>task_set_resched\<close> changes nothing, so the handler never sets \<^verbatim>\<open>NEED_RESCHED\<close> on
  account of it.
\<close>

theorem irqwork_drains_new_list:
  assumes "sched_inv s" and "irqwork_handler s = Inr s'"
  shows "sched_inv s' \<and> new_list (pcpus s' (cpu_id s)) = [] \<and> task_set_resched t s = s \<and> task_need_resched t s = 0"
  using irqwork_handler_inv [OF assms] task_resched_noop by blast

definition demo_handoff :: kstate where
  "demo_handoff = list_add_tail_new 0 12 (upd_task 12 (\<lambda>x. x\<lparr>state := TASK_STATE_WAKING\<rparr>) demo_sys)"

lemma demo_handoff_inv: "sched_inv demo_handoff"
proof -
  let ?s = "upd_task 12 (\<lambda>x. x\<lparr>state := TASK_STATE_WAKING\<rparr>) demo_sys"
  have w: "wake_ctx None sched 12 ?s"
    using sched_inv_state [OF demo_sys_inv, of 12 TASK_STATE_WAKING]
    by (intro wake_ctx_sched) (simp_all add: cur_task_def cur_def demo_sys_def)
  have "\<not> state_linked (tasks ?s 12)" "home_cpu (tasks ?s 12) = 0" by (simp_all add: demo_sys_def home_cpu_def)
  from add_new_ctx [OF w _ this] have "wake_ctx None sched 12 demo_handoff" unfolding demo_handoff_def by simp
  then show ?thesis using wake_ctx_schedD by blast
qed

theorem irqwork_drains_new_list_witness:
  "\<exists>s'. irqwork_handler demo_handoff = Inr s' \<and> new_list (pcpus s' 0) = [] \<and> ready_list (pcpus s' 0) ! 3 = [12] \<and> sched_inv s'"
proof -
  have "case irqwork_handler demo_handoff of Inr s' \<Rightarrow> ready_list (pcpus s' 0) ! 3 = [12] | Inl _ \<Rightarrow> False" by code_simp
  then obtain s' where s': "irqwork_handler demo_handoff = Inr s'" "ready_list (pcpus s' 0) ! 3 = [12]" by (auto split: sum.splits)
  moreover have "cpu_id demo_handoff = 0"
    by (simp add: demo_handoff_def list_add_tail_new_def set_state_linked_def demo_sys_def)
  ultimately show ?thesis using irqwork_drains_new_list [OF demo_handoff_inv s'(1)] by auto
qed

text \<open>
  C23: a stopping task captures the tasks its exit wakes. \<^verbatim>\<open>pick_next_task\<close> moves the exiting task to
  \<^verbatim>\<open>stop_list\<close> and then posts the recycling worker's flag; a worker with the priority of the
  exiting task is inserted in front of the current task, that is on the stop list, and its ready
  list stays as it was.
\<close>

theorem stop_list_captures_kworker:
  assumes "irq_disabled s" and "t \<noteq> cur s" and "Task_lock t \<notin> locks s"
    and "state (tasks s t) = TASK_STATE_WAIT_EVENT" "cpu (tasks s t) = - 1" "delay (tasks s t) = 0" "\<not> state_linked (tasks s t)"
    and "lists_inv s" and "home_cpu (tasks s t) = cpu_id s" and "prio (tasks s t) = prio (cur_task s)"
    and "cur s \<in> set (stop_list (get_pcpu s))" and "tasks_in_prio (get_pcpu s) ! prio (tasks s t) \<noteq> 1"
  shows "\<exists>s'. wake_up_gen rs t ps ev d s = Inr (0, s') \<and> ready_list (get_pcpu s') = ready_list (get_pcpu s) \<and>
     stop_list (get_pcpu s') = insert_before (cur s) t (stop_list (get_pcpu s))"
  using wake_up_stopping [OF assms] .

definition demo_exit :: kstate where
  "demo_exit = demo_sys\<lparr>
     tasks := (tasks demo_sys)(11 := demo_task 5 0 TASK_STATE_SUSPEND (- 1) False, 10 := demo_task 5 0 TASK_STATE_STOP 0 True),
     pcpus := (pcpus demo_sys)(0 := (demo_pcpu 0 [] 10)\<lparr>stop_list := [10], irqs_off := True\<rparr>)\<rparr>"

lemma demo_exit_inv: "lists_inv demo_exit"
proof -
  have 0: "pcpu_wf (tasks demo_exit) 0 (pcpus demo_exit 0)"
    unfolding pcpu_wf_def state_tasks_def all_less_8 all_less_7
    by (simp add: demo_exit_def demo_sys_def bit_iff_odd drop_bit_eq_div)
  have "pcpu_wf (tasks demo_exit) c (pcpus demo_exit c)" if "c < 4" "c \<noteq> 0" for c
    using that by (auto simp: demo_exit_def demo_sys_def intro!: demo_pcpu_wf)
  with 0 have wf: "pcpu_wf (tasks demo_exit) c (pcpus demo_exit c)" if "c < 4" for c using that by (cases "c = 0") auto
  show ?thesis unfolding lists_inv_def using wf by (auto simp: demo_exit_def demo_sys_def task_ok_def state_tasks_def)
qed

theorem stop_list_captures_kworker_witness:
  "\<exists>s'. wake_up_gen no_resched 14 TASK_STATE_PEND_OK OS_EVENT_TYPE_FLAG 1 demo_exit = Inr (0, s') \<and>
     stop_list (get_pcpu s') = [14, 10] \<and> ready_list (get_pcpu s') ! 5 = []"
proof -
  have c: "cur demo_exit = 10" "cpu_id demo_exit = 0" by (simp_all add: demo_exit_def cur_def demo_sys_def)
  show ?thesis
    using stop_list_captures_kworker [of demo_exit 14 no_resched TASK_STATE_PEND_OK OS_EVENT_TYPE_FLAG 1] demo_exit_inv c
    by (simp add: cur_task_def get_pcpu_def irq_disabled_def) (auto simp: demo_exit_def demo_sys_def)
qed

end
