(* ===== verification/Task.thy ===== *)
theory Task
  imports Sched_Props
begin

text \<open>
  Task creation and release, \<^verbatim>\<open>core/task.c\<close>. The task identifiers are a bitmap pool: the critical
  section of \<^verbatim>\<open>alloc_tid\<close> and \<^verbatim>\<open>release_tid\<close> interprets the interface \<open>id_pool\<close> of the bitmap theory.
  What \<^verbatim>\<open>zalloc\<close> and \<^verbatim>\<open>get_free_pages\<close> return to \<^verbatim>\<open>do_create_task\<close> are arguments (a task number, and
  whether a stack was found). Names, stacks, hooks and the initial register context are not part of
  the state. As in the scheduler, a context switch ends the step: once \<^verbatim>\<open>preempt_enable\<close> has switched, the
  rest of the call belongs to the resumed task.
\<close>

unbundle bit_operations_syntax

section \<open>Task identifiers\<close>

text \<open>The critical section of \<^verbatim>\<open>alloc_tid\<close> and the bitmap part of \<^verbatim>\<open>release_tid\<close>.\<close>

definition tid_take :: "bitmap \<Rightarrow> (nat \<times> bitmap) option" where
  "tid_take m =
     (let td = find_next_zero_bit m OS_NR_TASKS 1
      in if td \<ge> OS_NR_TASKS then None else Some (td, bm_set_bit td m))"

definition tid_put :: "nat \<Rightarrow> bitmap \<Rightarrow> bitmap" where
  "tid_put td m = bm_clear_bit td m"

definition alloc_tid :: "(kstate \<Rightarrow> kstate res) \<Rightarrow> kstate \<Rightarrow> (int \<times> kstate) res" where
  "alloc_tid rs s =
     thenR (spin_lock Tid_lock s)
       (\<lambda>s. let (td, s) = (case tid_take (tid_map s) of None \<Rightarrow> (- 1, s) | Some (td, m) \<Rightarrow> (int td, s\<lparr>tid_map := m\<rparr>))
            in thenR (spin_unlock rs Tid_lock s) (\<lambda>s. Inr (td, s)))"


definition release_tid :: "int \<Rightarrow> kstate \<Rightarrow> kstate res" where
  "release_tid td s =
     (if td < int OS_NR_TASKS \<and> td > 0
      then Inr (s\<lparr>os_task_table := (os_task_table s)(nat td := None), tid_map := tid_put (nat td) (tid_map s)\<rparr>)
      else Inl Assert_Failed)"

definition tid_early_init :: "kstate \<Rightarrow> kstate" where
  "tid_early_init s = s\<lparr>tid_map := bm_set_bit 0 (tid_map s)\<rparr>"

section \<open>Creation\<close>

definition task_timeout_handler :: "(kstate \<Rightarrow> kstate res) \<Rightarrow> nat \<Rightarrow> kstate \<Rightarrow> kstate res" where
  "task_timeout_handler rs t s = thenR (wake_up_timeout rs t s) (\<lambda>(r, s). Inr (set_need_resched s))"

text \<open>What \<^verbatim>\<open>zalloc(sizeof(struct task))\<close> returns.\<close>

definition zero_task :: task where
  "zero_task = \<lparr>preempt_count = 0, ti_flags = 0, tid = 0, task_flags = 0, delay = 0, state = TASK_STATE_RUNNING,
     pend_state = TASK_STATE_PEND_OK, wait_type = OS_EVENT_TYPE_UNKNOWN, msg = 0, wait_event = 0, flags_rdy = 0,
     cpu = 0, last_cpu = 0, affinity = 0, prio = 0, run_time = 0, ctx_sw_cnt = 0, start_ns = 0,
     state_linked = False, event_linked = False, saved_irqs_off = False\<rparr>"

definition task_init :: "nat \<Rightarrow> nat \<Rightarrow> nat \<Rightarrow> int \<Rightarrow> u64 \<Rightarrow> kstate \<Rightarrow> kstate" where
  "task_init t pr td aff opt s =
     (let s = (if opt AND TASK_FLAGS_IDLE = 0 then upd_task t (\<lambda>x. x\<lparr>preempt_count := 0, ti_flags := 0\<rparr>) s else s);
          s = upd_task t (\<lambda>x. x\<lparr>tid := td, prio := pr, pend_state := TASK_STATE_PEND_OK, task_flags := opt,
                affinity := aff, run_time := TASK_RUN_TIME, state := TASK_STATE_SUSPEND, cpu := - 1\<rparr>) s;
          s = init_timer (Delay_timer t) s
      in s\<lparr>os_task_table := (os_task_table s)(td := Some t)\<rparr>)"

definition do_create_task :: "nat option \<Rightarrow> bool \<Rightarrow> nat \<Rightarrow> nat \<Rightarrow> int \<Rightarrow> u64 \<Rightarrow> kstate \<Rightarrow> nat option \<times> kstate" where
  "do_create_task mem stack pr td aff opt s =
     (case mem of
        None \<Rightarrow> (None, s)
      | Some t \<Rightarrow>
          if \<not> stack then (None, s)
          else (Some t, task_init t pr td aff opt (upd_task t (\<lambda>_. zero_task) s)))"

definition create_task_inner ::
  "(kstate \<Rightarrow> kstate res) \<Rightarrow> nat option \<Rightarrow> bool \<Rightarrow> int \<Rightarrow> int \<Rightarrow> u64 \<Rightarrow> kstate \<Rightarrow> (nat option \<times> kstate) res" where
  "create_task_inner rs mem stack pr aff opt s =
     (let aff = (if aff \<ge> int NR_CPUS \<and> aff \<noteq> - 1 then - 1 else aff);
          pr = (if pr \<ge> int OS_PRIO_IDLE \<or> pr < 0 then 6 else pr)
      in thenR (alloc_tid rs s)
           (\<lambda>(td, s).
              if td < 0 then Inr (None, s)
              else
                (let (task, s) = do_create_task mem stack (nat pr) (nat td) aff opt (preempt_disable s)
                 in case task of
                      None \<Rightarrow> thenR (release_tid td s) (\<lambda>s. thenR (preempt_enable rs s) (\<lambda>s. Inr (None, s)))
                    | Some t \<Rightarrow>
                        thenR (if task_flags (tasks s t) AND TASK_FLAGS_NO_AUTO_START = 0 then task_ready rs t False s else Inr s)
                          (\<lambda>s. thenR (preempt_enable rs s)
                             (\<lambda>s'. thenR (if cur s' = cur s \<and> os_is_running (get_pcpu s') then rs s' else Inr s')
                                (\<lambda>s'. Inr (Some t, s')))))))"

definition create_task ::
  "(kstate \<Rightarrow> kstate res) \<Rightarrow> nat option \<Rightarrow> bool \<Rightarrow> int \<Rightarrow> int \<Rightarrow> u64 \<Rightarrow> kstate \<Rightarrow> (nat option \<times> kstate) res" where
  "create_task rs mem stack pr aff opt s =
     create_task_inner rs mem stack
       (if pr < 0 then (if opt AND of_nat OS_PRIO_VCPU \<noteq> 0 then int OS_PRIO_VCPU else int OS_PRIO_DEFAULT) else pr) aff opt s"

definition create_vcpu_task ::
  "(kstate \<Rightarrow> kstate res) \<Rightarrow> nat option \<Rightarrow> bool \<Rightarrow> int \<Rightarrow> u64 \<Rightarrow> kstate \<Rightarrow> (nat option \<times> kstate) res" where
  "create_vcpu_task rs mem stack aff flags s =
     create_task rs mem stack (int OS_PRIO_VCPU) aff (flags OR (TASK_FLAGS_VCPU OR TASK_FLAGS_NO_AUTO_START)) s"

text \<open>One task per online CPU; \<open>mem\<close> gives the allocator's answers in order.\<close>

fun create_percpu_tasks ::
  "(kstate \<Rightarrow> kstate res) \<Rightarrow> (nat option \<times> bool) list \<Rightarrow> int \<Rightarrow> u64 \<Rightarrow> nat list \<Rightarrow> kstate \<Rightarrow> kstate res" where
  "create_percpu_tasks rs mem pr flags [] s = Inr s"
| "create_percpu_tasks rs [] pr flags (c # cs) s =
     thenR (create_task rs None False pr (int c) (flags OR TASK_FLAGS_PERCPU) s)
       (\<lambda>(r, s). create_percpu_tasks rs [] pr flags cs s)"
| "create_percpu_tasks rs (m # mem) pr flags (c # cs) s =
     thenR (create_task rs (fst m) (snd m) pr (int c) (flags OR TASK_FLAGS_PERCPU) s)
       (\<lambda>(r, s). create_percpu_tasks rs mem pr flags cs s)"


definition task_early_init :: "nat \<Rightarrow> kstate \<Rightarrow> kstate" where
  "task_early_init t s = upd_task t (\<lambda>x. x\<lparr>preempt_count := 0, ti_flags := 0\<rparr>) (upd_task t (\<lambda>_. zero_task) s)"

section \<open>Leaving\<close>

text \<open>\<open>Inl Panicked\<close> after \<^verbatim>\<open>sched\<close> returns: the task is not meant to come back.\<close>

definition task_return_to_user :: "(kstate \<Rightarrow> kstate res) \<Rightarrow> kstate \<Rightarrow> kstate res" where
  "task_return_to_user rs s =
     (let t = cur s; flags = ti_flags (cur_task s)
      in if task_flags (cur_task s) AND TASK_FLAGS_VCPU = 0 then Inl Assert_Failed
         else
           (let s = upd_task t (\<lambda>x. x\<lparr>ti_flags := ti_flags x AND NOT (flags OR (tif_bit TIF_NEED_STOP OR tif_bit TIF_NEED_FREEZE))\<rparr>) s;
                s = (if flags AND tif_bit TIF_NEED_STOP \<noteq> 0 then upd_task t (\<lambda>x. x\<lparr>state := TASK_STATE_STOP\<rparr>) s
                     else if flags AND tif_bit TIF_NEED_FREEZE \<noteq> 0 then upd_task t (\<lambda>x. x\<lparr>state := TASK_STATE_SUSPEND\<rparr>) s
                     else s)
            in if state (tasks s t) \<noteq> TASK_STATE_RUNNING
               then thenR (rs s) (\<lambda>s. if cur s = t then Inl Panicked else Inr s) else Inr s))"

text \<open>The task's memory is freed before its \<^verbatim>\<open>tid\<close> is read; \<open>td\<close> is what that read returns.\<close>

definition do_release_task :: "int \<Rightarrow> kstate \<Rightarrow> kstate res" where
  "do_release_task td s = release_tid td s"

text \<open>The tasks \<^verbatim>\<open>os_for_all_task\<close> visits, in order.\<close>

definition os_for_all_task :: "kstate \<Rightarrow> nat list" where
  "os_for_all_task s =
     List.map_filter (os_task_table s) (filter (\<lambda>i. bm_test_bit i (tid_map s)) [0..<OS_NR_TASKS])"

section \<open>The identifier pool\<close>

definition tid_live :: "bitmap \<Rightarrow> nat set" where
  "tid_live m = {i \<in> {1..<OS_NR_TASKS}. bm_bit m i}"

lemma tid_take_Some:
  assumes "OS_NR_TASKS \<le> bm_cap m" and "tid_take m = Some (i, m')"
  shows "i \<in> {1..<OS_NR_TASKS}" and "i \<notin> tid_live m" and "tid_live m' = insert i (tid_live m)" and "bm_cap m' = bm_cap m"
proof -
  have i: "i = find_next_zero_bit m OS_NR_TASKS 1" "i < OS_NR_TASKS" "m' = bm_set_bit i m"
    using assms(2) by (auto simp: tid_take_def Let_def split: if_splits)
  then have r: "1 \<le> i" "\<not> bm_bit m i"
    using find_next_zero_bit_first [of m 1 OS_NR_TASKS] by (auto simp: is_first_def)
  then show "i \<in> {1..<OS_NR_TASKS}" "i \<notin> tid_live m" using i by (auto simp: tid_live_def)
  show "tid_live m' = insert i (tid_live m)" "bm_cap m' = bm_cap m"
    using i r assms(1) by (auto simp: tid_live_def bm_simps)
qed

lemma tid_take_None:
  assumes "OS_NR_TASKS \<le> bm_cap m"
  shows "tid_take m = None \<longleftrightarrow> tid_live m = {1..<OS_NR_TASKS}"
  using find_next_zero_bit_first [of m 1 OS_NR_TASKS] by (auto simp: tid_take_def Let_def tid_live_def is_first_def)

interpretation tids: id_pool tid_take tid_put tid_live "\<lambda>_. {1..<OS_NR_TASKS}" "\<lambda>m. OS_NR_TASKS \<le> bm_cap m"
proof
  fix m i m'
  assume inv: "OS_NR_TASKS \<le> bm_cap m"
  show "tid_live m \<subseteq> {1..<OS_NR_TASKS}" by (auto simp: tid_live_def)
  show "(tid_take m = None) = (tid_live m = {1..<OS_NR_TASKS})" using tid_take_None [OF inv] .
  show "i \<in> {1..<OS_NR_TASKS} \<and> i \<notin> tid_live m \<and> tid_live m' = insert i (tid_live m) \<and>
      {1..<OS_NR_TASKS} = {1..<OS_NR_TASKS} \<and> OS_NR_TASKS \<le> bm_cap m'" if "tid_take m = Some (i, m')"
    using tid_take_Some [OF inv that] inv by simp
  show "tid_live (tid_put i m) = tid_live m - {i} \<and> {1..<OS_NR_TASKS} = {1..<OS_NR_TASKS} \<and> OS_NR_TASKS \<le> bm_cap (tid_put i m)"
    if "i \<in> tid_live m"
    using that inv by (auto simp: tid_put_def tid_live_def bm_simps)
qed simp

section \<open>Creating a task keeps the scheduler invariant\<close>

lemma unlinked_off_lists:
  assumes "lists_inv s" and "c < 4" and "\<not> state_linked (tasks s t)"
  shows "t \<notin> set (state_tasks (pcpus s c))"
  using assms pcpu_wfD(8) [OF pcpu_wf_of] by blast

lemma ready_is_listed:
  assumes "lists_inv s" and "c < 4" and "t \<in> set (ready_list (pcpus s c) ! i)" and "i < 8"
  shows "t \<in> set (state_tasks (pcpus s c))"
  using assms nth_subset_concat [of i "ready_list (pcpus s c)"] pcpu_wfD(2) [OF pcpu_wf_of]
  by (auto simp: state_tasks_def simp del: set_concat)

lemma lists_inv_upd_unlinked:
  assumes inv: "lists_inv s" and nl: "\<not> state_linked (tasks s t)"
    and ok: "task_ok (f (tasks s t))" and nl': "\<not> state_linked (f (tasks s t))"
  shows "lists_inv (upd_task t f s)"
proof -
  have wf: "pcpu_wf (tasks (upd_task t f s)) c (pcpus s c)" if c: "c < 4" for c
  proof -
    note w = pcpu_wf_of [OF inv c]
    have off: "u \<noteq> t" if "u \<in> set (state_tasks (pcpus s c))" for u using unlinked_off_lists [OF inv c nl] that by auto
    have "u \<noteq> t" if "u \<in> set (ready_list (pcpus s c) ! i)" "i < 8" for u i
      using off [OF ready_is_listed [OF inv c that]] .
    then show ?thesis using w off unfolding pcpu_wf_def by simp
  qed
  then show ?thesis using inv ok nl' by (auto simp: lists_inv_def)
qed

lemma sched_inv_upd_unlinked:
  assumes inv: "sched_inv s" and nl: "\<not> state_linked (tasks s t)"
    and ok: "task_ok (f (tasks s t))" and nl': "\<not> state_linked (f (tasks s t))"
  shows "sched_inv (upd_task t f s)"
proof -
  have li: "lists_inv s" using inv by (simp add: sched_inv_def)
  have "running_task (pcpus s c) \<noteq> t" if "c < 4" for c
  proof
    assume "running_task (pcpus s c) = t"
    then have "t \<in> set (ready_list (pcpus s c) ! prio (tasks s t))" using inv that by (auto simp: sched_inv_def on_ready_list_def)
    from ready_is_listed [OF li that this prio_less [OF li]] show False using unlinked_off_lists [OF li that nl] by simp
  qed
  then show ?thesis
    using inv lists_inv_upd_unlinked [of s t f] li nl ok nl' by (simp add: sched_inv_def on_ready_list_def)
qed

lemma upd_task_tids [simp]: "tid_map (upd_task t f s) = tid_map s" "os_task_table (upd_task t f s) = os_task_table s"
  by (simp_all add: upd_task_def)

lemma init_timer_frame [simp]:
  "tasks (init_timer i s) = tasks s" "pcpus (init_timer i s) = pcpus s" "cpu_id (init_timer i s) = cpu_id s"
  "locks (init_timer i s) = locks s" "tid_map (init_timer i s) = tid_map s" "os_task_table (init_timer i s) = os_task_table s"
  for s :: kstate
  by (simp_all add: init_timer_def upd_timer_def)

lemma task_init_view:
  "pcpus (task_init t pr td aff opt s) = pcpus s" "cpu_id (task_init t pr td aff opt s) = cpu_id s"
  "u \<noteq> t \<Longrightarrow> tasks (task_init t pr td aff opt s) u = tasks s u"
  "prio (tasks (task_init t pr td aff opt s) t) = pr" "affinity (tasks (task_init t pr td aff opt s) t) = aff"
  "state_linked (tasks (task_init t pr td aff opt s) t) = state_linked (tasks s t)"
  "state (tasks (task_init t pr td aff opt s) t) = TASK_STATE_SUSPEND"
  "tid_map (task_init t pr td aff opt s) = tid_map s"
  by (simp_all add: task_init_def Let_def)

lemma create_inv:
  fixes td :: nat and opt :: u64
  assumes inv: "sched_inv s" and nl: "\<not> state_linked (tasks s t)" and pr: "pr < 8" and aff: "- 1 \<le> aff" "aff < 4"
  defines "s' \<equiv> task_init t pr td aff opt (upd_task t (\<lambda>_. zero_task) s)"
  shows "sched_inv s'" and "\<not> state_linked (tasks s' t)"
proof -
  show nl': "\<not> state_linked (tasks s' t)" by (simp add: s'_def task_init_view zero_task_def)
  have "sched_inv (upd_task t (\<lambda>_. tasks s' t) s)"
    using inv nl by (rule sched_inv_upd_unlinked) (use pr aff nl' in \<open>auto simp: s'_def task_init_view task_ok_def\<close>)
  moreover have "sched_inv s' = sched_inv (upd_task t (\<lambda>_. tasks s' t) s)"
    by (rule sched_inv_cong) (auto simp: s'_def task_init_view)
  ultimately show "sched_inv s'" by simp
qed

text \<open>With no reschedule pending, \<^verbatim>\<open>alloc_tid\<close> only changes the bitmap.\<close>

lemma alloc_tid_quiet:
  assumes nr: "\<not> need_resched s" and l: "Tid_lock \<notin> locks s"
  shows "alloc_tid rs s = Inr (case tid_take (tid_map s) of None \<Rightarrow> (- 1, s) | Some (td, m) \<Rightarrow> (int td, s\<lparr>tid_map := m\<rparr>))"
proof -
  have "need_resched (upd_task (cur s) (\<lambda>t. t\<lparr>preempt_count := preempt_count t\<rparr>) s) = need_resched s"
    by (simp add: need_resched_def cur_task_def cur_def)
  then show ?thesis
    using assms
    by (auto simp: alloc_tid_def spin_lock_def raw_spin_lock_def preempt_disable_def spin_unlock_def raw_spin_unlock_def
        preempt_enable_def cond_resched_def need_resched_def cur_task_def cur_def upd_task_def fun_upd_idem Let_def
        split: option.splits)
qed

lemma create_task_keeps_inv:
  assumes inv: "sched_inv s" and ns: "state (cur_task s) \<noteq> TASK_STATE_STOP" and nr: "\<not> need_resched s" and l: "Tid_lock \<notin> locks s"
    and mem: "\<And>t. mem = Some t \<Longrightarrow> \<not> state_linked (tasks s t)" and aff: "- 1 \<le> aff"
    and st: "create_task_inner sched mem stack pr aff opt s = Inr (r, s')"
  shows "sched_inv s'"
proof -
  define aff1 where "aff1 = (if aff \<ge> 4 \<and> aff \<noteq> - 1 then - 1 else aff)"
  define pr1 where "pr1 = nat (if pr \<ge> 7 \<or> pr < 0 then 6 else pr)"
  have b: "pr1 < 8" "- 1 \<le> aff1" "aff1 < 4" using aff by (auto simp: pr1_def aff1_def)
  define s1 where "s1 = (case tid_take (tid_map s) of None \<Rightarrow> s | Some (td, m) \<Rightarrow> s\<lparr>tid_map := m\<rparr>)"
  have s1: "tasks s1 = tasks s" "pcpus s1 = pcpus s" "cpu_id s1 = cpu_id s" "cur s1 = cur s"
    by (simp_all add: s1_def cur_def split: option.splits prod.splits)
  have v1: "same_view s (preempt_disable s1)" using s1 by (simp add: same_view_def preempt_disable_def sched_view_def)
  have w1: "wake_ctx None sched t (preempt_disable s1)" for t
    using wake_ctx_sched [OF inv ns, of t] wake_ctx_view [OF v1] by simp
  have inv1: "sched_inv (preempt_disable s1)" using w1 wake_ctx_schedD by blast
  have end_ok: "sched_inv s4"
    if w: "wake_ctx None sched t s2" and pe: "preempt_enable sched s2 = Inr s3" and fin: "s4 = s3 \<or> sched s3 = Inr s4" for t s2 s3 s4
  proof -
    have "wake_ctx None sched t s3" using preempt_enable_ctx [OF w pe] .
    then show ?thesis using fin rs_ok_sched wake_ctx_schedD unfolding rs_ok_def by blast
  qed
  show ?thesis
  proof (cases "tid_take (tid_map s)")
    case None
    then show ?thesis using st alloc_tid_quiet [OF nr l, of sched] inv by (simp add: create_task_inner_def Let_def)
  next
    case (Some a)
    obtain td m where a: "a = (td, m)" by (cases a)
    have s1': "s1 = s\<lparr>tid_map := m\<rparr>" using Some a by (simp add: s1_def)
    have st1: "(case do_create_task mem stack pr1 td aff1 opt (preempt_disable s1) of (None, k) \<Rightarrow>
        thenR (release_tid (int td) k) (\<lambda>s. thenR (preempt_enable sched s) (\<lambda>s. Inr (None, s)))
      | (Some t, k) \<Rightarrow> thenR (if task_flags (tasks k t) AND TASK_FLAGS_NO_AUTO_START = 0 then task_ready sched t False k else Inr k)
          (\<lambda>s. thenR (preempt_enable sched s)
             (\<lambda>s'. thenR (if cur s' = cur s \<and> os_is_running (get_pcpu s') then sched s' else Inr s') (\<lambda>s'. Inr (Some t, s'))))) = Inr (r, s')"
      using st alloc_tid_quiet [OF nr l, of sched] Some a s1'
      by (auto simp: create_task_inner_def Let_def aff1_def pr1_def split: prod.splits option.splits)
    show ?thesis
    proof (cases "mem = None \<or> \<not> stack")
      case True
      then have "do_create_task mem stack pr1 td aff1 opt (preempt_disable s1) = (None, preempt_disable s1)"
        by (auto simp: do_create_task_def split: option.splits)
      then obtain k where k: "release_tid (int td) (preempt_disable s1) = Inr k" "preempt_enable sched k = Inr s'"
        using st1 by auto
      have "same_view (preempt_disable s1) k"
        using k(1) by (auto simp: release_tid_def same_view_def split: if_splits)
      then have "wake_ctx None sched (cur s) k" using w1 wake_ctx_view by blast
      then show ?thesis using end_ok [OF _ k(2)] by blast
    next
      case False
      then obtain t where t: "mem = Some t" "stack" by auto
      define k where "k = task_init t pr1 td aff1 opt (upd_task t (\<lambda>_. zero_task) (preempt_disable s1))"
      have nl: "\<not> state_linked (tasks (preempt_disable s1) t)" using mem [OF t(1)] s1 by (auto simp: preempt_disable_def)
      note ci = create_inv [OF inv1 nl b, of td opt, folded k_def]
      have cu: "cur k = cur s" by (simp add: k_def cur_def task_init_view s1 preempt_disable_def)
      have "cur s \<noteq> t"
      proof
        assume "cur s = t"
        moreover have li: "lists_inv s" "cpu_id s < 4" using inv by (auto simp: sched_inv_def lists_inv_def)
        moreover have "cur s \<in> set (ready_list (pcpus s (cpu_id s)) ! prio (tasks s (cur s)))"
          using inv li(2) by (auto simp: sched_inv_def on_ready_list_def cur_def)
        ultimately show False
          using ready_is_listed [OF li _ prio_less [OF li(1)]] unlinked_off_lists [OF li mem [OF t(1)]] by auto
      qed
      then have "state (cur_task k) \<noteq> TASK_STATE_STOP"
        using ns cu by (simp add: cur_task_def k_def task_init_view s1 preempt_disable_def)
      then have wk: "wake_ctx None sched x k" for x using wake_ctx_sched [OF ci(1)] by blast
      have "do_create_task mem stack pr1 td aff1 opt (preempt_disable s1) = (Some t, k)"
        using t by (simp add: do_create_task_def k_def)
      then obtain s2 s3 where s2: "s2 = k \<or> task_ready sched t False k = Inr s2" "preempt_enable sched s2 = Inr s3"
        "s' = s3 \<or> sched s3 = Inr s'"
        using st1 by (auto split: if_splits)
      have "wake_ctx None sched t s2" using s2(1) wk task_ready_ctx by blast
      from end_ok [OF this s2(2,3)] show ?thesis .
    qed
  qed
qed

lemma create_task_no_memory:
  assumes nr: "\<not> need_resched s" and l: "Tid_lock \<notin> locks s" and cap: "OS_NR_TASKS \<le> bm_cap (tid_map s)"
    and fail: "mem = None \<or> \<not> stack"
  shows "\<exists>s'. create_task_inner rs mem stack pr aff opt s = Inr (None, s') \<and> tid_live (tid_map s') = tid_live (tid_map s) \<and>
     tasks s' = tasks s \<and> pcpus s' = pcpus s"
proof (cases "tid_take (tid_map s)")
  case None
  then show ?thesis using alloc_tid_quiet [OF nr l, of rs] by (simp add: create_task_inner_def Let_def)
next
  case (Some a)
  obtain td m where a: "tid_take (tid_map s) = Some (td, m)" using Some by (cases a) auto
  note tk = tids.alloc_SomeD [OF cap a]
  let ?k = "preempt_disable (s\<lparr>tid_map := m\<rparr>)"
  let ?e = "s\<lparr>tid_map := tid_put td m, os_task_table := (os_task_table s)(td := None)\<rparr>"
  have dc: "do_create_task mem stack p td f opt ?k = (None, ?k)" for p f using fail by (auto simp: do_create_task_def split: option.splits)
  have rl: "release_tid (int td) ?k = Inr (preempt_disable ?e)"
    using tk by (simp add: release_tid_def preempt_disable_def cur_def upd_task_def)
  have pe: "preempt_enable rs (preempt_disable ?e) = Inr ?e"
    using nr by (simp add: preempt_enable_def preempt_disable_def cond_resched_def need_resched_def cur_task_def cur_def upd_task_def fun_upd_idem)
  have "tid_live (tid_put td m) = tid_live (tid_map s)" using tk tids.release_law [of m td] by auto
  then show ?thesis
    using alloc_tid_quiet [OF nr l, of rs] a dc rl pe by (simp add: create_task_inner_def Let_def)
qed

section \<open>Boot\<close>


text \<open>The statically initialised kernel before the scheduler starts.\<close>

definition fresh_kernel :: "(nat \<Rightarrow> nat) \<Rightarrow> kstate \<Rightarrow> bool" where
  "fresh_kernel idle s \<longleftrightarrow> (\<forall>t. tasks s t = zero_task) \<and> inj_on idle {..<NR_CPUS} \<and> cpu_id s < NR_CPUS \<and>
     (\<forall>c<NR_CPUS. pcpu_id (pcpus s c) = c \<and> local_rdy_grp (pcpus s c) = 0 \<and> tasks_in_prio (pcpus s c) = replicate OS_PRIO_MAX 0) \<and>
     OS_NR_TASKS \<le> bm_cap (tid_map s) \<and> (\<forall>i<OS_NR_TASKS. \<not> bm_bit (tid_map s) i)"





section \<open>Properties\<close>


definition boot_image :: kstate where
  "boot_image = \<lparr>
     tmr = (\<lambda>i. \<lparr>tm_cpu = 0, tm_stop = False, expires = 0, timeout = 0, entry_linked = False, tm_raw = None\<rparr>),
     raws = (\<lambda>c. \<lparr>active = [], tmp_head = [], next_timer = None, running_timer = None, hw_cval = None\<rparr>),
     clock = 0, khz = 62500, tasks = (\<lambda>t. zero_task),
     pcpus = (\<lambda>c. \<lparr>pcpu_id = c, new_list = [], stop_list = [], running_task = 0, idle_task = 0, local_rdy_grp = 0, ready_list = [],
        tasks_in_prio = replicate 8 0, os_is_running = False, irqs_off = True\<rparr>),
     cpu_id = 0, events = (\<lambda>e. \<lparr>ev_type = OS_EVENT_TYPE_UNKNOWN, owner = 0, cnt = 0, data = 0, wait_list = []\<rparr>),
     flag_grps = (\<lambda>g. \<lparr>grp_flags = 0, grp_wait_list = []\<rparr>), locks = {}, sgis = [], tid_map = [0, 0, 0, 0],
     os_task_table = (\<lambda>t. None)\<rparr>"

lemma boot_image_fresh: "fresh_kernel (\<lambda>c. c) boot_image"
proof -
  have "\<not> bm_bit [0, 0, 0, 0] i" if "i < 256" for i
  proof -
    have "i div 64 < length [0, 0, 0, 0 :: u64]" using that by simp
    then have "[0, 0, 0, 0 :: u64] ! (i div 64) \<in> set [0, 0, 0, 0]" by (rule nth_mem)
    then have "[0, 0, 0, 0 :: u64] ! (i div 64) = 0" by simp
    then show ?thesis by (simp add: bm_bit_def)
  qed
  then show ?thesis by (simp add: fresh_kernel_def boot_image_def bm_cap_def)
qed


text \<open>
  C6: creating a task keeps the scheduler invariant, on every path, for every priority and every
  affinity of at least \<^verbatim>\<open>TASK_AFF_ANY\<close>.
\<close>

theorem create_task_inv:
  assumes "sched_inv s" and "state (cur_task s) \<noteq> TASK_STATE_STOP" and "\<not> need_resched s" and "Tid_lock \<notin> locks s"
    and "\<And>t. mem = Some t \<Longrightarrow> \<not> state_linked (tasks s t)" and "- 1 \<le> aff"
    and "create_task sched mem stack pr aff opt s = Inr (r, s')"
  shows "sched_inv s'"
  using create_task_keeps_inv [OF assms(1-6)] assms(7) unfolding create_task_def by blast

definition demo_boot :: kstate where
  "demo_boot = upd_pcpu 0 (\<lambda>x. x\<lparr>os_is_running := False\<rparr>) (demo_sys\<lparr>tid_map := [1, 0, 0, 0]\<rparr>)"

theorem create_task_inv_witness:
  "\<exists>s'. create_task sched (Some 20) True 5 0 TASK_FLAGS_NO_AUTO_START demo_boot = Inr (Some 20, s') \<and> sched_inv s' \<and>
     prio (tasks s' 20) = 5"
proof -
  have d: "cur demo_boot = 10" "tasks demo_boot = tasks demo_sys" "locks demo_boot = {}" "tid_map demo_boot = [1, 0, 0, 0]"
    "\<not> os_is_running (get_pcpu demo_boot)" "cpu_id demo_boot = 0"
    by (simp_all add: demo_boot_def cur_def demo_sys_def upd_pcpu_def get_pcpu_def)
  have q: "\<not> need_resched demo_boot" "Tid_lock \<notin> locks demo_boot"
    by (simp_all add: cur_task_def need_resched_def d) (simp add: demo_sys_def)
  have tk: "tid_take [1, 0, 0, 0] = Some (1, [3, 0, 0, 0])" by code_simp
  define k where "k = task_init 20 5 (Suc 0) 0 8 (upd_task 20 (\<lambda>_. zero_task) (preempt_disable (demo_boot\<lparr>tid_map := [3, 0, 0, 0]\<rparr>)))"
  have kf: "task_flags (tasks k 20) = 8" "prio (tasks k 20) = 5" "cur k = 10" "pcpus k = pcpus demo_boot" "cpu_id k = 0"
    "ti_flags (tasks k 10) = 0"
    using d by (simp_all add: k_def task_init_def cur_def preempt_disable_def Let_def) (simp add: demo_sys_def)
  define e where "e = upd_task 10 (\<lambda>t. t\<lparr>preempt_count := preempt_count t - 1\<rparr>) k"
  have pe: "preempt_enable sched k = Inr e" and ef: "cur e = 10" "\<not> os_is_running (get_pcpu e)" "prio (tasks e 20) = 5"
    using kf d by (simp_all add: preempt_enable_def cond_resched_def need_resched_def cur_task_def cur_def e_def get_pcpu_def)
  have "create_task sched (Some 20) True 5 0 8 demo_boot = Inr (Some 20, e)"
    using alloc_tid_quiet [OF q, of sched] tk d kf pe ef
    by (simp add: create_task_def create_task_inner_def do_create_task_def Let_def flip: k_def)
  then obtain s' where s': "create_task sched (Some 20) True 5 0 8 demo_boot = Inr (Some 20, s')" "prio (tasks s' 20) = 5"
    using ef by blast
  have "same_view demo_sys demo_boot" by (simp add: demo_boot_def same_view_def pcpu_view_eq)
  then have inv: "sched_inv demo_boot" by (rule same_view_inv [OF _ demo_sys_inv])
  have "sched_inv s'"
    by (rule create_task_inv [OF inv _ q _ _ s'(1)]) (simp_all add: cur_task_def d, simp_all add: demo_sys_def)
  then show ?thesis using s' by blast
qed

text \<open>
  C7: when memory for the task or its stack runs out, \<^verbatim>\<open>__create_task\<close> returns NULL and gives the task
  identifier back: the set of used identifiers, the tasks and the CPUs are as before.
\<close>

theorem create_task_rollback:
  assumes "\<not> need_resched s" and "Tid_lock \<notin> locks s" and "OS_NR_TASKS \<le> bm_cap (tid_map s)" and "mem = None \<or> \<not> stack"
  shows "\<exists>s'. create_task_inner rs mem stack pr aff opt s = Inr (None, s') \<and> tid_live (tid_map s') = tid_live (tid_map s) \<and>
     tasks s' = tasks s \<and> pcpus s' = pcpus s"
  using create_task_no_memory [OF assms] .

theorem create_task_rollback_witness:
  "\<exists>s'. create_task_inner sched None True 5 0 0 boot_image = Inr (None, s') \<and> tid_live (tid_map s') = tid_live (tid_map boot_image)"
proof -
  have "\<not> need_resched boot_image" by (simp add: need_resched_def cur_task_def boot_image_def zero_task_def)
  then show ?thesis
    using create_task_rollback [of boot_image None True sched 5 0 0] by (auto simp: boot_image_def bm_cap_def)
qed

text \<open>
  C8: the identifier pool. From a map with \<open>k\<close> free identifiers exactly the first \<open>k\<close> allocations succeed,
  and identifiers handed out together are distinct, in range and were free.
\<close>

theorem tid_pool_exact:
  assumes "OS_NR_TASKS \<le> bm_cap m"
  shows "(alloc_many tid_take n m \<noteq> None \<longleftrightarrow> n \<le> card ({1..<OS_NR_TASKS} - tid_live m)) \<and>
     (\<forall>is m'. alloc_many tid_take n m = Some (is, m') \<longrightarrow>
        length is = n \<and> distinct is \<and> set is \<subseteq> {1..<OS_NR_TASKS} \<and> set is \<inter> tid_live m = {} \<and> tid_live m' = set is \<union> tid_live m)"
  using tids.alloc_many_Some_iff [OF assms] tids.alloc_many_distinct [OF assms] by blast

theorem tid_pool_exact_witness: "alloc_many tid_take 255 [0, 0, 0, 0] \<noteq> None \<and> alloc_many tid_take 256 [0, 0, 0, 0] = None"
proof -
  have "tid_live [0, 0, 0, 0] = {}"
    using boot_image_fresh by (auto simp: fresh_kernel_def boot_image_def tid_live_def)
  moreover have "OS_NR_TASKS \<le> bm_cap [0, 0, 0, 0]" by (simp add: bm_cap_def)
  ultimately show ?thesis
    using tid_pool_exact [of "[0, 0, 0, 0]" 255, THEN conjunct1] tid_pool_exact [of "[0, 0, 0, 0]" 256, THEN conjunct1]
    by (simp del: not_None_eq)
qed

text \<open>
  C15: \<^verbatim>\<open>task_return_to_user\<close> clears every flag of the task, not only the stop and freeze
  requests: in particular a pending reschedule is lost.
\<close>

theorem return_to_user_loses_flags:
  assumes "task_flags (cur_task s) AND TASK_FLAGS_VCPU \<noteq> 0" and "state (cur_task s) = TASK_STATE_RUNNING"
    and "ti_flags (cur_task s) AND tif_bit TIF_NEED_STOP = 0" and "ti_flags (cur_task s) AND tif_bit TIF_NEED_FREEZE = 0"
  shows "\<exists>s'. task_return_to_user rs s = Inr s' \<and> ti_flags (cur_task s') = 0 \<and> \<not> need_resched s'"
proof -
  have "f AND (NOT f AND g) = 0" for f g :: u64 by (rule bit_word_eqI) (auto simp: bit_simps)
  then show ?thesis
    using assms by (simp add: task_return_to_user_def Let_def cur_task_def cur_def need_resched_def and.assoc)
qed

theorem return_to_user_loses_flags_witness:
  "\<exists>s s'. need_resched s \<and> task_return_to_user sched s = Inr s' \<and> \<not> need_resched s'"
proof -
  let ?s = "upd_task 0 (\<lambda>x. x\<lparr>task_flags := 1, ti_flags := 1\<rparr>) boot_image"
  have "cur ?s = 0" by (simp add: cur_def boot_image_def)
  moreover have "(1 :: u64) AND tif_bit 10 = 0" "(1 :: u64) AND tif_bit 11 = 0" by (simp_all add: and_tif_bit bit_1_iff)
  moreover have "need_resched ?s" using calculation(1) by (simp add: need_resched_def cur_task_def tif_bit_def)
  moreover have "state (tasks ?s 0) = TASK_STATE_RUNNING" by (simp add: boot_image_def zero_task_def)
  ultimately show ?thesis using return_to_user_loses_flags [of ?s sched] by (auto simp: cur_task_def)
qed

end
