(* ===== verification/Event.thy ===== *)
theory Event
  imports Task
begin

text \<open>
  Waiting on events: \<^verbatim>\<open>core/event.c\<close>, and the frame lemma that no scheduler operation touches an event.
  A blocking call is two steps of its task: everything up to the switch in \<^verbatim>\<open>sched\<close>, and the part the task
  executes once it runs again. The loop of \<^verbatim>\<open>__wake_up_event_waiter\<close> takes one waiter off the list per
  round, so one round more than there are waiters is enough fuel.
\<close>

unbundle bit_operations_syntax

section \<open>Definitions\<close>

definition event_init :: "nat \<Rightarrow> event_type \<Rightarrow> u64 \<Rightarrow> kstate \<Rightarrow> kstate" where
  "event_init e ty pdata s =
     upd_event e (\<lambda>x. let x = x\<lparr>ev_type := ty, wait_list := [], data := pdata\<rparr> in
        if ty = OS_EVENT_TYPE_NORMAL
        then x\<lparr>data := (if pdata = 0 then of_nat (cur s) else pdata), owner := tid (cur_task s), cnt := 0\<rparr>
        else x) s"

text \<open>\<^verbatim>\<open>__wait_event\<close>; for a flag the event is the caller's node, which \<^verbatim>\<open>flag_block\<close> links.\<close>

definition wait_event_enter :: "nat \<Rightarrow> event_type \<Rightarrow> u32 \<Rightarrow> kstate \<Rightarrow> kstate" where
  "wait_event_enter e mode to s =
     (let t = cur s;
          s = (if mode = OS_EVENT_TYPE_FLAG then s
               else upd_task t (\<lambda>x. x\<lparr>event_linked := True\<rparr>) (upd_event e (\<lambda>x. x\<lparr>wait_list := wait_list x @ [t]\<rparr>) s));
          s = do_not_preempt s
      in upd_task t (\<lambda>x. x\<lparr>state := TASK_STATE_WAIT_EVENT, pend_state := TASK_STATE_PEND_OK, wait_type := mode,
            delay := (if to = - 1 then 0 else to)\<rparr>) s)"

definition remove_event_waiter :: "nat \<Rightarrow> nat \<Rightarrow> kstate \<Rightarrow> int \<times> kstate" where
  "remove_event_waiter e t s =
     (if \<not> event_linked (tasks s t) then (- ENOENT, s)
      else (0, upd_task t (\<lambda>x. x\<lparr>event_linked := False\<rparr>) (upd_event e (\<lambda>x. x\<lparr>wait_list := remove1 t (wait_list x)\<rparr>) s)))"

definition get_event_waiter :: "nat \<Rightarrow> kstate \<Rightarrow> nat option \<times> kstate" where
  "get_event_waiter e s =
     (case wait_list (events s e) of
        [] \<Rightarrow> (None, s)
      | t # ts \<Rightarrow> (Some t, upd_task t (\<lambda>x. x\<lparr>event_linked := False\<rparr>) (upd_event e (\<lambda>x. x\<lparr>wait_list := ts\<rparr>) s)))"

fun wake_up_waiters ::
  "(kstate \<Rightarrow> kstate res) \<Rightarrow> nat \<Rightarrow> nat \<Rightarrow> u64 \<Rightarrow> pend_state \<Rightarrow> int \<Rightarrow> int \<Rightarrow> kstate \<Rightarrow> (int \<times> kstate) res" where
  "wake_up_waiters rs 0 e m ps num n s = Inl Spinning"
| "wake_up_waiters rs (Suc fuel) e m ps num n s =
     (case get_event_waiter e s of
        (None, s) \<Rightarrow> Inr (n, s)
      | (Some t, s) \<Rightarrow>
          thenR (wake_up_gen rs t ps (ev_type (events s e)) m s)
            (\<lambda>(ret, s). if ret \<noteq> 0 then wake_up_waiters rs fuel e m ps num n s
                        else if n + 1 = num then Inr (n + 1, s)
                        else wake_up_waiters rs fuel e m ps num (n + 1) s))"

abbreviation (input) OS_EVENT_OPT_NONE :: nat where "OS_EVENT_OPT_NONE \<equiv> 0"
abbreviation (input) OS_EVENT_OPT_BROADCAST :: nat where "OS_EVENT_OPT_BROADCAST \<equiv> 1"

definition wake_up_event_waiter ::
  "(kstate \<Rightarrow> kstate res) \<Rightarrow> nat \<Rightarrow> u64 \<Rightarrow> pend_state \<Rightarrow> nat \<Rightarrow> kstate \<Rightarrow> (int \<times> kstate) res" where
  "wake_up_event_waiter rs e m ps opt s =
     wake_up_waiters rs (Suc (length (wait_list (events s e)))) e m ps
       (if opt AND OS_EVENT_OPT_BROADCAST \<noteq> 0 then 0 else 1) 0 s"

definition event_pend_down :: "kstate \<Rightarrow> kstate" where
  "event_pend_down s =
     upd_task (cur s) (\<lambda>x. x\<lparr>pend_state := TASK_STATE_PEND_OK, wait_event := 0, wait_type := OS_EVENT_TYPE_UNKNOWN, msg := 0\<rparr>) s"

definition wake :: "(kstate \<Rightarrow> kstate res) \<Rightarrow> nat \<Rightarrow> kstate \<Rightarrow> (int \<times> kstate) res" where
  "wake rs e s =
     (let t = unat (data (events s e)) in
      if ev_type (events s e) \<noteq> OS_EVENT_TYPE_NORMAL then Inr (- EPERM, s)
      else if t = cur s then wake_up_gen rs t TASK_STATE_PEND_OK OS_EVENT_TYPE_NORMAL 0 s
      else
        thenR (spin_lock_irqsave (Event_lock e) s)
          (\<lambda>(flags, s). thenR (wake_up_gen rs t TASK_STATE_PEND_OK OS_EVENT_TYPE_NORMAL 0 s)
             (\<lambda>(ret, s). thenR (spin_unlock_irqrestore rs (Event_lock e) flags s) (\<lambda>s. Inr (ret, s)))))"

section \<open>Predicates on results\<close>

text \<open>\<open>ok1 P r\<close> and \<open>ok2 P r\<close>: if the step returns, \<open>P\<close> holds of the state it returns. The rules follow the syntax of
  the definitions.\<close>

definition ok1 :: "('s \<Rightarrow> bool) \<Rightarrow> 's res \<Rightarrow> bool" where
  "ok1 P r \<longleftrightarrow> (\<forall>s. r = Inr s \<longrightarrow> P s)"

definition ok2 :: "('s \<Rightarrow> bool) \<Rightarrow> ('a \<times> 's) res \<Rightarrow> bool" where
  "ok2 P r \<longleftrightarrow> (\<forall>a s. r = Inr (a, s) \<longrightarrow> P s)"

named_theorems ok_intros \<open>syntax-directed rules for \<open>ok1\<close> and \<open>ok2\<close>\<close>

lemma ok_base [ok_intros]:
  "ok1 P (Inl e)" "ok2 P (Inl e)" "P s \<Longrightarrow> ok1 P (Inr s)" "P s \<Longrightarrow> ok2 P (Inr (a, s))"
  by (simp_all add: ok1_def ok2_def)

lemma ok_thenR [ok_intros]:
  "ok1 P r \<Longrightarrow> (\<And>s. P s \<Longrightarrow> ok1 P (k s)) \<Longrightarrow> ok1 P (thenR r k)"
  "ok1 P r \<Longrightarrow> (\<And>s. P s \<Longrightarrow> ok2 P (k2 s)) \<Longrightarrow> ok2 P (thenR r k2)"
  "ok2 P r2 \<Longrightarrow> (\<And>a s. P s \<Longrightarrow> ok1 P (k3 a s)) \<Longrightarrow> ok1 P (thenR r2 (\<lambda>(a, s). k3 a s))"
  "ok2 P r2 \<Longrightarrow> (\<And>a s. P s \<Longrightarrow> ok2 P (k4 a s)) \<Longrightarrow> ok2 P (thenR r2 (\<lambda>(a, s). k4 a s))"
  by (auto simp: ok1_def ok2_def)

lemma ok_if [ok_intros]:
  "(b \<Longrightarrow> ok1 P x) \<Longrightarrow> (\<not> b \<Longrightarrow> ok1 P y) \<Longrightarrow> ok1 P (if b then x else y)"
  "(b \<Longrightarrow> ok2 P x2) \<Longrightarrow> (\<not> b \<Longrightarrow> ok2 P y2) \<Longrightarrow> ok2 P (if b then x2 else y2)"
  by simp_all

lemma ok_case [ok_intros]:
  "(x = None \<Longrightarrow> ok2 P n) \<Longrightarrow> (\<And>y. x = Some y \<Longrightarrow> ok2 P (f y)) \<Longrightarrow> ok2 P (case x of None \<Rightarrow> n | Some y \<Rightarrow> f y)"
  "(l = [] \<Longrightarrow> ok2 P n) \<Longrightarrow> (\<And>y ys. l = y # ys \<Longrightarrow> ok2 P (g y ys)) \<Longrightarrow> ok2 P (case l of [] \<Rightarrow> n | y # ys \<Rightarrow> g y ys)"
  by (simp_all split: option.splits list.splits)

lemma ok2D: "ok2 P r \<Longrightarrow> r = Inr (a, s) \<Longrightarrow> P s"
  by (simp add: ok2_def)

lemma ok1D: "ok1 P r \<Longrightarrow> r = Inr s \<Longrightarrow> P s"
  by (simp add: ok1_def)

section \<open>What the scheduler leaves alone\<close>

text \<open>\<open>keeps V rs\<close>: the step \<open>rs\<close> does not change the view \<open>V\<close> of the state. The fields of a task that only task
  creation and the event layer write are its \<open>static\<close> part.\<close>

definition keeps :: "(kstate \<Rightarrow> 'v) \<Rightarrow> (kstate \<Rightarrow> kstate res) \<Rightarrow> bool" where
  "keeps V rs \<longleftrightarrow> (\<forall>s. ok1 (\<lambda>k. V k = V s) (rs s))"

lemma keepsD: "keeps V rs \<Longrightarrow> V s = v \<Longrightarrow> ok1 (\<lambda>k. V k = v) (rs s)"
  by (auto simp: keeps_def)

definition static :: "task \<Rightarrow> nat \<times> u64 \<times> nat \<times> int \<times> bool" where
  "static x = (tid x, task_flags x, prio x, affinity x, event_linked x)"

text \<open>
  The interface of a view that the scheduler respects: it does not depend on CPUs, locks, pending
  interrupts and timers, of the tasks at most on their static part, and of the flag groups at most on
  their wait lists.
\<close>

locale kernel_frame =
  fixes V :: "kstate \<Rightarrow> 'v"
  assumes V_task: "(\<And>x. static (f x) = static x) \<Longrightarrow> V (upd_task t f s) = V s"
    and V_pcpu: "V (upd_pcpu c g s) = V s"
    and V_locks: "V (s\<lparr>locks := L\<rparr>) = V s"
    and V_sgis: "V (s\<lparr>sgis := I\<rparr>) = V s"
    and V_flag: "(\<And>x. grp_wait_list (h x) = grp_wait_list x) \<Longrightarrow> V (upd_flag gr h s) = V s"
    and V_kernel: "same_kernel s s' \<Longrightarrow> V s' = V s"
begin

lemma V_upd [simp]:
  "V (upd_pcpu c g s) = V s" "V (s\<lparr>locks := L\<rparr>) = V s" "V (set_irqs_off b s) = V s" "V (preempt_disable s) = V s"
  "V (raw_spin_unlock l s) = V s" "V (set_need_resched s) = V s" "V (clear_need_resched s) = V s"
  "V (clear_do_not_preempt s) = V s" "V (do_not_preempt s) = V s" "V (set_state_linked b t s) = V s"
  "V (list_del_state c t s) = V s" "V (list_add_tail_ready c p t s) = V s" "V (list_add_tail_new c t s) = V s"
  "V (list_add_tail_stop c t s) = V s" "V (task_set_resched t s) = V s" "V (pcpu_irqwork c s) = V s"
  by (simp_all add: V_pcpu V_locks V_sgis V_task static_def set_irqs_off_def preempt_disable_def raw_spin_unlock_def
      set_need_resched_def clear_need_resched_def clear_do_not_preempt_def do_not_preempt_def set_state_linked_def
      list_del_state_def list_add_tail_ready_def list_add_tail_new_def list_add_tail_stop_def task_set_resched_def
      pcpu_irqwork_def send_sgi_def)

lemma V_deliver: "V (upd_task t (\<lambda>x. deliver ev d (x\<lparr>pend_state := ps, state := st, delay := 0\<rparr>)) s) = V s"
  by (intro V_task) (simp add: deliver_def static_def)

lemmas V_simps = V_task V_deliver static_def

lemma V_if: "V a = v \<Longrightarrow> V b = v \<Longrightarrow> V (if c then a else b) = v"
  by simp

lemma timers_keep:
  "V s = v \<Longrightarrow> ok1 (\<lambda>k. V k = v) (sched_update_sched_timer s)" "V s = v \<Longrightarrow> ok1 (\<lambda>k. V k = v) (stop_timer i s)"
  "V s = v \<Longrightarrow> ok1 (\<lambda>k. V k = v) (setup_and_start_timer c i w s)"
  using V_kernel same_kernel_sched_timer same_kernel_stop same_kernel_start unfolding ok1_def by metis+

lemma lock_keeps:
  "V s = v \<Longrightarrow> ok2 (\<lambda>k. V k = v) (spin_lock_irqsave l s)" "V s = v \<Longrightarrow> ok1 (\<lambda>k. V k = v) (spin_lock l s)"
  "V s = v \<Longrightarrow> ok1 (\<lambda>k. V k = v) (list_insert_before_state c a t s)"
  by (auto simp: ok1_def ok2_def spin_lock_irqsave_def spin_lock_def raw_spin_lock_def list_insert_before_state_def Let_def
      split: if_splits)

lemmas base_keep = ok_intros timers_keep lock_keeps V_if

lemma cond_resched_keeps: "keeps V rs \<Longrightarrow> V s = v \<Longrightarrow> ok1 (\<lambda>k. V k = v) (cond_resched rs s)"
  unfolding cond_resched_def by (intro base_keep keepsD) simp_all

lemma enable_keeps: "keeps V rs \<Longrightarrow> V s = v \<Longrightarrow> ok1 (\<lambda>k. V k = v) (preempt_enable rs s)"
  unfolding preempt_enable_def by (intro cond_resched_keeps) (simp_all add: V_simps)

lemma unlock_keeps:
  "keeps V rs \<Longrightarrow> V s = v \<Longrightarrow> ok1 (\<lambda>k. V k = v) (spin_unlock_irqrestore rs l f s)"
  "keeps V rs \<Longrightarrow> V s = v \<Longrightarrow> ok1 (\<lambda>k. V k = v) (spin_unlock rs l s)"
  unfolding spin_unlock_irqrestore_def spin_unlock_def by (intro enable_keeps; simp)+

lemma trylock_keeps: "keeps V rs \<Longrightarrow> V s = v \<Longrightarrow> ok2 (\<lambda>k. V k = v) (spin_trylock_irqsave rs l s)"
  unfolding spin_trylock_irqsave_def Let_def by (intro base_keep enable_keeps) simp_all

lemma ready_list_keeps:
  "V s = v \<Longrightarrow> ok1 (\<lambda>k. V k = v) (add_task_to_ready_list c t p s)" "V s = v \<Longrightarrow> ok1 (\<lambda>k. V k = v) (remove_task_from_ready_list c t s)"
  unfolding add_task_to_ready_list_def remove_task_from_ready_list_def Let_def by (intro base_keep; simp)+

lemma task_ready_keeps: "keeps V rs \<Longrightarrow> V s = v \<Longrightarrow> ok1 (\<lambda>k. V k = v) (task_ready rs t p s)"
  unfolding task_ready_def smp_percpu_task_ready_def percpu_task_ready_def Let_def
  by (intro base_keep ready_list_keeps enable_keeps unlock_keeps; simp add: V_simps)

lemma wake_keeps: "keeps V rs \<Longrightarrow> V s = v \<Longrightarrow> ok2 (\<lambda>k. V k = v) (wake_up_gen rs t ps ev d s)"
  unfolding wake_up_gen_def wake_up_interrupted_def wake_up_common_def Let_def
  by (intro base_keep enable_keeps unlock_keeps trylock_keeps task_ready_keeps; simp add: V_simps)

lemma flag_nodes_keep: "keeps V rs \<Longrightarrow> V s = v \<Longrightarrow> ok2 (\<lambda>k. V k = v) (flag_post_nodes rs g ns s)"
proof (induction ns arbitrary: s)
  case (Cons n ns)
  have r: "V k = v \<Longrightarrow> ok1 (\<lambda>k. V k = v) (flag_task_ready rs n fl k)" for fl k
    unfolding flag_task_ready_def by (intro base_keep wake_keeps Cons.prems)
  show ?case unfolding flag_post_nodes.simps Let_def by (intro base_keep r Cons.IH Cons.prems; assumption)
qed (simp add: ok2_def)

lemma flag_post_keeps: "keeps V rs \<Longrightarrow> V s = v \<Longrightarrow> ok2 (\<lambda>k. V k = v) (flag_post rs g fl opt s)"
  unfolding flag_post_def Let_def
  by (intro base_keep flag_nodes_keep unlock_keeps cond_resched_keeps; simp add: V_flag)

lemma pick_keeps:
  assumes "V s = v"
  shows "ok2 (\<lambda>k. V k = v) (pick_next_task c s)"
proof -
  have K: "keeps V no_resched" by (simp add: keeps_def no_resched_def ok1_def)
  show ?thesis
    unfolding pick_next_task_def Let_def by (intro base_keep ready_list_keeps flag_post_keeps [OF K]; simp add: assms)
qed

lemma return_keeps: "V s = v \<Longrightarrow> ok1 (\<lambda>k. V k = v) (exception_return_handler s)"
  unfolding exception_return_handler_def exception_return_inner_def switch_to_task_def Let_def
  by (intro base_keep pick_keeps; simp add: V_simps)

lemma sched_keeps: "keeps V sched"
  unfolding keeps_def sched_def sys_sched_def arch_sys_sched_def Let_def
  by (intro allI base_keep return_keeps; simp add: V_simps)

text \<open>A critical section: what holds after its body, from every state with this view, holds after the call.\<close>

lemma lock_ok2:
  assumes "\<And>fl k. V k = v \<Longrightarrow> ok2 P (body fl k)" and "V s = v"
  shows "ok2 P (thenR (spin_lock_irqsave l s) (\<lambda>(fl, k). body fl k))"
  using assms lock_keeps(1) [OF assms(2), of l] by (auto simp: ok2_def)

lemma spin_lock_ok2:
  assumes "\<And>k. V k = v \<Longrightarrow> ok2 P (body k)" and "V s = v"
  shows "ok2 P (thenR (spin_lock l s) body)"
  using assms lock_keeps(2) [OF assms(2), of l] by (auto simp: ok1_def ok2_def)

lemma unlock_ok2:
  assumes K: "keeps V rs" and k: "\<And>k. V k = V s \<Longrightarrow> ok2 P (f k)"
  shows "ok2 P (thenR (spin_unlock_irqrestore rs l fl s) f)" "ok2 P (thenR (spin_unlock rs l s) f)"
  using unlock_keeps(1) [OF K refl, of s l fl] unlock_keeps(2) [OF K refl, of s l] k by (auto simp: ok1_def ok2_def)

lemma lock_ok1:
  assumes "\<And>fl k. V k = v \<Longrightarrow> ok1 P (body fl k)" and "V s = v"
  shows "ok1 P (thenR (spin_lock_irqsave l s) (\<lambda>(fl, k). body fl k))"
  using assms lock_keeps(1) [OF assms(2), of l] by (auto simp: ok1_def ok2_def)

lemma unlock_ok1:
  assumes K: "keeps V rs" and k: "\<And>k. V k = V s \<Longrightarrow> ok1 P (f k)"
  shows "ok1 P (thenR (spin_unlock_irqrestore rs l fl s) f)"
  using unlock_keeps(1) [OF K refl, of s l fl] k by (auto simp: ok1_def)

end

interpretation ev: kernel_frame events
  by unfold_locales (simp_all add: upd_pcpu_def upd_flag_def same_kernel_def)

interpretation fl: kernel_frame "\<lambda>s g. grp_wait_list (flag_grps s g)"
  by unfold_locales (auto simp: upd_pcpu_def upd_flag_def same_kernel_def fun_eq_iff)

interpretation st: kernel_frame "\<lambda>s t. static (tasks s t)"
  by unfold_locales (auto simp: upd_pcpu_def upd_flag_def same_kernel_def fun_eq_iff)

section \<open>Waking the waiters of an event\<close>

text \<open>The wait list of \<open>e\<close> after \<open>k\<close> waiters have been taken off; nothing else of any event changes.\<close>

definition taken :: "nat \<Rightarrow> nat \<Rightarrow> (nat \<Rightarrow> event) \<Rightarrow> (nat \<Rightarrow> event)" where
  "taken e k E = E(e := (E e)\<lparr>wait_list := drop k (wait_list (E e))\<rparr>)"

lemma taken_0 [simp]: "taken e 0 E = E"
  by (simp add: taken_def)

lemma taken_taken [simp]: "taken e j (taken e k E) = taken e (k + j) E"
  by (simp add: taken_def add.commute)

lemma taken_sel [simp]:
  "wait_list (taken e k E e) = drop k (wait_list (E e))" "ev_type (taken e k E e) = ev_type (E e)"
  "cnt (taken e k E e) = cnt (E e)" "data (taken e k E e) = data (E e)" "owner (taken e k E e) = owner (E e)"
  "e' \<noteq> e \<Longrightarrow> taken e k E e' = E e'"
  by (simp_all add: taken_def)

lemma get_event_waiter_taken:
  "get_event_waiter e s = (r, s') \<Longrightarrow> (case r of None \<Rightarrow> s' = s \<and> wait_list (events s e) = []
     | Some t \<Rightarrow> events s' = taken e 1 (events s) \<and> wait_list (events s e) = t # drop 1 (wait_list (events s e)))"
  by (auto simp: get_event_waiter_def taken_def upd_event_def fun_eq_iff split: list.splits)

lemma wake_up_waiters_spec:
  assumes K: "keeps events rs"
  shows "wake_up_waiters rs fuel e m ps num n s = Inr (r, s') \<Longrightarrow>
     \<exists>k \<le> length (wait_list (events s e)). events s' = taken e k (events s) \<and> n \<le> r \<and> r \<le> n + int k \<and>
       (num \<le> n \<longrightarrow> k = length (wait_list (events s e))) \<and> (n < num \<longrightarrow> r \<le> num \<and> (r < num \<longrightarrow> k = length (wait_list (events s e))))"
proof (induction fuel arbitrary: n s)
  case (Suc fuel)
  obtain w s1 where g: "get_event_waiter e s = (w, s1)" by (cases "get_event_waiter e s")
  show ?case
  proof (cases w)
    case None
    then show ?thesis using Suc.prems g get_event_waiter_taken [OF g] by (intro exI [of _ 0]) auto
  next
    case (Some t)
    let ?L = "wait_list (events s e)"
    have e1: "events s1 = taken e 1 (events s)" and L: "?L \<noteq> []" using get_event_waiter_taken [OF g] Some by auto
    from Suc.prems g Some obtain ret s2 where wk: "wake_up_gen rs t ps (ev_type (events s1 e)) m s1 = Inr (ret, s2)"
      and rest: "(if ret \<noteq> 0 then wake_up_waiters rs fuel e m ps num n s2
                  else if n + 1 = num then Inr (n + 1, s2) else wake_up_waiters rs fuel e m ps num (n + 1) s2) = Inr (r, s')"
      by (auto split: prod.splits)
    have e2: "events s2 = taken e 1 (events s)" using ok2D [OF ev.wake_keeps [OF K e1] wk] .
    have len: "length (wait_list (events s2 e)) = length ?L - 1" by (simp add: e2)
    consider (fail) "ret \<noteq> 0" "wake_up_waiters rs fuel e m ps num n s2 = Inr (r, s')"
      | (last) "ret = 0" "n + 1 = num" "r = n + 1" "s' = s2"
      | (more) "ret = 0" "n + 1 \<noteq> num" "wake_up_waiters rs fuel e m ps num (n + 1) s2 = Inr (r, s')"
      using rest by (auto split: if_splits)
    then show ?thesis
    proof cases
      case last
      then show ?thesis using e2 L by (intro exI [of _ 1]) (cases ?L, auto)
    next
      case fail
      from Suc.IH [OF fail(2)] obtain k where k: "k \<le> length (wait_list (events s2 e))" "events s' = taken e k (events s2)"
        "n \<le> r" "r \<le> n + int k" "num \<le> n \<longrightarrow> k = length (wait_list (events s2 e))"
        "n < num \<longrightarrow> r \<le> num \<and> (r < num \<longrightarrow> k = length (wait_list (events s2 e)))" by blast
      then show ?thesis using e2 L len by (intro exI [of _ "Suc k"]) (cases ?L, auto)
    next
      case more
      from Suc.IH [OF more(3)] obtain k where k: "k \<le> length (wait_list (events s2 e))" "events s' = taken e k (events s2)"
        "n + 1 \<le> r" "r \<le> n + 1 + int k" "num \<le> n + 1 \<longrightarrow> k = length (wait_list (events s2 e))"
        "n + 1 < num \<longrightarrow> r \<le> num \<and> (r < num \<longrightarrow> k = length (wait_list (events s2 e)))" by blast
      then show ?thesis using e2 L len more(2) by (intro exI [of _ "Suc k"]) (cases ?L, auto)
    qed
  qed
qed simp

lemma wake_up_waiters_fuel:
  assumes K: "keeps events rs"
  shows "length (wait_list (events s e)) < fuel \<Longrightarrow> length (wait_list (events s e)) < fuel' \<Longrightarrow>
     wake_up_waiters rs fuel e m ps num n s = wake_up_waiters rs fuel' e m ps num n s"
proof (induction fuel arbitrary: fuel' n s)
  case (Suc fuel)
  then obtain f where f: "fuel' = Suc f" by (cases fuel') auto
  obtain w s1 where g: "get_event_waiter e s = (w, s1)" by (cases "get_event_waiter e s")
  show ?case
  proof (cases w)
    case None
    then show ?thesis using f g by simp
  next
    case (Some t)
    have e1: "events s1 = taken e 1 (events s)" and L: "wait_list (events s e) \<noteq> []"
      using get_event_waiter_taken [OF g] Some by auto
    have "wake_up_waiters rs fuel e m ps num k s2 = wake_up_waiters rs f e m ps num k s2"
      if "wake_up_gen rs t ps (ev_type (events s1 e)) m s1 = Inr (ret, s2)" for ret k s2
    proof (rule Suc.IH)
      have "events s2 = taken e 1 (events s)" using ok2D [OF ev.wake_keeps [OF K e1] that] .
      then show "length (wait_list (events s2 e)) < fuel" "length (wait_list (events s2 e)) < f"
        using Suc.prems L f by (cases "wait_list (events s e)"; simp)+
    qed
    then show ?thesis using f g Some
      by (cases "wake_up_gen rs t ps (ev_type (events s1 e)) m s1") auto
  qed
qed simp

lemma wake_up_event_waiter_spec:
  assumes K: "keeps events rs" and st: "wake_up_event_waiter rs e m ps opt s = Inr (r, s')"
  shows "\<exists>k \<le> length (wait_list (events s e)). events s' = taken e k (events s) \<and> 0 \<le> r \<and> r \<le> int k \<and>
     (opt AND OS_EVENT_OPT_BROADCAST \<noteq> 0 \<or> r = 0 \<longrightarrow> wait_list (events s' e) = []) \<and> (opt AND OS_EVENT_OPT_BROADCAST = 0 \<longrightarrow> r \<le> 1)"
  using wake_up_waiters_spec [OF K st [unfolded wake_up_event_waiter_def]] by (auto split: if_splits)

end
