(* ===== verification/Ipc.thy ===== *)
theory Ipc
  imports Event
begin

text \<open>
  Semaphores (\<^verbatim>\<open>core/sem.c\<close>), mutexes (\<^verbatim>\<open>core/mutex.c\<close>), mailboxes (\<^verbatim>\<open>core/mbox.c\<close>) and event flags
  (\<^verbatim>\<open>core/flag.c\<close>; its \<^verbatim>\<open>flag_post\<close> is with the scheduler). A blocking call is split at
  \<^verbatim>\<open>sched\<close>: \<open>x_pend\<close> returns \<open>Some\<close> result, or \<open>None\<close> when the task has been switched away, and \<open>x_pend_resume\<close> is
  what the task executes when it runs again. \<^verbatim>\<open>might_sleep\<close> only prints.
\<close>

unbundle bit_operations_syntax

section \<open>The blocking and the resuming half\<close>

text \<open>The common tail of a blocking call: release the lock and give up the CPU, unless releasing it has
  already switched.\<close>

definition pend_block :: "(kstate \<Rightarrow> kstate res) \<Rightarrow> (kstate \<Rightarrow> kstate res) \<Rightarrow> kstate \<Rightarrow> ('a option \<times> kstate) res" where
  "pend_block rs unlock s =
     thenR (unlock s) (\<lambda>s'. thenR (if cur s' = cur s then rs s' else Inr s') (\<lambda>s'. Inr (None, s')))"

section \<open>Semaphores\<close>

definition INT_MAX :: u32 where
  "INT_MAX = 0x7fffffff"

definition sem_init :: "nat \<Rightarrow> u32 \<Rightarrow> kstate \<Rightarrow> kstate" where
  "sem_init e n s = upd_event e (\<lambda>x. x\<lparr>cnt := n\<rparr>) (event_init e OS_EVENT_TYPE_SEM 0 s)"

definition sem_accept :: "(kstate \<Rightarrow> kstate res) \<Rightarrow> nat \<Rightarrow> kstate \<Rightarrow> (u32 \<times> kstate) res" where
  "sem_accept rs e s =
     thenR (spin_lock_irqsave (Event_lock e) s)
       (\<lambda>(flags, s). let n = cnt (events s e); s = (if n > 0 then upd_event e (\<lambda>x. x\<lparr>cnt := cnt x - 1\<rparr>) s else s)
          in thenR (spin_unlock_irqrestore rs (Event_lock e) flags s) (\<lambda>s. Inr (n, s)))"

definition sem_pend :: "(kstate \<Rightarrow> kstate res) \<Rightarrow> nat \<Rightarrow> u32 \<Rightarrow> kstate \<Rightarrow> (int option \<times> kstate) res" where
  "sem_pend rs e tmo s =
     thenR (spin_lock_irqsave (Event_lock e) s)
       (\<lambda>(flags, s).
          if cnt (events s e) > 0 then
            thenR (spin_unlock_irqrestore rs (Event_lock e) flags (upd_event e (\<lambda>x. x\<lparr>cnt := cnt x - 1\<rparr>) s)) (\<lambda>s. Inr (Some 0, s))
          else
            pend_block rs (spin_unlock_irqrestore rs (Event_lock e) flags) (wait_event_enter e OS_EVENT_TYPE_SEM tmo s))"

definition sem_pend_resume :: "(kstate \<Rightarrow> kstate res) \<Rightarrow> nat \<Rightarrow> kstate \<Rightarrow> (int \<times> kstate) res" where
  "sem_pend_resume rs e s =
     (let t = cur s in
      case pend_state (tasks s t) of
        TASK_STATE_PEND_OK \<Rightarrow> Inr (0, event_pend_down s)
      | TASK_STATE_PEND_ABORT \<Rightarrow> Inr (- EABORT, event_pend_down s)
      | TASK_STATE_PEND_TO \<Rightarrow>
          thenR (spin_lock_irqsave (Event_lock e) s)
            (\<lambda>(flags, s). thenR (spin_unlock_irqrestore rs (Event_lock e) flags (snd (remove_event_waiter e t s)))
               (\<lambda>s. Inr (- ETIMEDOUT, event_pend_down s))))"

definition sem_post_opt :: "(kstate \<Rightarrow> kstate res) \<Rightarrow> nat \<Rightarrow> pend_state \<Rightarrow> nat \<Rightarrow> kstate \<Rightarrow> (int \<times> kstate) res" where
  "sem_post_opt rs e ps opt s =
     thenR (spin_lock_irqsave (Event_lock e) s)
       (\<lambda>(flags, s). thenR (wake_up_event_waiter rs e 0 ps opt s)
          (\<lambda>(ret, s).
             let (ret, s) =
               (if ps \<noteq> TASK_STATE_PEND_ABORT then
                  (if ret = 0 \<and> cnt (events s e) < INT_MAX then (ret, upd_event e (\<lambda>x. x\<lparr>cnt := cnt x + 1\<rparr>) s)
                   else (- EOVERFLOW, s))
                else (ret, s))
             in thenR (spin_unlock_irqrestore rs (Event_lock e) flags s)
                  (\<lambda>s. thenR (if ret > 0 then cond_resched rs s else Inr s) (\<lambda>s. Inr (ret, s)))))"

definition sem_pend_abort :: "(kstate \<Rightarrow> kstate res) \<Rightarrow> nat \<Rightarrow> kstate \<Rightarrow> (int \<times> kstate) res" where
  "sem_pend_abort rs e s = sem_post_opt rs e TASK_STATE_PEND_ABORT OS_EVENT_OPT_BROADCAST s"

definition sem_post :: "(kstate \<Rightarrow> kstate res) \<Rightarrow> nat \<Rightarrow> kstate \<Rightarrow> (int \<times> kstate) res" where
  "sem_post rs e s = sem_post_opt rs e TASK_STATE_PEND_OK OS_EVENT_OPT_NONE s"

section \<open>Mutexes\<close>

text \<open>\<^verbatim>\<open>OS_MUTEX_AVAILABLE\<close> is -1, stored in an unsigned field.\<close>

definition OS_MUTEX_AVAILABLE :: u32 where
  "OS_MUTEX_AVAILABLE = - 1"

definition mutex_init :: "nat \<Rightarrow> kstate \<Rightarrow> kstate" where
  "mutex_init e s = upd_event e (\<lambda>x. x\<lparr>cnt := OS_MUTEX_AVAILABLE\<rparr>) (event_init e OS_EVENT_TYPE_MUTEX 0 s)"

text \<open>The owner fields set to the current task.\<close>

definition mutex_own :: "nat \<Rightarrow> kstate \<Rightarrow> kstate" where
  "mutex_own e s =
     upd_event e (\<lambda>x. x\<lparr>owner := tid (cur_task s), data := of_nat (cur s), cnt := of_nat (tid (cur_task s))\<rparr>) s"

definition mutex_accept :: "(kstate \<Rightarrow> kstate res) \<Rightarrow> nat \<Rightarrow> kstate \<Rightarrow> (int \<times> kstate) res" where
  "mutex_accept rs e s =
     thenR (spin_lock (Event_lock e) s)
       (\<lambda>s. let (ret, s) = (if cnt (events s e) = OS_MUTEX_AVAILABLE then (0, mutex_own e s) else (- EBUSY, s))
            in thenR (spin_unlock rs (Event_lock e) s) (\<lambda>s. Inr (ret, s)))"

definition mutex_pend :: "(kstate \<Rightarrow> kstate res) \<Rightarrow> nat \<Rightarrow> u32 \<Rightarrow> kstate \<Rightarrow> (int option \<times> kstate) res" where
  "mutex_pend rs e tmo s =
     thenR (spin_lock (Event_lock e) s)
       (\<lambda>s. if cnt (events s e) = OS_MUTEX_AVAILABLE then
              thenR (spin_unlock rs (Event_lock e) (mutex_own e s)) (\<lambda>s. Inr (Some 0, s))
            else pend_block rs (spin_unlock rs (Event_lock e)) (wait_event_enter e OS_EVENT_TYPE_MUTEX tmo s))"

definition mutex_pend_resume :: "(kstate \<Rightarrow> kstate res) \<Rightarrow> nat \<Rightarrow> kstate \<Rightarrow> (int \<times> kstate) res" where
  "mutex_pend_resume rs e s =
     (let t = cur s in
      case pend_state (tasks s t) of
        TASK_STATE_PEND_OK \<Rightarrow> Inr (0, event_pend_down s)
      | TASK_STATE_PEND_ABORT \<Rightarrow> Inr (- EABORT, event_pend_down s)
      | TASK_STATE_PEND_TO \<Rightarrow>
          thenR (spin_lock (Event_lock e) s)
            (\<lambda>s. thenR (spin_unlock rs (Event_lock e) (snd (remove_event_waiter e t s)))
               (\<lambda>s. Inr (- ETIMEDOUT, event_pend_down s))))"

text \<open>The test \<^verbatim>\<open>if (task)\<close> is on \<^verbatim>\<open>current\<close>, which is never NULL, so the code after it, which makes the mutex
  available, is dead.\<close>

definition mutex_post :: "(kstate \<Rightarrow> kstate res) \<Rightarrow> nat \<Rightarrow> kstate \<Rightarrow> (int \<times> kstate) res" where
  "mutex_post rs e s =
     (if owner (events s e) \<noteq> tid (cur_task s) then Inl Assert_Failed
      else
        thenR (spin_lock (Event_lock e) s)
          (\<lambda>s. thenR (wake_up_event_waiter rs e 0 TASK_STATE_PEND_OK 0 s)
             (\<lambda>(ret, s). thenR (spin_unlock rs (Event_lock e) (mutex_own e s)) (\<lambda>s. Inr (0, s)))))"

section \<open>Mailboxes\<close>

definition mbox_init :: "nat \<Rightarrow> u64 \<Rightarrow> kstate \<Rightarrow> kstate" where
  "mbox_init e pmsg s = event_init e OS_EVENT_TYPE_MBOX pmsg s"

definition mbox_accept :: "(kstate \<Rightarrow> kstate res) \<Rightarrow> nat \<Rightarrow> kstate \<Rightarrow> (u64 \<times> kstate) res" where
  "mbox_accept rs e s =
     thenR (spin_lock_irqsave (Event_lock e) s)
       (\<lambda>(flags, s). let m = data (events s e) in thenR (spin_unlock_irqrestore rs (Event_lock e) flags s) (\<lambda>s. Inr (m, s)))"

definition mbox_is_pending :: "nat \<Rightarrow> kstate \<Rightarrow> bool" where
  "mbox_is_pending e s \<longleftrightarrow> data (events s e) \<noteq> 0"

definition mbox_pend :: "(kstate \<Rightarrow> kstate res) \<Rightarrow> nat \<Rightarrow> u32 \<Rightarrow> kstate \<Rightarrow> (u64 option \<times> kstate) res" where
  "mbox_pend rs e tmo s =
     thenR (spin_lock_irqsave (Event_lock e) s)
       (\<lambda>(flags, s).
          if data (events s e) \<noteq> 0 then
            let m = data (events s e) in
            thenR (spin_unlock_irqrestore rs (Event_lock e) flags (upd_event e (\<lambda>x. x\<lparr>data := 0\<rparr>) s)) (\<lambda>s. Inr (Some m, s))
          else
            pend_block rs (spin_unlock_irqrestore rs (Event_lock e) flags) (wait_event_enter e OS_EVENT_TYPE_MBOX tmo s))"

definition mbox_pend_resume :: "(kstate \<Rightarrow> kstate res) \<Rightarrow> nat \<Rightarrow> kstate \<Rightarrow> (u64 \<times> kstate) res" where
  "mbox_pend_resume rs e s =
     (let t = cur s in
      case pend_state (tasks s t) of
        TASK_STATE_PEND_OK \<Rightarrow> Inr (msg (tasks s t), event_pend_down s)
      | TASK_STATE_PEND_ABORT \<Rightarrow> Inr (0, event_pend_down s)
      | TASK_STATE_PEND_TO \<Rightarrow>
          thenR (spin_lock_irqsave (Event_lock e) s)
            (\<lambda>(flags, s). thenR (spin_unlock_irqrestore rs (Event_lock e) flags (snd (remove_event_waiter e t s)))
               (\<lambda>s. Inr (0, event_pend_down s))))"

definition mbox_post_opt :: "(kstate \<Rightarrow> kstate res) \<Rightarrow> nat \<Rightarrow> u64 \<Rightarrow> pend_state \<Rightarrow> nat \<Rightarrow> kstate \<Rightarrow> (int \<times> kstate) res" where
  "mbox_post_opt rs e pmsg ps opt s =
     (if pmsg = 0 then Inr (- EINVAL, s)
      else
        thenR (spin_lock_irqsave (Event_lock e) s)
          (\<lambda>(flags, s). thenR (wake_up_event_waiter rs e pmsg ps opt s)
             (\<lambda>(ret, s).
                let (ret, s) =
                  (if ret = 0 then
                     (if data (events s e) \<noteq> 0 then (- ENOSPC, s) else (ret, upd_event e (\<lambda>x. x\<lparr>data := pmsg\<rparr>) s))
                   else (ret, s))
                in thenR (spin_unlock_irqrestore rs (Event_lock e) flags s)
                     (\<lambda>s. thenR (if ret \<noteq> 0 then cond_resched rs s else Inr s) (\<lambda>s. Inr (ret, s))))))"

definition mobox_post_abort :: "(kstate \<Rightarrow> kstate res) \<Rightarrow> nat \<Rightarrow> kstate \<Rightarrow> (int \<times> kstate) res" where
  "mobox_post_abort rs e s = mbox_post_opt rs e 0 TASK_STATE_PEND_ABORT OS_EVENT_OPT_BROADCAST s"

definition mbox_post :: "(kstate \<Rightarrow> kstate res) \<Rightarrow> nat \<Rightarrow> u64 \<Rightarrow> kstate \<Rightarrow> (int \<times> kstate) res" where
  "mbox_post rs e pmsg s = mbox_post_opt rs e pmsg TASK_STATE_PEND_OK OS_EVENT_OPT_NONE s"

section \<open>Event flags\<close>

definition flag_init :: "flag_id \<Rightarrow> u32 \<Rightarrow> kstate \<Rightarrow> kstate" where
  "flag_init g fl s = upd_flag g (\<lambda>x. x\<lparr>grp_flags := fl, grp_wait_list := []\<rparr>) s"

definition flag_wait_set_all :: "flag_grp \<Rightarrow> u32 \<Rightarrow> bool \<Rightarrow> u32 \<times> flag_grp" where
  "flag_wait_set_all g flags consume =
     (let rdy = grp_flags g AND flags in
      if rdy = flags then (rdy, if consume then g\<lparr>grp_flags := grp_flags g AND NOT rdy\<rparr> else g) else (0, g))"

definition flag_wait_set_any :: "flag_grp \<Rightarrow> u32 \<Rightarrow> bool \<Rightarrow> u32 \<times> flag_grp" where
  "flag_wait_set_any g flags consume =
     (let rdy = grp_flags g AND flags in
      (rdy, if rdy \<noteq> 0 \<and> consume then g\<lparr>grp_flags := grp_flags g AND NOT rdy\<rparr> else g))"

definition flag_wait_clr_all :: "flag_grp \<Rightarrow> u32 \<Rightarrow> bool \<Rightarrow> u32 \<times> flag_grp" where
  "flag_wait_clr_all g flags consume =
     (let rdy = NOT (grp_flags g) AND flags in
      if rdy = flags then (rdy, if consume then g\<lparr>grp_flags := grp_flags g OR rdy\<rparr> else g) else (0, g))"

definition flag_wait_clr_any :: "flag_grp \<Rightarrow> u32 \<Rightarrow> bool \<Rightarrow> u32 \<times> flag_grp" where
  "flag_wait_clr_any g flags consume =
     (let rdy = NOT (grp_flags g) AND flags in
      (rdy, if rdy \<noteq> 0 \<and> consume then g\<lparr>grp_flags := grp_flags g OR rdy\<rparr> else g))"

text \<open>The \<^verbatim>\<open>switch\<close> that \<^verbatim>\<open>flag_accept\<close> and \<^verbatim>\<open>flag_pend\<close> share.\<close>

definition flag_check :: "nat \<Rightarrow> flag_grp \<Rightarrow> u32 \<Rightarrow> bool \<Rightarrow> u32 \<times> flag_grp" where
  "flag_check wt g flags consume =
     (if wt = FLAG_WAIT_SET_ALL then flag_wait_set_all g flags consume
      else if wt = FLAG_WAIT_SET_ANY then flag_wait_set_any g flags consume
      else if wt = FLAG_WAIT_CLR_ALL then flag_wait_clr_all g flags consume
      else if wt = FLAG_WAIT_CLR_ANY then flag_wait_clr_any g flags consume
      else (0, g))"

definition flag_accept :: "(kstate \<Rightarrow> kstate res) \<Rightarrow> flag_id \<Rightarrow> u32 \<Rightarrow> nat \<Rightarrow> kstate \<Rightarrow> (u32 \<times> kstate) res" where
  "flag_accept rs g flags wt s =
     (let consume = wt AND FLAG_CONSUME \<noteq> 0; wt = (if consume then wt - FLAG_CONSUME else wt) in
      thenR (spin_lock_irqsave (Flag_lock g) s)
        (\<lambda>(irq, s). let (rdy, grp) = flag_check wt (flag_grps s g) flags consume
           in thenR (spin_unlock_irqrestore rs (Flag_lock g) irq (upd_flag g (\<lambda>_. grp) s)) (\<lambda>s. Inr (rdy, s))))"

definition flag_block :: "flag_id \<Rightarrow> u32 \<Rightarrow> nat \<Rightarrow> u32 \<Rightarrow> kstate \<Rightarrow> kstate" where
  "flag_block g flags wt tmo s =
     wait_event_enter 0 OS_EVENT_TYPE_FLAG tmo
       (upd_flag g (\<lambda>x. x\<lparr>grp_wait_list := grp_wait_list x @ [\<lparr>node_task = cur s, node_flags = flags, node_wait_type = wt\<rparr>]\<rparr>) s)"

definition flag_pend :: "(kstate \<Rightarrow> kstate res) \<Rightarrow> flag_id \<Rightarrow> u32 \<Rightarrow> nat \<Rightarrow> u32 \<Rightarrow> kstate \<Rightarrow> (u32 option \<times> kstate) res" where
  "flag_pend rs g flags wt tmo s =
     (let consume = wt AND FLAG_CONSUME \<noteq> 0; wt = (if consume then wt - FLAG_CONSUME else wt) in
      thenR (spin_lock_irqsave (Flag_lock g) s)
        (\<lambda>(irq, s). let (rdy, grp) = flag_check wt (flag_grps s g) flags consume; s = upd_flag g (\<lambda>_. grp) s
           in if rdy \<noteq> 0 then thenR (spin_unlock_irqrestore rs (Flag_lock g) irq s) (\<lambda>s. Inr (Some rdy, s))
              else pend_block rs (spin_unlock_irqrestore rs (Flag_lock g) irq) (flag_block g flags wt tmo s)))"

text \<open>\<open>list_del(&node.list)\<close> takes off the node the task linked, the first one of that task on the list.\<close>

definition flag_pend_resume :: "(kstate \<Rightarrow> kstate res) \<Rightarrow> flag_id \<Rightarrow> nat \<Rightarrow> bool \<Rightarrow> kstate \<Rightarrow> (u32 \<times> kstate) res" where
  "flag_pend_resume rs g wt consume s =
     (let t = cur s in
      thenR (spin_lock_irqsave (Flag_lock g) s)
        (\<lambda>(irq, s).
           let (rdy, s) =
             (if pend_state (tasks s t) \<noteq> TASK_STATE_PEND_OK then
                (0, upd_flag g (\<lambda>x. x\<lparr>grp_wait_list := (case find (\<lambda>n. node_task n = t) (grp_wait_list x) of
                         None \<Rightarrow> grp_wait_list x | Some n \<Rightarrow> remove1 n (grp_wait_list x))\<rparr>)
                      (upd_task t (\<lambda>x. x\<lparr>pend_state := TASK_STATE_PEND_OK\<rparr>) s))
              else if consume then
                (let rdy = flags_rdy (tasks s t) in
                 if wt = FLAG_WAIT_SET_ALL \<or> wt = FLAG_WAIT_SET_ANY
                 then (rdy, upd_flag g (\<lambda>x. x\<lparr>grp_flags := grp_flags x AND NOT rdy\<rparr>) s)
                 else if wt = FLAG_WAIT_CLR_ALL \<or> wt = FLAG_WAIT_CLR_ANY
                 then (rdy, upd_flag g (\<lambda>x. x\<lparr>grp_flags := grp_flags x OR rdy\<rparr>) s)
                 else (0, s))
              else (flags_rdy (tasks s t), s))
           in thenR (spin_unlock_irqrestore rs (Flag_lock g) irq s) (\<lambda>s. Inr (rdy, s))))"

definition flag_pend_get_flags_ready :: "kstate \<Rightarrow> u32" where
  "flag_pend_get_flags_ready s = flags_rdy (cur_task s)"

section \<open>Effects on the event\<close>

lemma events_upd_event: "events (upd_event e f s) = (events s)(e := f (events s e))"
  by (simp add: upd_event_def)

lemma events_wait_enter:
  "mode \<noteq> OS_EVENT_TYPE_FLAG \<Longrightarrow> events (wait_event_enter e mode to s) =
     (events s)(e := (events s e)\<lparr>wait_list := wait_list (events s e) @ [cur s]\<rparr>)"
  by (simp add: wait_event_enter_def events_upd_event Let_def)

lemma events_remove_waiter:
  "events (snd (remove_event_waiter e t s)) = events s \<or>
   events (snd (remove_event_waiter e t s)) = (events s)(e := (events s e)\<lparr>wait_list := remove1 t (wait_list (events s e))\<rparr>)"
  by (simp add: remove_event_waiter_def events_upd_event)

lemma events_pend_down [simp]: "events (event_pend_down s) = events s"
  by (simp add: event_pend_down_def)

lemma ok2_Inr [simp]: "ok2 P (Inr (a, s)) = P s"
  by (simp add: ok2_def)

lemma pend_block_ok2:
  assumes K: "keeps events rs" and P: "\<And>k. events k = events s \<Longrightarrow> P k"
  shows "ok2 P (pend_block rs (spin_unlock_irqrestore rs l fl) s)" "ok2 P (pend_block rs (spin_unlock rs l) s)"
proof -
  have r: "ok2 P (thenR (if b then rs k else Inr k) (\<lambda>s'. Inr (None, s')))" if "events k = events s" for b k
    using keepsD [OF K that] that P by (auto simp: ok1_def ok2_def)
  show "ok2 P (pend_block rs (spin_unlock_irqrestore rs l fl) s)" "ok2 P (pend_block rs (spin_unlock rs l) s)"
    unfolding pend_block_def using r by (intro ev.unlock_ok2 [OF K]; blast)+
qed

section \<open>Semaphore invariant\<close>

text \<open>A semaphore with tokens left has no waiter.\<close>

definition sem_inv :: "nat \<Rightarrow> (nat \<Rightarrow> event) \<Rightarrow> bool" where
  "sem_inv e E \<longleftrightarrow> (cnt (E e) > 0 \<longrightarrow> wait_list (E e) = [])"

lemma sem_accept_inv:
  assumes K: "keeps events rs" and inv: "sem_inv e (events s)"
  shows "ok2 (\<lambda>k. sem_inv e (events k)) (sem_accept rs e s)"
  unfolding sem_accept_def Let_def
  by (rule ev.lock_ok2 [OF _ refl], rule ev.unlock_ok2 [OF K]) (use inv in \<open>auto simp: sem_inv_def events_upd_event\<close>)

lemma sem_pend_inv:
  assumes K: "keeps events rs" and inv: "sem_inv e (events s)"
  shows "ok2 (\<lambda>k. sem_inv e (events k)) (sem_pend rs e tmo s)"
  unfolding sem_pend_def
  by (rule ev.lock_ok2 [OF _ refl], rule ok_if, rule ev.unlock_ok2 [OF K], use inv in \<open>simp add: sem_inv_def events_upd_event\<close>,
      rule pend_block_ok2 [OF K]) (use inv in \<open>simp add: sem_inv_def events_wait_enter\<close>)

lemma sem_resume_inv:
  assumes K: "keeps events rs" and inv: "sem_inv e (events s)"
  shows "ok2 (\<lambda>k. sem_inv e (events k)) (sem_pend_resume rs e s)"
proof -
  have rm: "sem_inv e (events (snd (remove_event_waiter e t k)))" if "events k = events s" for t k
    using events_remove_waiter [of e t k] inv that by (auto simp: sem_inv_def)
  have to: "ok2 (\<lambda>k. sem_inv e (events k)) (thenR (spin_lock_irqsave (Event_lock e) s)
            (\<lambda>(flags, k). thenR (spin_unlock_irqrestore rs (Event_lock e) flags (snd (remove_event_waiter e t k)))
               (\<lambda>s. Inr (- ETIMEDOUT, event_pend_down s))))" for t
    by (rule ev.lock_ok2 [OF _ refl], rule ev.unlock_ok2 [OF K]) (simp add: rm)
  show ?thesis using inv to unfolding sem_pend_resume_def Let_def by (auto simp: ok2_def split: pend_state.splits)
qed

text \<open>What a post does to the events: some waiters leave, and the count stays, or grows by one when nobody waits any more.\<close>

definition sem_posted :: "nat \<Rightarrow> (nat \<Rightarrow> event) \<Rightarrow> (nat \<Rightarrow> event) \<Rightarrow> bool" where
  "sem_posted e E E' \<longleftrightarrow> (\<exists>j. E' = (taken e j E)(e := (taken e j E e)\<lparr>cnt := cnt (E' e)\<rparr>) \<and>
     (cnt (E' e) = cnt (E e) \<or> cnt (E' e) = cnt (E e) + 1 \<and> wait_list (E' e) = []))"

lemma sem_post_events:
  assumes inv: "sem_inv e E" and j: "E1 = taken e j E" "r = 0 \<longrightarrow> wait_list (E1 e) = []"
  shows "sem_inv e E1 \<and> sem_posted e E E1"
    and "r = 0 \<Longrightarrow> sem_inv e (E1(e := (E1 e)\<lparr>cnt := cnt (E1 e) + 1\<rparr>)) \<and> sem_posted e E (E1(e := (E1 e)\<lparr>cnt := cnt (E1 e) + 1\<rparr>))"
proof -
  show "sem_inv e E1 \<and> sem_posted e E E1"
    unfolding sem_posted_def by (intro conjI exI [of _ j]) (use inv j in \<open>auto simp: sem_inv_def\<close>)
  assume "r = 0"
  then show "sem_inv e (E1(e := (E1 e)\<lparr>cnt := cnt (E1 e) + 1\<rparr>)) \<and> sem_posted e E (E1(e := (E1 e)\<lparr>cnt := cnt (E1 e) + 1\<rparr>))"
    unfolding sem_posted_def by (intro conjI exI [of _ j]) (use j in \<open>auto simp: sem_inv_def\<close>)
qed

lemma wake_then:
  assumes K: "keeps events rs" and k: "events k = E"
    and P: "\<And>r s j. events s = taken e j E \<Longrightarrow> j \<le> length (wait_list (E e)) \<Longrightarrow> 0 \<le> r \<Longrightarrow> r \<le> int j \<Longrightarrow>
        (opt AND OS_EVENT_OPT_BROADCAST \<noteq> 0 \<or> r = 0 \<longrightarrow> wait_list (events s e) = []) \<Longrightarrow> ok2 P (f r s)"
  shows "ok2 P (thenR (wake_up_event_waiter rs e m ps opt k) (\<lambda>(r, s). f r s))"
proof (cases "wake_up_event_waiter rs e m ps opt k")
  case (Inr a)
  then obtain r s where a: "wake_up_event_waiter rs e m ps opt k = Inr (r, s)" by (cases a) auto
  from wake_up_event_waiter_spec [OF K a] k P [of s _ r] a show ?thesis by fastforce
qed (simp add: ok2_def)

lemma resched_tail_ok2:
  assumes K: "keeps events rs" and P: "\<And>k. events k = events s \<Longrightarrow> P k" and k: "events k = events s"
  shows "ok2 P (thenR (if b then cond_resched rs k else Inr k) (\<lambda>s. Inr (r, s)))"
  using ev.cond_resched_keeps [OF K k] P k by (auto simp: ok1_def ok2_def)

lemma sem_post_inv:
  assumes K: "keeps events rs" and inv: "sem_inv e (events s)"
  shows "ok2 (\<lambda>k. sem_inv e (events k) \<and> sem_posted e (events s) (events k)) (sem_post_opt rs e ps opt s)"
  unfolding sem_post_opt_def
proof (rule ev.lock_ok2 [OF _ refl], rule wake_then [OF K])
  fix fl j and r :: int and k s1 :: kstate
  assume "events k = events s" "events s1 = taken e j (events s)" "opt AND OS_EVENT_OPT_BROADCAST \<noteq> 0 \<or> r = 0 \<longrightarrow> wait_list (events s1 e) = []"
  then have j: "events s1 = taken e j (events s)" "r = 0 \<longrightarrow> wait_list (events s1 e) = []" by auto
  note E = sem_post_events [OF inv j]
  have tail: "ok2 (\<lambda>k. sem_inv e (events k) \<and> sem_posted e (events s) (events k))
     (thenR (spin_unlock_irqrestore rs (Event_lock e) fl s2) (\<lambda>s. thenR (if b then cond_resched rs s else Inr s) (\<lambda>s. Inr (r2, s))))"
    if "sem_inv e (events s2) \<and> sem_posted e (events s) (events s2)" for s2 r2 b
    by (rule ev.unlock_ok2 [OF K], rule resched_tail_ok2 [OF K, of s2]) (use that in auto)
  have a: "ok2 (\<lambda>k. sem_inv e (events k) \<and> sem_posted e (events s) (events k))
     (thenR (spin_unlock_irqrestore rs (Event_lock e) fl (upd_event e (\<lambda>x. x\<lparr>cnt := cnt x + 1\<rparr>) s1))
        (\<lambda>s. thenR (if r > 0 then cond_resched rs s else Inr s) (\<lambda>s. Inr (r, s))))" if "r = 0"
    by (rule tail) (use E(2) [OF that] in \<open>simp add: events_upd_event\<close>)
  have b: "ok2 (\<lambda>k. sem_inv e (events k) \<and> sem_posted e (events s) (events k))
     (thenR (spin_unlock_irqrestore rs (Event_lock e) fl s1)
        (\<lambda>s. thenR (if x > 0 then cond_resched rs s else Inr s) (\<lambda>s. Inr (x, s))))" for x :: int
    by (rule tail) (rule E(1))
  show "ok2 (\<lambda>k. sem_inv e (events k) \<and> sem_posted e (events s) (events k))
     (let (ret, s) = (if ps \<noteq> TASK_STATE_PEND_ABORT then
                  (if r = 0 \<and> cnt (events s1 e) < INT_MAX then (r, upd_event e (\<lambda>x. x\<lparr>cnt := cnt x + 1\<rparr>) s1)
                   else (- EOVERFLOW, s1)) else (r, s1))
             in thenR (spin_unlock_irqrestore rs (Event_lock e) fl s)
                  (\<lambda>s. thenR (if ret > 0 then cond_resched rs s else Inr s) (\<lambda>s. Inr (ret, s))))"
    using a b by (cases "ps = TASK_STATE_PEND_ABORT"; cases "r = 0 \<and> cnt (events s1 e) < INT_MAX")
      (simp_all only: Let_def case_prod_conv if_True if_False not_True_eq_False not_False_eq_True simp_thms)
qed

lemma sem_post_cases:
  assumes K: "keeps events rs" and st: "sem_post rs e s = Inr (r, s')"
  shows "(r = 0 \<and> cnt (events s e) < INT_MAX \<and> cnt (events s' e) = cnt (events s e) + 1 \<and> wait_list (events s' e) = []) \<or>
     (r = - EOVERFLOW \<and> cnt (events s' e) = cnt (events s e))"
proof -
  obtain fl k where l: "spin_lock_irqsave (Event_lock e) s = Inr (fl, k)" and k: "events k = events s"
    using st ev.lock_keeps(1) [OF refl, of s "Event_lock e"] by (auto simp: sem_post_def sem_post_opt_def ok2_def)
  obtain q s1 where w: "wake_up_event_waiter rs e 0 TASK_STATE_PEND_OK OS_EVENT_OPT_NONE k = Inr (q, s1)"
    using st l by (auto simp: sem_post_def sem_post_opt_def)
  obtain j where j: "events s1 = taken e j (events s)" "q = 0 \<longrightarrow> wait_list (events s1 e) = []"
    using wake_up_event_waiter_spec [OF K w] k by auto
  define s2 where "s2 = (if q = 0 \<and> cnt (events s1 e) < INT_MAX then upd_event e (\<lambda>x. x\<lparr>cnt := cnt x + 1\<rparr>) s1 else s1)"
  define r2 where "r2 = (if q = 0 \<and> cnt (events s1 e) < INT_MAX then q else - EOVERFLOW)"
  have u: "spin_unlock_irqrestore rs (Event_lock e) fl s2 = Inr s'" "r = r2"
    using st l w by (auto simp: sem_post_def sem_post_opt_def s2_def r2_def Let_def split: if_splits)
  have "events s' = events s2" using ok1D [OF ev.unlock_keeps(1) [OF K refl] u(1)] .
  then show ?thesis using u(2) j by (auto simp: s2_def r2_def events_upd_event)
qed

section \<open>Mutexes and mailboxes\<close>

lemma mutex_accept_cases:
  assumes K: "keeps events rs" and st: "mutex_accept rs e s = Inr (r, s')"
  shows "if cnt (events s e) = OS_MUTEX_AVAILABLE
     then r = 0 \<and> cnt (events s' e) = of_nat (tid (cur_task s)) \<and> owner (events s' e) = tid (cur_task s)
     else r = - EBUSY \<and> events s' = events s"
proof -
  obtain k where l: "spin_lock (Event_lock e) s = Inr k" using st by (auto simp: mutex_accept_def)
  have k: "events k = events s" "cur k = cur s" "tid (cur_task k) = tid (cur_task s)"
    using l by (auto simp: spin_lock_def raw_spin_lock_def preempt_disable_def cur_task_def cur_def split: if_splits)
  define s2 where "s2 = (if cnt (events k e) = OS_MUTEX_AVAILABLE then mutex_own e k else k)"
  have u: "spin_unlock rs (Event_lock e) s2 = Inr s'" "r = (if cnt (events k e) = OS_MUTEX_AVAILABLE then 0 else - EBUSY)"
    using st l by (auto simp: mutex_accept_def s2_def Let_def split: if_splits)
  have "events s' = events s2" using ok1D [OF ev.unlock_keeps(2) [OF K refl] u(1)] .
  then show ?thesis using u(2) k by (simp add: s2_def mutex_own_def events_upd_event)
qed

lemma tid_static: "static x = static y \<Longrightarrow> tid x = tid y"
  by (simp add: static_def)

lemma mutex_post_owner:
  assumes K: "keeps events rs" and S: "keeps (\<lambda>s t. static (tasks s t)) rs" and st: "mutex_post rs e s = Inr (r, s')"
  shows "\<exists>t. cnt (events s' e) = of_nat (tid (tasks s t)) \<and> owner (events s' e) = tid (tasks s t)"
proof -
  obtain k where l: "spin_lock (Event_lock e) s = Inr k" using st by (auto simp: mutex_post_def split: if_splits)
  obtain q s1 where w: "wake_up_event_waiter rs e 0 TASK_STATE_PEND_OK 0 k = Inr (q, s1)"
    and u: "spin_unlock rs (Event_lock e) (mutex_own e s1) = Inr s'"
    using st l by (auto simp: mutex_post_def split: if_splits)
  have view: "events s' = events (mutex_own e s1)" using ok1D [OF ev.unlock_keeps(2) [OF K refl] u] .
  have k: "(\<lambda>t. tid (tasks k t)) = (\<lambda>t. tid (tasks s t))"
    using ok1D [OF st.lock_keeps(2) [OF refl] l] tid_static by (metis (mono_tags))
  have wk: "wake_up_waiters rs fuel e m ps num n k1 = Inr (n', k2) \<Longrightarrow> tid (tasks k2 t) = tid (tasks k1 t)" for fuel m ps num n n' k1 k2 t
  proof (induction fuel arbitrary: n k1)
    case (Suc fuel)
    obtain w' k3 where g: "get_event_waiter e k1 = (w', k3)" by (cases "get_event_waiter e k1")
    have t3: "tid (tasks k3 t) = tid (tasks k1 t)"
      using g by (auto simp: get_event_waiter_def upd_event_def split: list.splits)
    show ?case
    proof (cases w')
      case (Some u)
      then obtain ret k4 where wu: "wake_up_gen rs u ps (ev_type (events k3 e)) m k3 = Inr (ret, k4)"
        and cont: "k2 = k4 \<or> (\<exists>i. wake_up_waiters rs fuel e m ps num i k4 = Inr (n', k2))"
        using Suc.prems g by (auto split: if_splits)
      have "tid (tasks k4 t) = tid (tasks k3 t)"
        using ok2D [OF st.wake_keeps [OF S refl] wu] tid_static by metis
      with cont Suc.IH t3 show ?thesis by metis
    qed (use Suc.prems g t3 in simp)
  qed simp
  have "tid (tasks s1 t) = tid (tasks s t)" for t
    using wk [OF w [unfolded wake_up_event_waiter_def]] k by (metis (mono_tags))
  then show ?thesis using view by (auto simp: mutex_own_def events_upd_event cur_task_def)
qed

lemma mbox_post_ok:
  assumes K: "keeps events rs" and st: "mbox_post rs e m s = Inr (0, s')"
  shows "m \<noteq> 0 \<and> data (events s e) = 0 \<and> data (events s' e) = m"
proof -
  have m: "m \<noteq> 0" using st by (auto simp: mbox_post_def mbox_post_opt_def split: if_splits)
  obtain fl k where l: "spin_lock_irqsave (Event_lock e) s = Inr (fl, k)" and k: "events k = events s"
    using st m ev.lock_keeps(1) [OF refl, of s "Event_lock e"] by (auto simp: mbox_post_def mbox_post_opt_def ok2_def)
  obtain q s1 where w: "wake_up_event_waiter rs e m TASK_STATE_PEND_OK OS_EVENT_OPT_NONE k = Inr (q, s1)"
    using st m l by (auto simp: mbox_post_def mbox_post_opt_def)
  obtain j where j: "events s1 = taken e j (events s)" using wake_up_event_waiter_spec [OF K w] k by auto
  have z: "q = 0" "data (events s1 e) = 0"
    "spin_unlock_irqrestore rs (Event_lock e) fl (upd_event e (\<lambda>x. x\<lparr>data := m\<rparr>) s1) = Inr s'"
    using st m l w by (auto simp: mbox_post_def mbox_post_opt_def Let_def split: if_splits)
  have "events s' = events (upd_event e (\<lambda>x. x\<lparr>data := m\<rparr>) s1)" using ok1D [OF ev.unlock_keeps(1) [OF K refl] z(3)] .
  then show ?thesis using m z(2) j by (simp add: events_upd_event)
qed

lemma mbox_pend_full:
  assumes K: "keeps events rs" and d: "data (events s e) \<noteq> 0" and st: "mbox_pend rs e tmo s = Inr (r, s')"
  shows "r = Some (data (events s e)) \<and> data (events s' e) = 0"
proof -
  obtain fl k where l: "spin_lock_irqsave (Event_lock e) s = Inr (fl, k)" and k: "events k = events s"
    using st ev.lock_keeps(1) [OF refl, of s "Event_lock e"] by (auto simp: mbox_pend_def ok2_def)
  have u: "spin_unlock_irqrestore rs (Event_lock e) fl (upd_event e (\<lambda>x. x\<lparr>data := 0\<rparr>) k) = Inr s'" "r = Some (data (events s e))"
    using st l k d by (auto simp: mbox_pend_def Let_def)
  have "events s' = events (upd_event e (\<lambda>x. x\<lparr>data := 0\<rparr>) k)" using ok1D [OF ev.unlock_keeps(1) [OF K refl] u(1)] .
  then show ?thesis using u(2) by (simp add: events_upd_event)
qed

section \<open>Properties\<close>

text \<open>The operations on one semaphore, and every step that leaves events alone.\<close>

inductive sem_step :: "nat \<Rightarrow> kstate \<Rightarrow> kstate \<Rightarrow> bool" for e where
  Accept: "sem_accept sched e s = Inr (n, s') \<Longrightarrow> sem_step e s s'"
| Pend: "sem_pend sched e tmo s = Inr (r, s') \<Longrightarrow> sem_step e s s'"
| Resume: "sem_pend_resume sched e s = Inr (r', s') \<Longrightarrow> sem_step e s s'"
| Post: "sem_post sched e s = Inr (r', s') \<Longrightarrow> sem_step e s s'"
| Abort: "sem_pend_abort sched e s = Inr (r', s') \<Longrightarrow> sem_step e s s'"
| Other: "events s' = events s \<Longrightarrow> sem_step e s s'"

lemma sem_step_inv: "sem_step e s s' \<Longrightarrow> sem_inv e (events s) \<Longrightarrow> sem_inv e (events s')"
proof (induction rule: sem_step.induct)
  case (Accept s n s')
  then show ?case using ok2D [OF sem_accept_inv [OF ev.sched_keeps]] by blast
next
  case (Pend tmo s r s')
  then show ?case using ok2D [OF sem_pend_inv [OF ev.sched_keeps]] by blast
next
  case (Resume s r' s')
  then show ?case using ok2D [OF sem_resume_inv [OF ev.sched_keeps]] by blast
next
  case (Post s r' s')
  then show ?case using ok2D [OF sem_post_inv [OF ev.sched_keeps]] unfolding sem_post_def by blast
next
  case (Abort s r' s')
  then show ?case using ok2D [OF sem_post_inv [OF ev.sched_keeps]] unfolding sem_pend_abort_def by blast
qed simp

lemma sem_reach: "(sem_step e)\<^sup>*\<^sup>* s s' \<Longrightarrow> sem_inv e (events s) \<Longrightarrow> sem_inv e (events s')"
  by (induction rule: rtranclp_induct) (auto intro: sem_step_inv)

text \<open>
  C9: along every sequence of accepts, pends, timeouts, posts and aborts, interleaved with
  scheduler steps, a semaphore never has tokens and waiters at the same time: no wake-up is lost.
\<close>

theorem sem_no_lost_wakeup:
  assumes "(sem_step e)\<^sup>*\<^sup>* s s'" and "cnt (events s e) > 0 \<longrightarrow> wait_list (events s e) = []" and "cnt (events s' e) > 0"
  shows "wait_list (events s' e) = []"
  using sem_reach [OF assms(1)] assms(2,3) by (simp add: sem_inv_def)

lemma demo_post: "\<exists>s'. sem_post sched 0 demo_sys = Inr (0, s') \<and> cnt (events s' 0) = 1"
proof -
  have "case sem_post sched 0 demo_sys of Inr (r, s') \<Rightarrow> r = 0 \<and> cnt (events s' 0) = 1 | Inl _ \<Rightarrow> False" by code_simp
  then show ?thesis by (auto split: sum.splits prod.splits)
qed

theorem sem_no_lost_wakeup_witness:
  "\<exists>s'. (sem_step 0)\<^sup>*\<^sup>* demo_sys s' \<and> cnt (events s' 0) = 1 \<and> wait_list (events s' 0) = []"
proof -
  obtain s' where s': "sem_post sched 0 demo_sys = Inr (0, s')" "cnt (events s' 0) = 1" using demo_post by blast
  have r: "(sem_step 0)\<^sup>*\<^sup>* demo_sys s'" using sem_step.Post [OF s'(1)] by (rule r_into_rtranclp)
  then show ?thesis using sem_no_lost_wakeup [OF r] s'(2) by (auto simp: demo_sys_def)
qed

text \<open>
  C12: a post either adds a token and returns 0, with nobody waiting any more, or leaves the count alone and returns
  \<^verbatim>\<open>-EOVERFLOW\<close>: also when it handed the token to a waiter.
\<close>

theorem sem_post_result:
  assumes "sem_post sched e s = Inr (r, s')"
  shows "(r = 0 \<and> cnt (events s e) < INT_MAX \<and> cnt (events s' e) = cnt (events s e) + 1 \<and> wait_list (events s' e) = []) \<or>
     (r = - EOVERFLOW \<and> cnt (events s' e) = cnt (events s e))"
  using sem_post_cases [OF ev.sched_keeps assms] .

theorem sem_post_result_witness:
  "\<exists>s'. sem_post sched 0 demo_sys = Inr (0, s') \<and> cnt (events s' 0) = 1 \<and> wait_list (events s' 0) = []"
proof -
  obtain s' where s': "sem_post sched 0 demo_sys = Inr (0, s')" "cnt (events s' 0) = 1" using demo_post by blast
  then show ?thesis using sem_post_result [OF s'(1)] by auto
qed

text \<open>
  C13: a mutex that was acquired is never free again. After \<^verbatim>\<open>mutex_post\<close> the mutex still belongs to a task,
  and every \<^verbatim>\<open>mutex_accept\<close> fails with \<^verbatim>\<open>-EBUSY\<close>.
\<close>

theorem mutex_post_never_releases:
  assumes "\<forall>t. tid (tasks s t) < OS_NR_TASKS" and "mutex_post sched e s = Inr (r, s')"
    and "events s1 = events s'" and "mutex_accept sched e s1 = Inr (r1, s2)"
  shows "cnt (events s' e) \<noteq> OS_MUTEX_AVAILABLE \<and> r1 = - EBUSY \<and> events s2 = events s'"
proof -
  obtain t where "cnt (events s' e) = of_nat (tid (tasks s t))"
    using mutex_post_owner [OF ev.sched_keeps st.sched_keeps assms(2)] by blast
  moreover have "(of_nat n :: u32) \<noteq> OS_MUTEX_AVAILABLE" if "n < 256" for n
  proof
    assume "(of_nat n :: u32) = OS_MUTEX_AVAILABLE"
    then have "unat (of_nat n :: u32) = unat (- 1 :: u32)" by (simp add: OS_MUTEX_AVAILABLE_def)
    then show False using that by (simp add: unat_of_nat unsigned_minus_1_eq_mask mask_eq_exp_minus_1)
  qed
  ultimately have "cnt (events s' e) \<noteq> OS_MUTEX_AVAILABLE" using assms(1) by metis
  then show ?thesis using mutex_accept_cases [OF ev.sched_keeps assms(4)] assms(3) by simp
qed

definition demo_mutex :: kstate where
  "demo_mutex = upd_event 0 (\<lambda>x. x\<lparr>ev_type := OS_EVENT_TYPE_MUTEX, cnt := 0, owner := 0\<rparr>) demo_sys"

theorem mutex_post_never_releases_witness:
  "\<exists>s' s2. mutex_post sched 0 demo_mutex = Inr (0, s') \<and> mutex_accept sched 0 s' = Inr (- EBUSY, s2)"
proof -
  have "case mutex_post sched 0 demo_mutex of
      Inr (r, s') \<Rightarrow> r = 0 \<and> (case mutex_accept sched 0 s' of Inr (r1, s2) \<Rightarrow> True | Inl _ \<Rightarrow> False) | Inl _ \<Rightarrow> False"
    by code_simp
  then obtain s' r1 s2 where s': "mutex_post sched 0 demo_mutex = Inr (0, s')" "mutex_accept sched 0 s' = Inr (r1, s2)"
    unfolding case_res_iff by blast
  have "\<forall>t. tid (tasks demo_mutex t) < OS_NR_TASKS" by (simp add: demo_mutex_def upd_event_def demo_sys_def demo_task_def)
  from mutex_post_never_releases [OF this s'(1) refl s'(2)] show ?thesis using s' by auto
qed

text \<open>
  C10: mailbox round trip. A message that \<^verbatim>\<open>mbox_post\<close> accepted into the mailbox is what the next \<^verbatim>\<open>mbox_pend\<close>
  returns, without blocking, and the mailbox is empty again.
\<close>

theorem mbox_roundtrip:
  assumes "mbox_post sched e m s = Inr (0, s')" and "events s1 = events s'" and "mbox_pend sched e tmo s1 = Inr (r, s2)"
  shows "r = Some m \<and> m \<noteq> 0 \<and> data (events s e) = 0 \<and> data (events s2 e) = 0"
  using mbox_post_ok [OF ev.sched_keeps assms(1)] mbox_pend_full [OF ev.sched_keeps _ assms(3)] assms(2) by auto

theorem mbox_roundtrip_witness:
  "\<exists>s' s2. mbox_post sched 0 42 demo_sys = Inr (0, s') \<and> mbox_pend sched 0 5 s' = Inr (Some 42, s2)"
proof -
  have "case mbox_post sched 0 42 demo_sys of
      Inr (r, s') \<Rightarrow> r = 0 \<and> (case mbox_pend sched 0 5 s' of Inr (r1, s2) \<Rightarrow> True | Inl _ \<Rightarrow> False) | Inl _ \<Rightarrow> False"
    by code_simp
  then obtain s' r1 s2 where s': "mbox_post sched 0 42 demo_sys = Inr (0, s')" "mbox_pend sched 0 5 s' = Inr (r1, s2)"
    unfolding case_res_iff by blast
  from mbox_roundtrip [OF s'(1) refl s'(2)] show ?thesis using s' by auto
qed

text \<open>
  C11: the flag test. A successful test returns a non-empty part of the requested flags that have the wanted
  value, all of them for the two \<open>ALL\<close> kinds, and with \<^verbatim>\<open>FLAG_CONSUME\<close> flips exactly the returned flags.
\<close>

theorem flag_check_spec:
  assumes "flag_check wt g fl consume = (rdy, g')" and "rdy \<noteq> 0"
  shows "wt \<le> FLAG_WAIT_SET_ANY \<and> rdy AND NOT fl = 0 \<and> (wt = FLAG_WAIT_SET_ALL \<or> wt = FLAG_WAIT_CLR_ALL \<longrightarrow> rdy = fl) \<and>
     (wt = FLAG_WAIT_SET_ALL \<or> wt = FLAG_WAIT_SET_ANY \<longrightarrow> rdy AND grp_flags g = rdy) \<and>
     (wt = FLAG_WAIT_CLR_ALL \<or> wt = FLAG_WAIT_CLR_ANY \<longrightarrow> rdy AND grp_flags g = 0) \<and>
     grp_flags g' = (if consume then grp_flags g XOR rdy else grp_flags g) \<and> grp_wait_list g' = grp_wait_list g"
proof -
  have x: "f AND NOT (f AND r) = f XOR (f AND r)" "f OR (NOT f AND r) = f XOR (NOT f AND r)" for f r :: u32
    by (rule bit_word_eqI; auto simp: bit_simps)+
  have y: "(f AND r) AND NOT r = 0" "(NOT f AND r) AND NOT r = 0" "(f AND r) AND f = f AND r" "(NOT f AND r) AND f = 0" for f r :: u32
    by (rule bit_word_eqI; auto simp: bit_simps)+
  have z: "f AND r = r \<Longrightarrow> r AND f = r" "NOT f AND r = r \<Longrightarrow> r AND f = 0" for f r :: u32
    using y(4) [of f r] by (simp_all add: and.commute)
  show ?thesis
    using assms x y
    by (auto intro: z simp: flag_check_def flag_wait_set_all_def flag_wait_set_any_def flag_wait_clr_all_def flag_wait_clr_any_def Let_def
        split: if_splits)
qed

theorem flag_check_spec_witness:
  "flag_check FLAG_WAIT_SET_ANY \<lparr>grp_flags = 6, grp_wait_list = []\<rparr> 3 True = (2, \<lparr>grp_flags = 4, grp_wait_list = []\<rparr>) \<and>
     (2 :: u32) AND NOT 3 = 0"
  using flag_check_spec [of FLAG_WAIT_SET_ANY "\<lparr>grp_flags = 6, grp_wait_list = []\<rparr>" 3 True 2 "\<lparr>grp_flags = 4, grp_wait_list = []\<rparr>"]
  by (simp add: flag_check_def flag_wait_set_any_def Let_def)

text \<open>
  C14: \<^verbatim>\<open>flag_post\<close> never takes a node off a wait list, so the node of a woken task, which lives in the stack frame
  of its \<^verbatim>\<open>flag_pend\<close>, stays linked after the call has returned.
\<close>

theorem flag_post_never_unlinks:
  assumes "flag_post sched g fl opt s = Inr (r, s')"
  shows "grp_wait_list (flag_grps s' g') = grp_wait_list (flag_grps s g')"
  using ok2D [OF fl.flag_post_keeps [OF fl.sched_keeps refl] assms] by meson

theorem flag_post_never_unlinks_witness:
  "\<exists>s'. flag_post sched (Flag_grp 0) 1 FLAG_SET demo_sys = Inr (1, s') \<and> grp_wait_list (flag_grps s' (Flag_grp 0)) = []"
proof -
  have "case flag_post sched (Flag_grp 0) 1 FLAG_SET demo_sys of Inr (r, s') \<Rightarrow> r = 1 | Inl _ \<Rightarrow> False" by code_simp
  then obtain s' where s': "flag_post sched (Flag_grp 0) 1 FLAG_SET demo_sys = Inr (1, s')" by (auto split: sum.splits prod.splits)
  from flag_post_never_unlinks [OF s', of "Flag_grp 0"] show ?thesis using s' by (auto simp: demo_sys_def)
qed

end
