(* ===== verification/Queue.thy ===== *)
theory Queue
  imports Ipc
begin

text \<open>
  Message queues (\<^verbatim>\<open>core/queue.c\<close>). A queue is an event whose \<^verbatim>\<open>data\<close> points to a \<^verbatim>\<open>struct queue\<close>; those
  objects live in a heap \<open>qheap\<close> next to the kernel state. The pointers \<^verbatim>\<open>q_in\<close>, \<^verbatim>\<open>q_out\<close> and \<^verbatim>\<open>q_end\<close> into the
  buffer are indices, \<^verbatim>\<open>q_start\<close> is the buffer itself. The ring buffer implements the interface
  \<open>bounded_deque\<close>, and every operation of the queue implements the corresponding step of an abstract
  message list that forgets indices, locks and the scheduler.
\<close>

section \<open>Definitions\<close>

record queue =
  q_start :: "u64 list"
  q_end :: nat
  q_in :: nat
  q_out :: nat
  q_size :: int
  q_cnt :: int

type_synonym qheap = "u64 \<rightharpoonup> queue"

text \<open>\<^verbatim>\<open>queue_init\<close>: the two results of \<^verbatim>\<open>zalloc\<close> are arguments, the second one only matters through being NULL.
  \<^verbatim>\<open>malloc\<close> hands out blocks of at least the requested size, so a negative size, which the multiplication turns
  into one of about \<open>2\<^sup>6\<^sup>4\<close> bytes, is a failing allocation.\<close>

definition queue_init :: "u64 \<Rightarrow> bool \<Rightarrow> nat \<Rightarrow> int \<Rightarrow> kstate \<times> qheap \<Rightarrow> int \<times> kstate \<times> qheap" where
  "queue_init q buf_ok e sz sq =
     (let (s, Q) = sq in
      if q = 0 then (- ENOMEM, s, Q)
      else if \<not> buf_ok \<or> sz < 0 then (- ENOMEM, s, Q)
      else (0, event_init e OS_EVENT_TYPE_QUEUE q s,
            Q(q \<mapsto> \<lparr>q_start = replicate (nat sz) 0, q_end = nat sz, q_in = 0, q_out = 0, q_size = sz, q_cnt = 0\<rparr>)))"

definition queue_free :: "nat \<Rightarrow> kstate \<times> qheap \<Rightarrow> kstate \<times> qheap" where
  "queue_free e sq = (let (s, Q) = sq; q = data (events s e) in if q \<noteq> 0 then (s, Q(q := None)) else (s, Q))"

definition queue_pop :: "queue \<Rightarrow> (u64 \<times> queue) res" where
  "queue_pop q =
     (if length (q_start q) \<le> q_out q then Inl Out_Of_Bounds
      else let pmsg = q_start q ! q_out q; q = q\<lparr>q_out := q_out q + 1\<rparr>; q = q\<lparr>q_cnt := q_cnt q - 1\<rparr>;
               q = (if q_out q = q_end q then q\<lparr>q_out := 0\<rparr> else q)
           in Inr (pmsg, q))"

definition queue_push :: "u64 \<Rightarrow> queue \<Rightarrow> queue res" where
  "queue_push pmsg q =
     (if length (q_start q) \<le> q_in q then Inl Out_Of_Bounds
      else let q = q\<lparr>q_start := (q_start q)[q_in q := pmsg], q_in := q_in q + 1\<rparr>;
               q = (if q_in q = q_end q then q\<lparr>q_in := 0\<rparr> else q)
           in Inr (q\<lparr>q_cnt := q_cnt q + 1\<rparr>))"

definition queue_push_front :: "u64 \<Rightarrow> queue \<Rightarrow> queue res" where
  "queue_push_front pmsg q =
     (let q = (if q_out q = 0 then q\<lparr>q_out := q_end q\<rparr> else q) in
      if q_out q = 0 \<or> length (q_start q) \<le> q_out q - 1 then Inl Out_Of_Bounds
      else let q = q\<lparr>q_out := q_out q - 1\<rparr>; q = q\<lparr>q_start := (q_start q)[q_out q := pmsg]\<rparr>
           in Inr (q\<lparr>q_cnt := q_cnt q + 1\<rparr>))"

text \<open>The queue object behind an event; the code casts \<^verbatim>\<open>qt->data\<close> without a check.\<close>

definition queue_of :: "nat \<Rightarrow> kstate \<Rightarrow> qheap \<Rightarrow> queue res" where
  "queue_of e s Q = (case Q (data (events s e)) of None \<Rightarrow> Inl Null_Deref | Some q \<Rightarrow> Inr q)"

definition put_queue :: "nat \<Rightarrow> queue \<Rightarrow> kstate \<Rightarrow> qheap \<Rightarrow> qheap" where
  "put_queue e q s Q = Q(data (events s e) \<mapsto> q)"

definition queue_accept :: "(kstate \<Rightarrow> kstate res) \<Rightarrow> nat \<Rightarrow> kstate \<times> qheap \<Rightarrow> (u64 \<times> kstate \<times> qheap) res" where
  "queue_accept rs e sq =
     (let (s, Q) = sq in
      thenR (spin_lock_irqsave (Event_lock e) s)
        (\<lambda>(flags, s). thenR (queue_of e s Q)
           (\<lambda>q. thenR (if q_cnt q > 0 then queue_pop q else Inr (0, q))
              (\<lambda>(pmsg, q). thenR (spin_unlock_irqrestore rs (Event_lock e) flags s) (\<lambda>k. Inr (pmsg, k, put_queue e q s Q))))))"

definition queue_flush :: "(kstate \<Rightarrow> kstate res) \<Rightarrow> nat \<Rightarrow> kstate \<times> qheap \<Rightarrow> (int \<times> kstate \<times> qheap) res" where
  "queue_flush rs e sq =
     (let (s, Q) = sq in
      thenR (spin_lock_irqsave (Event_lock e) s)
        (\<lambda>(flags, s). thenR (queue_of e s Q)
           (\<lambda>q. thenR (spin_unlock_irqrestore rs (Event_lock e) flags s)
              (\<lambda>k. Inr (0, k, put_queue e (q\<lparr>q_in := 0, q_out := 0, q_cnt := 0\<rparr>) s Q)))))"

definition queue_pend :: "(kstate \<Rightarrow> kstate res) \<Rightarrow> nat \<Rightarrow> u32 \<Rightarrow> kstate \<times> qheap \<Rightarrow> (u64 option \<times> kstate \<times> qheap) res" where
  "queue_pend rs e tmo sq =
     (let (s, Q) = sq in
      thenR (spin_lock_irqsave (Event_lock e) s)
        (\<lambda>(flags, s). thenR (queue_of e s Q)
           (\<lambda>q. if q_cnt q > 0 then
                  thenR (queue_pop q)
                    (\<lambda>(pmsg, q). thenR (spin_unlock_irqrestore rs (Event_lock e) flags s)
                       (\<lambda>k. Inr (Some pmsg, k, put_queue e q s Q)))
                else
                  thenR (pend_block rs (spin_unlock_irqrestore rs (Event_lock e) flags) (wait_event_enter e OS_EVENT_TYPE_QUEUE tmo s))
                    (\<lambda>(r, k). Inr (r, k, Q)))))"

definition queue_pend_resume :: "(kstate \<Rightarrow> kstate res) \<Rightarrow> nat \<Rightarrow> kstate \<times> qheap \<Rightarrow> (u64 \<times> kstate \<times> qheap) res" where
  "queue_pend_resume rs e sq =
     (let (s, Q) = sq; t = cur s in
      case pend_state (tasks s t) of
        TASK_STATE_PEND_OK \<Rightarrow> Inr (msg (tasks s t), event_pend_down s, Q)
      | TASK_STATE_PEND_ABORT \<Rightarrow> Inr (0, event_pend_down s, Q)
      | TASK_STATE_PEND_TO \<Rightarrow>
          thenR (spin_lock_irqsave (Event_lock e) s)
            (\<lambda>(flags, s). thenR (spin_unlock_irqrestore rs (Event_lock e) flags (snd (remove_event_waiter e t s)))
               (\<lambda>s. Inr (0, event_pend_down s, Q))))"

text \<open>\<^verbatim>\<open>__queue_post\<close>; after waking a waiter it returns 0 whatever the value of \<open>ret\<close>.\<close>

definition queue_post_inner :: "(kstate \<Rightarrow> kstate res) \<Rightarrow> nat \<Rightarrow> u64 \<Rightarrow> bool \<Rightarrow> kstate \<times> qheap \<Rightarrow> (int \<times> kstate \<times> qheap) res" where
  "queue_post_inner rs e pmsg front sq =
     (let (s, Q) = sq in
      thenR (spin_lock_irqsave (Event_lock e) s)
        (\<lambda>(flags, s). thenR (wake_up_event_waiter rs e pmsg TASK_STATE_PEND_OK 0 s)
           (\<lambda>(ret, s).
              if ret \<noteq> 0 then thenR (spin_unlock_irqrestore rs (Event_lock e) flags s) (\<lambda>k. Inr (0, k, Q))
              else thenR (queue_of e s Q)
                (\<lambda>q. if q_size q \<le> q_cnt q then
                       thenR (spin_unlock_irqrestore rs (Event_lock e) flags s) (\<lambda>k. Inr (- ENOSPC, k, Q))
                     else thenR (if front then queue_push_front pmsg q else queue_push pmsg q)
                       (\<lambda>q. thenR (spin_unlock_irqrestore rs (Event_lock e) flags s)
                          (\<lambda>k. Inr (ret, k, put_queue e q s Q)))))))"

definition queue_post_abort :: "int" where
  "queue_post_abort = 0"

definition queue_post :: "(kstate \<Rightarrow> kstate res) \<Rightarrow> nat \<Rightarrow> u64 \<Rightarrow> kstate \<times> qheap \<Rightarrow> (int \<times> kstate \<times> qheap) res" where
  "queue_post rs e pmsg sq = queue_post_inner rs e pmsg False sq"

definition queue_post_front :: "(kstate \<Rightarrow> kstate res) \<Rightarrow> nat \<Rightarrow> u64 \<Rightarrow> kstate \<times> qheap \<Rightarrow> (int \<times> kstate \<times> qheap) res" where
  "queue_post_front rs e pmsg sq = queue_post_inner rs e pmsg True sq"

section \<open>Bounded double-ended queues\<close>

text \<open>
  What a client of the ring buffer relies on: the operations work on the list \<open>view\<close> of the messages held, and
  cannot go out of the buffer as long as the list is neither empty (for \<open>pop\<close>) nor full (for the pushes).
\<close>

locale bounded_deque =
  fixes push :: "'a \<Rightarrow> 'q \<Rightarrow> 'q res" and push_front :: "'a \<Rightarrow> 'q \<Rightarrow> 'q res" and pop :: "'q \<Rightarrow> ('a \<times> 'q) res"
    and view :: "'q \<Rightarrow> 'a list" and room :: "'q \<Rightarrow> nat" and ok :: "'q \<Rightarrow> bool"
  assumes push: "ok q \<Longrightarrow> length (view q) < room q \<Longrightarrow>
        \<exists>q'. push m q = Inr q' \<and> ok q' \<and> view q' = view q @ [m] \<and> room q' = room q"
    and push_front: "ok q \<Longrightarrow> length (view q) < room q \<Longrightarrow>
        \<exists>q'. push_front m q = Inr q' \<and> ok q' \<and> view q' = m # view q \<and> room q' = room q"
    and pop: "ok q \<Longrightarrow> view q \<noteq> [] \<Longrightarrow>
        \<exists>q'. pop q = Inr (hd (view q), q') \<and> ok q' \<and> view q' = tl (view q) \<and> room q' = room q"
begin

fun pushes :: "'a list \<Rightarrow> 'q \<Rightarrow> 'q res" where
  "pushes [] q = Inr q"
| "pushes (m # ms) q = thenR (push m q) (pushes ms)"

fun pops :: "nat \<Rightarrow> 'q \<Rightarrow> ('a list \<times> 'q) res" where
  "pops 0 q = Inr ([], q)"
| "pops (Suc n) q = thenR (pop q) (\<lambda>(m, q). thenR (pops n q) (\<lambda>(ms, q). Inr (m # ms, q)))"

lemma pushes_ok:
  "ok q \<Longrightarrow> length (view q) + length ms \<le> room q \<Longrightarrow>
     \<exists>q'. pushes ms q = Inr q' \<and> ok q' \<and> view q' = view q @ ms \<and> room q' = room q"
proof (induction ms arbitrary: q)
  case (Cons m ms)
  then obtain q1 where "push m q = Inr q1" "ok q1" "view q1 = view q @ [m]" "room q1 = room q"
    using push [of q m] by auto
  then show ?case using Cons.IH [of q1] Cons.prems by auto
qed simp

lemma pops_ok:
  "ok q \<Longrightarrow> n \<le> length (view q) \<Longrightarrow>
     \<exists>q'. pops n q = Inr (take n (view q), q') \<and> ok q' \<and> view q' = drop n (view q) \<and> room q' = room q"
proof (induction n arbitrary: q)
  case (Suc n)
  then obtain q1 where "pop q = Inr (hd (view q), q1)" "ok q1" "view q1 = tl (view q)" "room q1 = room q"
    using pop [of q] by (cases "view q") auto
  then show ?case using Suc.IH [of q1] Suc.prems by (cases "view q") auto
qed simp

lemma fifo:
  assumes "ok q" "view q = []" "length ms \<le> room q"
  shows "\<exists>q1 q2. pushes ms q = Inr q1 \<and> pops (length ms) q1 = Inr (ms, q2) \<and> ok q2 \<and> view q2 = [] \<and> room q2 = room q"
proof -
  from pushes_ok [of q ms] assms obtain q1 where q1: "pushes ms q = Inr q1" "ok q1" "view q1 = ms" "room q1 = room q" by auto
  from pops_ok [of q1 "length ms"] q1 show ?thesis by fastforce
qed

end

text \<open>The messages of a ring buffer, oldest first, and its well-formedness.\<close>

definition ring_view :: "queue \<Rightarrow> u64 list" where
  "ring_view q = map (\<lambda>i. q_start q ! ((q_out q + i) mod q_end q)) [0..<nat (q_cnt q)]"

definition ring_ok :: "queue \<Rightarrow> bool" where
  "ring_ok q \<longleftrightarrow> length (q_start q) = q_end q \<and> q_size q = int (q_end q) \<and> 0 \<le> q_cnt q \<and> q_cnt q \<le> q_size q \<and>
     (if q_end q = 0 then q_in q = 0 \<and> q_out q = 0
      else q_out q < q_end q \<and> q_in q = (q_out q + nat (q_cnt q)) mod q_end q)"

lemma wrap_index: "(a :: nat) < n \<Longrightarrow> b < n \<Longrightarrow> (a + b) mod n = (if a + b < n then a + b else a + b - n)"
  by (auto simp: le_mod_geq)

lemma step_mod: "(a :: nat) < n \<Longrightarrow> (if a + 1 = n then 0 else a + 1) = (a + 1) mod n"
  by auto

lemma ring_push:
  assumes ok: "ring_ok q" and room: "length (ring_view q) < nat (q_size q)"
  shows "\<exists>q'. queue_push m q = Inr q' \<and> ring_ok q' \<and> ring_view q' = ring_view q @ [m] \<and> nat (q_size q') = nat (q_size q)"
proof -
  let ?n = "q_end q" and ?c = "nat (q_cnt q)"
  from ok room have n: "?n \<noteq> 0" "?c < ?n" "q_out q < ?n" "length (q_start q) = ?n" "q_size q = int ?n" "0 \<le> q_cnt q"
    and i: "q_in q = (q_out q + ?c) mod ?n" by (auto simp: ring_ok_def ring_view_def split: if_splits)
  have lt: "q_in q < ?n" using n i by simp
  define q' where "q' = q\<lparr>q_start := (q_start q)[q_in q := m], q_in := (q_in q + 1) mod ?n, q_cnt := q_cnt q + 1\<rparr>"
  have p: "queue_push m q = Inr q'"
    using lt n step_mod [OF lt] by (auto simp: queue_push_def q'_def Let_def split: if_splits)
  have "ring_ok q'" using ok n i by (auto simp: ring_ok_def q'_def nat_add_distrib mod_Suc_eq)
  moreover have "q_in q \<noteq> (q_out q + j) mod ?n" if "j < ?c" for j
    using that n wrap_index [of "q_out q" ?n j] wrap_index [of "q_out q" ?n ?c] i by (auto split: if_splits)
  then have "ring_view q' = ring_view q @ [m]"
    using n lt i by (simp add: ring_view_def q'_def nat_add_distrib)
  ultimately show ?thesis using p by (auto simp: q'_def)
qed

lemma ring_push_front:
  assumes ok: "ring_ok q" and room: "length (ring_view q) < nat (q_size q)"
  shows "\<exists>q'. queue_push_front m q = Inr q' \<and> ring_ok q' \<and> ring_view q' = m # ring_view q \<and> nat (q_size q') = nat (q_size q)"
proof -
  let ?n = "q_end q" and ?c = "nat (q_cnt q)"
  from ok room have n: "?n \<noteq> 0" "?c < ?n" "q_out q < ?n" "length (q_start q) = ?n" "q_size q = int ?n" "0 \<le> q_cnt q"
    and i: "q_in q = (q_out q + ?c) mod ?n" by (auto simp: ring_ok_def ring_view_def split: if_splits)
  define o' where "o' = (if q_out q = 0 then ?n else q_out q) - 1"
  have o': "o' < ?n" "(o' + 1) mod ?n = q_out q" using n by (auto simp: o'_def)
  define q' where "q' = q\<lparr>q_start := (q_start q)[o' := m], q_out := o', q_cnt := q_cnt q + 1\<rparr>"
  have p: "queue_push_front m q = Inr q'"
    using n by (auto simp: queue_push_front_def q'_def o'_def Let_def)
  have sh: "(o' + (1 + j)) mod ?n = (q_out q + j) mod ?n" for j
    using o'(2) by (metis add.assoc mod_add_left_eq)
  have "ring_ok q'" using ok n i o' sh [of ?c] by (simp add: ring_ok_def q'_def nat_add_distrib)
  moreover have "o' \<noteq> (q_out q + j) mod ?n" if "j < ?c" for j
    using that n wrap_index [of "q_out q" ?n j] by (auto simp: o'_def split: if_splits)
  then have "ring_view q' = m # ring_view q"
    using n o' sh by (simp add: ring_view_def q'_def nat_add_distrib upt_conv_Cons map_Suc_upt [symmetric] del: map_Suc_upt upt_Suc)
  ultimately show ?thesis using p by (auto simp: q'_def)
qed

lemma ring_pop:
  assumes ok: "ring_ok q" and ne: "ring_view q \<noteq> []"
  shows "\<exists>q'. queue_pop q = Inr (hd (ring_view q), q') \<and> ring_ok q' \<and> ring_view q' = tl (ring_view q) \<and> nat (q_size q') = nat (q_size q)"
proof -
  let ?n = "q_end q" and ?c = "nat (q_cnt q)"
  from ok ne have n: "?n \<noteq> 0" "0 < ?c" "?c \<le> ?n" "q_out q < ?n" "length (q_start q) = ?n" "q_size q = int ?n" "0 < q_cnt q"
    and i: "q_in q = (q_out q + ?c) mod ?n" by (auto simp: ring_ok_def ring_view_def split: if_splits)
  define q' where "q' = q\<lparr>q_out := (q_out q + 1) mod ?n, q_cnt := q_cnt q - 1\<rparr>"
  have p: "queue_pop q = Inr (q_start q ! q_out q, q')"
    using n step_mod [OF n(4)] by (auto simp: queue_pop_def q'_def Let_def split: if_splits)
  have sh: "((q_out q + 1) mod ?n + j) mod ?n = (q_out q + Suc j) mod ?n" for j by (simp add: mod_add_left_eq)
  have c: "?c = Suc (nat (q_cnt q - 1))" using n by simp
  have "ring_ok q'" using ok n i sh [of "nat (q_cnt q - 1)"] c by (simp add: ring_ok_def q'_def)
  moreover have v: "ring_view q = q_start q ! q_out q # ring_view q'"
    using n(4) sh unfolding ring_view_def c by (simp add: q'_def upt_conv_Cons map_Suc_upt [symmetric] del: map_Suc_upt upt_Suc)
  ultimately show ?thesis using p by (auto simp: q'_def)
qed

interpretation rg: bounded_deque queue_push queue_push_front queue_pop ring_view "\<lambda>q. nat (q_size q)" ring_ok
  by unfold_locales (rule ring_push ring_push_front ring_pop; assumption)+

section \<open>The queue as a message list with waiters\<close>

text \<open>The abstract queue: the messages held, oldest first, and the tasks that wait, in order.\<close>

datatype queue_call =
  Post u64 bool int | Accept u64 | Flush | Pend "u64 option" | Resume

inductive fifo_step :: "nat \<Rightarrow> u64 list \<times> nat list \<Rightarrow> queue_call \<Rightarrow> u64 list \<times> nat list \<Rightarrow> bool" for cap where
  handed: "ws \<noteq> [] \<Longrightarrow> 0 < j \<Longrightarrow> fifo_step cap ([], ws) (Post m front 0) ([], drop j ws)"
| stored: "length ms < cap \<Longrightarrow> fifo_step cap (ms, ws) (Post m front 0) (if front then m # ms else ms @ [m], [])"
| full: "length ms = cap \<Longrightarrow> fifo_step cap (ms, ws) (Post m front (- ENOSPC)) (ms, [])"
| accepted: "fifo_step cap (m # ms, ws) (Accept m) (ms, ws)"
| nothing: "fifo_step cap ([], ws) (Accept 0) ([], ws)"
| flushed: "fifo_step cap (ms, ws) Flush ([], ws)"
| taken_msg: "fifo_step cap (m # ms, ws) (Pend (Some m)) (ms, ws)"
| blocked: "fifo_step cap ([], ws) (Pend None) ([], ws @ [t])"
| resumed: "ws' = ws \<or> ws' = remove1 t ws \<Longrightarrow> fifo_step cap (ms, ws) Resume (ms, ws')"

text \<open>The concrete steps: one call each, by whatever task is current. \<open>rs\<close> is the rescheduling point.\<close>

inductive queue_step ::
  "(kstate \<Rightarrow> kstate res) \<Rightarrow> nat \<Rightarrow> kstate \<times> qheap \<Rightarrow> queue_call \<Rightarrow> kstate \<times> qheap \<Rightarrow> bool" for rs e where
  "queue_post rs e m sq = Inr (r, sq') \<Longrightarrow> queue_step rs e sq (Post m False r) sq'"
| "queue_post_front rs e m sq = Inr (r, sq') \<Longrightarrow> queue_step rs e sq (Post m True r) sq'"
| "queue_accept rs e sq = Inr (m, sq') \<Longrightarrow> queue_step rs e sq (Accept m) sq'"
| "queue_flush rs e sq = Inr (r, sq') \<Longrightarrow> queue_step rs e sq Flush sq'"
| "queue_pend rs e tmo sq = Inr (mo, sq') \<Longrightarrow> queue_step rs e sq (Pend mo) sq'"
| "queue_pend_resume rs e sq = Inr (m, sq') \<Longrightarrow> queue_step rs e sq Resume sq'"

definition queue_inv :: "nat \<Rightarrow> nat \<Rightarrow> kstate \<times> qheap \<Rightarrow> bool" where
  "queue_inv e cap sq \<longleftrightarrow> (case snd sq (data (events (fst sq) e)) of None \<Rightarrow> False
     | Some q \<Rightarrow> ring_ok q \<and> q_size q = int cap \<and> (ring_view q \<noteq> [] \<longrightarrow> wait_list (events (fst sq) e) = []))"

definition queue_view :: "nat \<Rightarrow> kstate \<times> qheap \<Rightarrow> u64 list \<times> nat list" where
  "queue_view e sq = (ring_view (the (snd sq (data (events (fst sq) e)))), wait_list (events (fst sq) e))"

text \<open>What a call must establish of its result \<open>r\<close>: the invariant, and an abstract step labelled \<open>l r\<close>.\<close>

definition simulates :: "nat \<Rightarrow> nat \<Rightarrow> u64 list \<times> nat list \<Rightarrow> ('r \<Rightarrow> queue_call) \<Rightarrow> 'r \<times> kstate \<times> qheap \<Rightarrow> bool" where
  "simulates e cap a l x \<longleftrightarrow> queue_inv e cap (snd x) \<and> fifo_step cap a (l (fst x)) (queue_view e (snd x))"

lemma queue_invE:
  assumes "queue_inv e cap (s, Q)"
  obtains q where "Q (data (events s e)) = Some q" "ring_ok q" "q_size q = int cap" "ring_view q \<noteq> [] \<longrightarrow> wait_list (events s e) = []"
  using assms by (auto simp: queue_inv_def split: option.splits)

lemma ring_length: "ring_ok q \<Longrightarrow> int (length (ring_view q)) = q_cnt q"
  by (simp add: ring_view_def ring_ok_def)

lemma ring_empty: "ring_ok q \<Longrightarrow> (ring_view q = []) = (\<not> 0 < q_cnt q)"
proof -
  assume "ring_ok q"
  from ring_length [OF this] show ?thesis by (cases "ring_view q") auto
qed

lemma ring_size: "ring_ok q \<Longrightarrow> ring_ok q' \<Longrightarrow> nat (q_size q') = nat (q_size q) \<Longrightarrow> q_size q' = q_size q"
  by (auto simp: ring_ok_def)

lemma ok1_queue_of: "Q (data (events s e)) = Some q \<Longrightarrow> ok1 P (f q) \<Longrightarrow> ok1 P (thenR (queue_of e s Q) f)"
  by (simp add: queue_of_def)

lemma simulatesI:
  assumes "events k = E" "Q (data (E e)) = Some q" "ring_ok q" "q_size q = int cap" "ring_view q \<noteq> [] \<Longrightarrow> wait_list (E e) = []"
    and "fifo_step cap a (l r) (ring_view q, wait_list (E e))"
  shows "simulates e cap a l (r, k, Q)"
  using assms by (simp add: simulates_def queue_inv_def queue_view_def)

lemma queue_accept_sim:
  assumes K: "keeps events rs" and inv: "queue_inv e cap (s, Q)"
  shows "ok1 (simulates e cap (queue_view e (s, Q)) Accept) (queue_accept rs e (s, Q))"
proof -
  from inv obtain q where q: "Q (data (events s e)) = Some q" "ring_ok q" "q_size q = int cap"
    "ring_view q \<noteq> [] \<longrightarrow> wait_list (events s e) = []" by (rule queue_invE)
  have a: "queue_view e (s, Q) = (ring_view q, wait_list (events s e))" using q by (simp add: queue_view_def)
  obtain m q' where p: "(if q_cnt q > 0 then queue_pop q else Inr (0, q)) = Inr (m, q')" "ring_ok q'" "q_size q' = int cap"
    and st: "fifo_step cap (ring_view q, wait_list (events s e)) (Accept m) (ring_view q', wait_list (events s e))"
    and w: "ring_view q' \<noteq> [] \<Longrightarrow> wait_list (events s e) = []"
  proof (cases "q_cnt q > 0")
    case True
    then obtain x xs where x: "ring_view q = x # xs" using ring_empty [OF q(2)] by (cases "ring_view q") auto
    with rg.pop [OF q(2)] obtain q' where "queue_pop q = Inr (x, q')" "ring_ok q'" "ring_view q' = xs" "q_size q' = int cap"
      using ring_size [OF q(2)] q(3) by auto
    with True x q that [of x q'] show ?thesis by (simp add: accepted)
  next
    case False
    then have v: "ring_view q = []" using ring_empty [OF q(2)] by simp
    show ?thesis by (rule that [of 0 q]) (use False q v fifo_step.nothing [of cap "wait_list (events s e)"] in simp_all)
  qed
  show ?thesis
    unfolding queue_accept_def Let_def a prod.case
    apply (rule ev.lock_ok1 [OF _ refl], rule ok1_queue_of, simp add: q(1))
    apply (simp add: p del: if_split)
    apply (rule ev.unlock_ok1 [OF K], rule ok_base, rule simulatesI [where q = q'])
    using p st w by (simp_all add: put_queue_def)
qed

lemma queue_flush_sim:
  assumes K: "keeps events rs" and inv: "queue_inv e cap (s, Q)"
  shows "ok1 (simulates e cap (queue_view e (s, Q)) (\<lambda>_. Flush)) (queue_flush rs e (s, Q))"
proof -
  from inv obtain q where q: "Q (data (events s e)) = Some q" "ring_ok q" "q_size q = int cap" by (rule queue_invE)
  define q' where "q' = q\<lparr>q_in := 0, q_out := 0, q_cnt := 0\<rparr>"
  have q': "ring_ok q'" "ring_view q' = []" "q_size q' = int cap"
    using q by (auto simp: q'_def ring_ok_def ring_view_def)
  show ?thesis
    unfolding queue_flush_def Let_def prod.case q'_def [symmetric]
    apply (rule ev.lock_ok1 [OF _ refl], rule ok1_queue_of, simp add: q(1))
    unfolding q'_def [symmetric]
    apply (rule ev.unlock_ok1 [OF K], rule ok_base, rule simulatesI)
    using q' flushed [of cap] by (auto simp: put_queue_def queue_view_def)
qed

lemma queue_pend_sim:
  assumes K: "keeps events rs" and inv: "queue_inv e cap (s, Q)"
  shows "ok1 (simulates e cap (queue_view e (s, Q)) Pend) (queue_pend rs e tmo (s, Q))"
proof -
  from inv obtain q where q: "Q (data (events s e)) = Some q" "ring_ok q" "q_size q = int cap"
    "ring_view q \<noteq> [] \<longrightarrow> wait_list (events s e) = []" by (rule queue_invE)
  have a: "queue_view e (s, Q) = (ring_view q, wait_list (events s e))" using q by (simp add: queue_view_def)
  show ?thesis
  proof (cases "q_cnt q > 0")
    case True
    then obtain x xs where x: "ring_view q = x # xs" using ring_empty [OF q(2)] by (cases "ring_view q") auto
    with rg.pop [OF q(2)] obtain q' where q': "queue_pop q = Inr (x, q')" "ring_ok q'" "ring_view q' = xs" "q_size q' = int cap"
      using ring_size [OF q(2)] q(3) by auto
    show ?thesis
      unfolding queue_pend_def Let_def a prod.case
      apply (rule ev.lock_ok1 [OF _ refl], rule ok1_queue_of, simp add: q(1))
      apply (simp add: True q'(1))
      apply (rule ev.unlock_ok1 [OF K], rule ok_base, rule simulatesI [where q = q'])
      using q q' x by (auto simp: put_queue_def intro: taken_msg)
  next
    case False
    then have v: "ring_view q = []" using ring_empty [OF q(2)] by simp
    let ?E = "\<lambda>k. (events s)(e := (events s e)\<lparr>wait_list := wait_list (events s e) @ [cur k]\<rparr>)"
    have blk: "ok1 (simulates e cap ([], wait_list (events s e)) Pend)
        (thenR (pend_block rs (spin_unlock_irqrestore rs (Event_lock e) fl) (wait_event_enter e OS_EVENT_TYPE_QUEUE tmo k)) (\<lambda>(r, k). Inr (r, k, Q)))"
      if k: "events k = events s" for fl k
      unfolding pend_block_def
    proof (cases "spin_unlock_irqrestore rs (Event_lock e) fl (wait_event_enter e OS_EVENT_TYPE_QUEUE tmo k)")
      case (Inr k1)
      have k1: "events k1 = ?E k"
        using ok1D [OF ev.unlock_keeps(1) [OF K refl] Inr] k by (simp add: events_wait_enter)
      have fin: "simulates e cap ([], wait_list (events s e)) Pend (None, k2, Q)" if "events k2 = ?E k" for k2
        by (rule simulatesI [OF that, of Q e q]) (use q v blocked in \<open>auto\<close>)
      show "ok1 (simulates e cap ([], wait_list (events s e)) Pend) (thenR (thenR (spin_unlock_irqrestore rs (Event_lock e) fl
          (wait_event_enter e OS_EVENT_TYPE_QUEUE tmo k)) (\<lambda>s'. thenR (if cur s' = cur (wait_event_enter e OS_EVENT_TYPE_QUEUE tmo k) then rs s' else Inr s')
             (\<lambda>s'. Inr (None, s')))) (\<lambda>(r, k). Inr (r, k, Q)))"
        unfolding Inr using fin [OF k1] fin [OF ok1D [OF keepsD [OF K k1]]] by (simp add: ok1_def)
    qed (simp add: ok1_def)
    show ?thesis
      unfolding queue_pend_def Let_def a prod.case v
      by (rule ev.lock_ok1 [OF _ refl], rule ok1_queue_of, simp add: q(1)) (use False blk in simp)
  qed
qed

lemma queue_resume_sim:
  assumes K: "keeps events rs" and inv: "queue_inv e cap (s, Q)"
  shows "ok1 (simulates e cap (queue_view e (s, Q)) (\<lambda>_. Resume)) (queue_pend_resume rs e (s, Q))"
proof -
  from inv obtain q where q: "Q (data (events s e)) = Some q" "ring_ok q" "q_size q = int cap"
    "ring_view q \<noteq> [] \<longrightarrow> wait_list (events s e) = []" by (rule queue_invE)
  have a: "queue_view e (s, Q) = (ring_view q, wait_list (events s e))" using q by (simp add: queue_view_def)
  let ?S = "simulates e cap (ring_view q, wait_list (events s e)) (\<lambda>_. Resume)"
  have keep: "?S (m, k, Q)" if "events k = events s" for m :: u64 and k
    by (rule simulatesI [OF that, of Q e q]) (use q resumed [OF disjI1 [OF refl]] in auto)
  have rem: "?S (m, k, Q)" if "events k = (events s)(e := (events s e)\<lparr>wait_list := remove1 t (wait_list (events s e))\<rparr>)" for m :: u64 and k t
    by (rule simulatesI [OF that, of Q e q]) (use q resumed [OF disjI2 [OF refl]] in auto)
  have to: "ok1 ?S (thenR (spin_lock_irqsave (Event_lock e) s)
            (\<lambda>(flags, k). thenR (spin_unlock_irqrestore rs (Event_lock e) flags (snd (remove_event_waiter e t k)))
               (\<lambda>s. Inr (0 :: u64, event_pend_down s, Q))))" for t
  proof (rule ev.lock_ok1 [OF _ refl], rule ev.unlock_ok1 [OF K], rule ok_base)
    fix k k2 :: kstate assume "events k = events s" "events k2 = events (snd (remove_event_waiter e t k))"
    then show "?S (0 :: u64, event_pend_down k2, Q)"
      using events_remove_waiter [of e t k] keep [of "event_pend_down k2"] rem [of "event_pend_down k2" t] by auto
  qed
  show ?thesis
    unfolding queue_pend_resume_def Let_def a prod.case
    using to [of "cur s"] keep by (auto simp: ok1_def split: pend_state.splits)
qed

lemma wake_then1:
  assumes K: "keeps events rs" and k: "events k = E"
    and P: "\<And>r s j. events s = taken e j E \<Longrightarrow> 0 \<le> r \<Longrightarrow> r \<le> int j \<Longrightarrow> j \<le> length (wait_list (E e)) \<Longrightarrow>
        (r = 0 \<longrightarrow> wait_list (events s e) = []) \<Longrightarrow> ok1 P (f r s)"
  shows "ok1 P (thenR (wake_up_event_waiter rs e m ps 0 k) (\<lambda>(r, s). f r s))"
proof (cases "wake_up_event_waiter rs e m ps 0 k")
  case (Inr a)
  then obtain r s where a: "wake_up_event_waiter rs e m ps 0 k = Inr (r, s)" by (cases a) auto
  from wake_up_event_waiter_spec [OF K a] k P [of s _ r] a show ?thesis by fastforce
qed (simp add: ok1_def)

lemma queue_post_sim:
  assumes K: "keeps events rs" and inv: "queue_inv e cap (s, Q)"
  shows "ok1 (simulates e cap (queue_view e (s, Q)) (Post m front)) (queue_post_inner rs e m front (s, Q))"
proof -
  from inv obtain q where q: "Q (data (events s e)) = Some q" "ring_ok q" "q_size q = int cap"
    "ring_view q \<noteq> [] \<longrightarrow> wait_list (events s e) = []" by (rule queue_invE)
  let ?ws = "wait_list (events s e)"
  have a: "queue_view e (s, Q) = (ring_view q, ?ws)" using q by (simp add: queue_view_def)
  let ?S = "simulates e cap (ring_view q, ?ws) (Post m front)"
  have hand: "?S (0, k, Q)" if k: "events k = taken e j (events s)" and j: "0 < j" "j \<le> length ?ws" for k j
  proof -
    have ne: "?ws \<noteq> []" using j by auto
    then have v: "ring_view q = []" using q(4) by auto
    show ?thesis by (rule simulatesI [OF k, of Q e q]) (use q v handed [OF ne j(1), of cap m front] in simp_all)
  qed
  have full_case: "?S (- ENOSPC, k, Q)" if k: "events k = taken e j (events s)" and w: "wait_list (events k e) = []"
    and f: "q_size q \<le> q_cnt q" for k j
    by (rule simulatesI [OF k, of Q e q]) (use q w k f ring_length [OF q(2)] full [of "ring_view q" cap ?ws m front] in \<open>auto simp: ring_ok_def\<close>)
  show ?thesis
    unfolding queue_post_inner_def Let_def a prod.case
  proof (rule ev.lock_ok1 [OF _ refl], rule wake_then1 [OF K], assumption, rule ok_if)
    fix fl and k :: kstate and r :: int and k1 :: kstate and j
    assume k: "events k = events s" and k1: "events k1 = taken e j (events s)" and r: "0 \<le> r" "r \<le> int j" "j \<le> length ?ws"
      and w: "r = 0 \<longrightarrow> wait_list (events k1 e) = []"
    { assume "r \<noteq> 0"
      then show "ok1 ?S (thenR (spin_unlock_irqrestore rs (Event_lock e) fl k1) (\<lambda>k. Inr (0, k, Q)))"
        by (intro ev.unlock_ok1 [OF K] ok_base hand [of _ j]) (use k1 r in auto) }
    assume "\<not> r \<noteq> 0"
    then have r0: "r = 0" "wait_list (events k1 e) = []" using w by auto
    show "ok1 ?S (thenR (queue_of e k1 Q) (\<lambda>q. if q_size q \<le> q_cnt q
         then thenR (spin_unlock_irqrestore rs (Event_lock e) fl k1) (\<lambda>k. Inr (- ENOSPC, k, Q))
         else thenR (if front then queue_push_front m q else queue_push m q)
                (\<lambda>q. thenR (spin_unlock_irqrestore rs (Event_lock e) fl k1) (\<lambda>k. Inr (r, k, put_queue e q k1 Q)))))"
    proof (rule ok1_queue_of [where q = q], simp add: k1 q(1), rule ok_if)
      assume "q_size q \<le> q_cnt q"
      then show "ok1 ?S (thenR (spin_unlock_irqrestore rs (Event_lock e) fl k1) (\<lambda>k. Inr (- ENOSPC, k, Q)))"
        by (intro ev.unlock_ok1 [OF K] ok_base full_case [of _ j]) (use k1 r0 in auto)
    next
      assume "\<not> q_size q \<le> q_cnt q"
      then have room: "length (ring_view q) < nat (q_size q)" using ring_length [OF q(2)] by simp
      from rg.push [OF q(2) room, of m] rg.push_front [OF q(2) room, of m]
      obtain q' where q': "(if front then queue_push_front m q else queue_push m q) = Inr q'" "ring_ok q'" "nat (q_size q') = nat (q_size q)"
        "ring_view q' = (if front then m # ring_view q else ring_view q @ [m])" by (cases front) auto
      have st: "?S (0, k2, put_queue e q' k1 Q)" if k2: "events k2 = events k1" for k2
        by (rule simulatesI [OF k2, of _ e q'])
          (use q q' r0 room ring_size [OF q(2) q'(2,3)] stored [of "ring_view q" cap ?ws m front] in \<open>auto simp: put_queue_def\<close>)
      show "ok1 ?S (thenR (if front then queue_push_front m q else queue_push m q)
                (\<lambda>q. thenR (spin_unlock_irqrestore rs (Event_lock e) fl k1) (\<lambda>k. Inr (r, k, put_queue e q k1 Q))))"
        unfolding q'(1) r0(1) thenR_simps by (intro ev.unlock_ok1 [OF K] ok_base st)
    qed
  qed
qed

lemma simulatesD:
  "ok1 (simulates e cap a l) r \<Longrightarrow> r = Inr (x, sq') \<Longrightarrow> queue_inv e cap sq' \<and> fifo_step cap a (l x) (queue_view e sq')"
  by (simp add: ok1_def simulates_def)

section \<open>Properties\<close>

text \<open>
  C25: every call on a message queue implements a step of the abstract message list with waiters: a post hands the
  message to a waiter, appends (or prepends) it, or reports -ENOSPC exactly when the list is full; a pend or an accept
  takes the oldest message, or blocks only when there is none; and the ring buffer stays well-formed, never holding a
  message while a task waits.
\<close>

theorem queue_refines_fifo:
  assumes "keeps events rs" and "queue_inv e cap sq" and "queue_step rs e sq l sq'"
  shows "queue_inv e cap sq' \<and> fifo_step cap (queue_view e sq) l (queue_view e sq')"
proof -
  obtain s Q where sq: "sq = (s, Q)" by (cases sq)
  note inv = assms(1) assms(2) [unfolded sq]
  note sims = queue_post_sim [OF inv] queue_accept_sim [OF inv] queue_flush_sim [OF inv] queue_pend_sim [OF inv] queue_resume_sim [OF inv]
  from assms(3) show ?thesis
    unfolding sq by cases (erule sims [THEN simulatesD] | simp only: queue_post_def queue_post_front_def | rule sims [THEN simulatesD])+
qed

text \<open>A queue of two messages behind event 0, as \<^verbatim>\<open>queue_init\<close> makes it.\<close>

definition demo_queue :: "kstate \<times> qheap" where
  "demo_queue = snd (queue_init 8 True 0 2 (demo_sys, \<lambda>_. None))"

lemma demo_queue_inv: "queue_inv 0 2 demo_queue"
  by (simp add: demo_queue_def queue_init_def event_init_def queue_inv_def ring_ok_def ring_view_def upd_event_def demo_sys_def Let_def)

lemma demo_queue_post:
  "\<exists>k. queue_post sched 0 42 demo_queue = Inr (0, k)"
proof -
  have "case queue_post sched 0 42 demo_queue of Inr (r, k) \<Rightarrow> r = 0 | Inl _ \<Rightarrow> False" by code_simp
  then show ?thesis unfolding case_res_iff by blast
qed

theorem queue_refines_fifo_witness:
  "\<exists>k. queue_post sched 0 42 demo_queue = Inr (0, k) \<and> queue_inv 0 2 k \<and> fifo_step 2 ([], []) (Post 42 False 0) (queue_view 0 k)"
proof -
  obtain k where k: "queue_post sched 0 42 demo_queue = Inr (0, k)" using demo_queue_post by blast
  have v: "queue_view 0 demo_queue = ([], [])"
    by (simp add: demo_queue_def queue_init_def event_init_def queue_view_def ring_view_def upd_event_def demo_sys_def Let_def)
  show ?thesis
    using queue_refines_fifo [OF ev.sched_keeps demo_queue_inv queue_step.intros(1) [OF k]] k unfolding v by blast
qed

end
