(* ===== verification/Mem_Region.thy ===== *)
theory Mem_Region
  imports Minos_Prelude
begin

text \<open>
  Physical memory regions (\<^verbatim>\<open>core/mem_region.c\<close>). The regions live in a static array of sixteen entries of which
  \<open>current_region_id\<close> are in use, and are linked on \<^verbatim>\<open>mem_list\<close> in the order of the list. The lemmas read a region
  list as a map from addresses to region types.
\<close>

section \<open>Definitions\<close>

abbreviation (input) MEMORY_REGION_TYPE_NORMAL :: int where "MEMORY_REGION_TYPE_NORMAL \<equiv> 0"
abbreviation (input) MEMORY_REGION_TYPE_VM :: int where "MEMORY_REGION_TYPE_VM \<equiv> 3"
abbreviation (input) MEMORY_REGION_TYPE_KERNEL :: int where "MEMORY_REGION_TYPE_KERNEL \<equiv> 5"
abbreviation (input) MEMORY_REGION_TYPE_RAMDISK :: int where "MEMORY_REGION_TYPE_RAMDISK \<equiv> 6"
abbreviation (input) MEMORY_REGION_TYPE_MAX :: int where "MEMORY_REGION_TYPE_MAX \<equiv> 7"
abbreviation (input) MAX_MEMORY_REGION :: nat where "MAX_MEMORY_REGION \<equiv> 16"

record memory_region =
  mr_type :: int
  mr_vmid :: int
  phy_base :: u64
  mr_size :: u64

record mem_regions =
  mem_list :: "memory_region list"
  current_region_id :: nat

definition alloc_memory_region :: "mem_regions \<Rightarrow> mem_regions res" where
  "alloc_memory_region m =
     (if MAX_MEMORY_REGION \<le> current_region_id m then Inl Assert_Failed else Inr (m\<lparr>current_region_id := current_region_id m + 1\<rparr>))"

text \<open>Taking an array entry, filling it and linking it at the tail of the list.\<close>

definition link_region :: "memory_region \<Rightarrow> mem_regions \<Rightarrow> mem_regions res" where
  "link_region r m = thenR (alloc_memory_region m) (\<lambda>m. Inr (m\<lparr>mem_list := mem_list m @ [r]\<rparr>))"

definition region_conflict :: "u64 \<Rightarrow> u64 \<Rightarrow> memory_region \<Rightarrow> bool" where
  "region_conflict base sz r = (let r_base = phy_base r; r_end = r_base + mr_size r - 1 in \<not> (base > r_end \<or> base + sz < r_base))"

definition add_memory_region :: "u64 \<Rightarrow> u64 \<Rightarrow> int \<Rightarrow> int \<Rightarrow> mem_regions \<Rightarrow> (int \<times> mem_regions) res" where
  "add_memory_region base sz ty vm m =
     (if sz = 0 \<or> ty \<ge> MEMORY_REGION_TYPE_MAX then Inr (- EINVAL, m)
      else if list_ex (region_conflict base sz) (mem_list m) then Inr (- EINVAL, m)
      else thenR (link_region \<lparr>mr_type = ty, mr_vmid = vm, phy_base = base, mr_size = sz\<rparr> m) (\<lambda>m. Inr (0, m)))"

text \<open>The loop of \<^verbatim>\<open>split_memory_region\<close>; \<open>i\<close> is the position on the list. It ends at the first region that holds the
  range, and \<^verbatim>\<open>panic\<close>s if there is none.\<close>

fun split_from :: "u64 \<Rightarrow> u64 \<Rightarrow> int \<Rightarrow> int \<Rightarrow> nat \<Rightarrow> memory_region list \<Rightarrow> mem_regions \<Rightarrow> (int \<times> mem_regions) res" where
  "split_from base sz ty vm i [] m = Inl Panicked"
| "split_from base sz ty vm i (r # rs) m =
     (let start = phy_base r; fin = start + mr_size r; new_end = base + sz;
          upd = (\<lambda>r' m. m\<lparr>mem_list := (mem_list m)[i := r']\<rparr>);
          tmp = (\<lambda>m. thenR (link_region \<lparr>mr_type = ty, mr_vmid = vm, phy_base = base, mr_size = sz\<rparr> m) (\<lambda>m. Inr (0, m)))
      in if base > fin \<or> base < start \<or> new_end > fin then split_from base sz ty vm (Suc i) rs m
         else if base = start \<and> new_end = fin then Inr (0, upd (r\<lparr>mr_type := ty\<rparr>) m)
         else if base = start \<and> new_end < fin then tmp (upd (r\<lparr>phy_base := new_end, mr_size := mr_size r - sz\<rparr>) m)
         else if base > start \<and> new_end < fin then
           thenR (link_region \<lparr>mr_type = mr_type r, mr_vmid = mr_vmid r, phy_base = new_end, mr_size = fin - new_end\<rparr> m)
             (\<lambda>m. tmp (upd (r\<lparr>mr_size := base - start\<rparr>) m))
         else if base > start \<and> fin = new_end then tmp (upd (r\<lparr>mr_size := mr_size r - sz\<rparr>) m)
         else Inr (- EINVAL, m))"

definition split_memory_region :: "u64 \<Rightarrow> u64 \<Rightarrow> int \<Rightarrow> int \<Rightarrow> mem_regions \<Rightarrow> (int \<times> mem_regions) res" where
  "split_memory_region base sz ty vm m =
     (if sz = 0 \<or> ty \<ge> MEMORY_REGION_TYPE_MAX then Inr (- EINVAL, m) else split_from base sz ty vm 0 (mem_list m) m)"

section \<open>Regions as sets of addresses\<close>

definition cells :: "memory_region \<Rightarrow> nat set" where
  "cells r = {unat (phy_base r)..<unat (phy_base r) + unat (mr_size r)}"

text \<open>A region is sane when it is not empty and does not run over the end of the address space.\<close>

definition region_ok :: "memory_region \<Rightarrow> bool" where
  "region_ok r \<longleftrightarrow> 0 < mr_size r \<and> unat (phy_base r) + unat (mr_size r) < 2 ^ 64"

text \<open>The regions that hold an address; a list is \<open>disjoint\<close> when there is never more than one.\<close>

definition at :: "nat \<Rightarrow> memory_region list \<Rightarrow> memory_region list" where
  "at a rs = filter (\<lambda>r. a \<in> cells r) rs"

definition regions_ok :: "memory_region list \<Rightarrow> bool" where
  "regions_ok rs \<longleftrightarrow> (\<forall>r\<in>set rs. region_ok r) \<and> (\<forall>a. length (at a rs) \<le> 1)"

definition types_at :: "nat \<Rightarrow> memory_region list \<Rightarrow> int list" where
  "types_at a rs = map mr_type (at a rs)"

lemma at_simps [simp]:
  "at a [] = []" "at a (r # rs) = (if a \<in> cells r then [r] else []) @ at a rs" "at a (rs @ qs) = at a rs @ at a qs"
  by (simp_all add: at_def)

lemma types_at_simps [simp]:
  "types_at a [] = []" "types_at a (r # rs) = (if a \<in> cells r then [mr_type r] else []) @ types_at a rs"
  "types_at a (rs @ qs) = types_at a rs @ types_at a qs"
  by (simp_all add: types_at_def)

lemma length_types_at [simp]: "length (types_at a rs) = length (at a rs)"
  by (simp add: types_at_def)

lemma types_at_nil: "types_at a rs = [] \<longleftrightarrow> at a rs = []"
  by (simp add: types_at_def)

text \<open>Sums of addresses that do not wrap.\<close>

lemma unat_plus_u64: "unat a + unat b < 2 ^ 64 \<Longrightarrow> unat (a + b :: u64) = unat a + unat b"
  by (simp add: unat_add_lem [THEN iffD1])

lemma unat_minus_u64: "b \<le> a \<Longrightarrow> unat (a - b :: u64) = unat a - unat b"
  by (rule unat_sub)

lemma link_region_ok:
  "current_region_id m < MAX_MEMORY_REGION \<Longrightarrow>
     link_region r m = Inr (m\<lparr>current_region_id := current_region_id m + 1, mem_list := mem_list m @ [r]\<rparr>)"
  by (simp add: link_region_def alloc_memory_region_def)

text \<open>Splitting one region: \<open>here\<close> replaces it on the list, \<open>tail\<close> is appended.\<close>

definition splits :: "u64 \<Rightarrow> u64 \<Rightarrow> int \<Rightarrow> memory_region \<Rightarrow> memory_region \<Rightarrow> memory_region list \<Rightarrow> bool" where
  "splits base sz ty r here tail \<longleftrightarrow> {unat base..<unat base + unat sz} \<subseteq> cells r \<and> (\<forall>q\<in>set (here # tail). region_ok q) \<and>
     (\<forall>a. types_at a (here # tail) =
        (if unat base \<le> a \<and> a < unat base + unat sz then [ty] else if a \<in> cells r then [mr_type r] else []))"

lemma splits_parts:
  fixes ty vm :: int
  assumes r: "region_ok r" and sz: "0 < sz" and b: "unat (phy_base r) \<le> unat base"
    and e: "unat base + unat sz \<le> unat (phy_base r) + unat (mr_size r)"
  defines "new \<equiv> \<lparr>mr_type = ty, mr_vmid = vm, phy_base = base, mr_size = sz\<rparr>"
  shows "base = phy_base r \<Longrightarrow> base + sz = phy_base r + mr_size r \<Longrightarrow> splits base sz ty r (r\<lparr>mr_type := ty\<rparr>) []"
    and "base = phy_base r \<Longrightarrow> base + sz < phy_base r + mr_size r \<Longrightarrow>
       splits base sz ty r (r\<lparr>phy_base := base + sz, mr_size := mr_size r - sz\<rparr>) [new]"
    and "phy_base r < base \<Longrightarrow> base + sz < phy_base r + mr_size r \<Longrightarrow> splits base sz ty r (r\<lparr>mr_size := base - phy_base r\<rparr>)
       [\<lparr>mr_type = mr_type r, mr_vmid = mr_vmid r, phy_base = base + sz, mr_size = phy_base r + mr_size r - (base + sz)\<rparr>, new]"
    and "phy_base r < base \<Longrightarrow> base + sz = phy_base r + mr_size r \<Longrightarrow> splits base sz ty r (r\<lparr>mr_size := mr_size r - sz\<rparr>) [new]"
proof -
  have ok: "0 < unat (mr_size r)" "unat (phy_base r) + unat (mr_size r) < 2 ^ 64" "0 < unat sz"
    using r sz by (auto simp: region_ok_def word_less_nat_alt)
  have w: "unat (phy_base r + mr_size r) = unat (phy_base r) + unat (mr_size r)" "unat (base + sz) = unat base + unat sz"
    "unat (mr_size r - sz) = unat (mr_size r) - unat sz" "unat (base - phy_base r) = unat base - unat (phy_base r)"
    using ok b e by (auto simp: unat_plus_u64 word_le_nat_alt intro!: unat_minus_u64)
  note d = splits_def cells_def region_ok_def new_def word_less_nat_alt word_unat_eq_iff w
  show "base = phy_base r \<Longrightarrow> base + sz = phy_base r + mr_size r \<Longrightarrow> splits base sz ty r (r\<lparr>mr_type := ty\<rparr>) []"
    using ok b e by (auto simp: d)
  show "base = phy_base r \<Longrightarrow> base + sz < phy_base r + mr_size r \<Longrightarrow>
       splits base sz ty r (r\<lparr>phy_base := base + sz, mr_size := mr_size r - sz\<rparr>) [new]"
    using ok b e by (auto simp: d)
  show "phy_base r < base \<Longrightarrow> base + sz = phy_base r + mr_size r \<Longrightarrow> splits base sz ty r (r\<lparr>mr_size := mr_size r - sz\<rparr>) [new]"
    using ok b e by (auto simp: d)
  assume l: "phy_base r < base" "base + sz < phy_base r + mr_size r"
  then have "unat (phy_base r + mr_size r - (base + sz)) = unat (phy_base r + mr_size r) - unat (base + sz)"
    by (intro unat_minus_u64) simp
  then show "splits base sz ty r (r\<lparr>mr_size := base - phy_base r\<rparr>)
       [\<lparr>mr_type = mr_type r, mr_vmid = mr_vmid r, phy_base = base + sz, mr_size = phy_base r + mr_size r - (base + sz)\<rparr>, new]"
    using ok b e l by (auto simp: d)
qed

text \<open>The split as a step on the list, given the region that holds the range.\<close>

definition split_result :: "u64 \<Rightarrow> u64 \<Rightarrow> int \<Rightarrow> (int \<times> mem_regions) res \<Rightarrow> mem_regions \<Rightarrow> bool" where
  "split_result base sz ty x m \<longleftrightarrow> (\<exists>m' p r q here tail. x = Inr (0, m') \<and> mem_list m = p @ r # q \<and>
     mem_list m' = p @ here # q @ tail \<and> splits base sz ty r here tail \<and> current_region_id m' \<le> current_region_id m + 2)"

lemma split_resultI:
  assumes "mem_list m = p @ r # q" "splits base sz ty r here tail" "x = Inr (0, m')" "mem_list m' = p @ here # q @ tail"
    "current_region_id m' \<le> current_region_id m + 2"
  shows "split_result base sz ty x m"
  using assms unfolding split_result_def by blast

lemma split_from_ok:
  assumes "mem_list m = pre @ rs" "i = length pre" "\<forall>r\<in>set rs. region_ok r"
    and sz: "0 < sz" "unat base + unat sz < 2 ^ 64" and room: "current_region_id m + 2 \<le> MAX_MEMORY_REGION"
    and ex: "\<exists>r\<in>set rs. {unat base..<unat base + unat sz} \<subseteq> cells r"
  shows "split_result base sz ty (split_from base sz ty vm i rs m) m"
  using assms(1-3) ex
proof (induction rs arbitrary: pre i)
  case (Cons r rs)
  let ?s = "phy_base r" and ?e = "phy_base r + mr_size r" and ?n = "base + sz"
  have ok: "region_ok r" "0 < unat sz" using Cons.prems(3) sz by (auto simp: word_less_nat_alt)
  have e: "unat ?e = unat ?s + unat (mr_size r)" and n: "unat ?n = unat base + unat sz"
    using ok sz by (simp_all add: unat_plus_u64 region_ok_def)
  note w = word_less_nat_alt word_le_nat_alt word_unat_eq_iff e n
  show ?case
  proof (cases "base > ?e \<or> base < ?s \<or> ?n > ?e")
    case True
    then have "\<not> {unat base..<unat base + unat sz} \<subseteq> cells r" using ok by (auto simp: w cells_def)
    then have "split_result base sz ty (split_from base sz ty vm (Suc i) rs m) m"
      using Cons.IH [of "pre @ [r]" "Suc i"] Cons.prems by auto
    then show ?thesis using True by (simp add: Let_def)
  next
    case False
    then have c: "unat ?s \<le> unat base" "unat base + unat sz \<le> unat ?s + unat (mr_size r)" by (auto simp: w)
    have i: "i = length pre" "mem_list m = pre @ r # rs" using Cons.prems by auto
    note parts = splits_parts [OF ok(1) sz(1) c]
    consider (whole) "base = ?s" "?n = ?e" | (front) "base = ?s" "?n < ?e" | (mid) "?s < base" "?n < ?e" | (rear) "?s < base" "?n = ?e"
      using False by fastforce
    then show ?thesis
    proof cases
      case whole
      show ?thesis by (rule split_resultI [OF i(2) parts(1) [OF whole]]) (use False whole i in \<open>auto simp: Let_def\<close>)
    next
      case front
      show ?thesis by (rule split_resultI [OF i(2) parts(2) [OF front]]) (use False front i room in \<open>auto simp: Let_def link_region_ok\<close>)
    next
      case mid
      show ?thesis by (rule split_resultI [OF i(2) parts(3) [OF mid]]) (use False mid i room in \<open>auto simp: Let_def link_region_ok\<close>)
    next
      case rear
      show ?thesis by (rule split_resultI [OF i(2) parts(4) [OF rear]]) (use False rear i room in \<open>auto simp: Let_def link_region_ok\<close>)
    qed
  qed
qed simp

lemma regions_ok_split:
  assumes ok: "regions_ok (p @ r # q)" and sp: "splits base sz ty r here tail"
  shows "types_at a (p @ here # q @ tail) = (if unat base \<le> a \<and> a < unat base + unat sz then [ty] else types_at a (p @ r # q))"
    and "regions_ok (p @ here # q @ tail)"
proof -
  have t: "types_at a (p @ here # q @ tail) = (if unat base \<le> a \<and> a < unat base + unat sz then [ty] else types_at a (p @ r # q))" for a
  proof -
    have part: "types_at a (here # tail) = (if unat base \<le> a \<and> a < unat base + unat sz then [ty] else if a \<in> cells r then [mr_type r] else [])"
      and sub: "unat base \<le> a \<and> a < unat base + unat sz \<Longrightarrow> a \<in> cells r"
      using sp by (auto simp: splits_def)
    have only: "length (at a (p @ r # q)) \<le> 1" using ok by (simp add: regions_ok_def)
    show ?thesis
    proof (cases "a \<in> cells r")
      case True
      then have "types_at a p = []" "types_at a q = []" using only by (auto simp: types_at_nil)
      then show ?thesis using part True by (simp split: if_splits)
    next
      case False
      then have "types_at a [here] = []" "types_at a tail = []" "\<not> (unat base \<le> a \<and> a < unat base + unat sz)"
        using part sub by (auto split: if_splits)
      then show ?thesis using False by (auto split: if_splits)
    qed
  qed
  then show "types_at a (p @ here # q @ tail) = (if unat base \<le> a \<and> a < unat base + unat sz then [ty] else types_at a (p @ r # q))" .
  have "length (at a (p @ here # q @ tail)) \<le> 1" for a
  proof -
    have "length (types_at a (p @ r # q)) \<le> 1" using ok unfolding regions_ok_def length_types_at by blast
    then have "length (types_at a (p @ here # q @ tail)) \<le> 1" unfolding t by (simp del: types_at_simps length_types_at)
    then show ?thesis by (simp only: length_types_at)
  qed
  then show "regions_ok (p @ here # q @ tail)" using ok sp by (auto simp: regions_ok_def splits_def)
qed

text \<open>An added region is disjoint from the others as long as its end does not wrap around; what the list says about
  all other addresses stays.\<close>

lemma add_memory_region_ok:
  assumes ok: "regions_ok (mem_list m)" and w: "unat base + unat sz < 2 ^ 64"
    and st: "add_memory_region base sz ty vm m = Inr (0, m')"
  shows "regions_ok (mem_list m') \<and>
     (\<forall>a. types_at a (mem_list m') = (if unat base \<le> a \<and> a < unat base + unat sz then [ty] else types_at a (mem_list m)))"
proof -
  let ?n = "\<lparr>mr_type = ty, mr_vmid = vm, phy_base = base, mr_size = sz\<rparr>"
  have sz: "sz \<noteq> 0" and nc: "\<And>r. r \<in> set (mem_list m) \<Longrightarrow> \<not> region_conflict base sz r" and m': "mem_list m' = mem_list m @ [?n]"
    using st by (auto simp: add_memory_region_def link_region_def alloc_memory_region_def list_ex_iff split: if_splits)
  have apart: "cells ?n \<inter> cells r = {}" if r: "r \<in> set (mem_list m)" for r
  proof -
    have o: "0 < unat (mr_size r)" "unat (phy_base r) + unat (mr_size r) < 2 ^ 64"
      using ok r by (auto simp: regions_ok_def region_ok_def word_less_nat_alt)
    have e: "unat (phy_base r + mr_size r - 1) = unat (phy_base r) + unat (mr_size r) - 1" "unat (base + sz) = unat base + unat sz"
      using o w by (simp_all add: unat_plus_u64 unat_minus_u64 word_le_nat_alt)
    from nc [OF r] show ?thesis using o by (auto simp: region_conflict_def cells_def Let_def word_less_nat_alt e)
  qed
  have none: "at a (mem_list m) = []" if "a \<in> cells ?n" for a using that apart by (auto simp: at_def filter_empty_conv)
  have "length (at a (mem_list m')) \<le> 1" for a
    using none [of a] ok by (auto simp: m' regions_ok_def)
  moreover have "region_ok ?n" using sz w by (simp add: region_ok_def word_neq_0_conv)
  ultimately have "regions_ok (mem_list m')" using ok by (auto simp: regions_ok_def m')
  moreover have "types_at a (mem_list m') = (if unat base \<le> a \<and> a < unat base + unat sz then [ty] else types_at a (mem_list m))" for a
    using none [of a] by (auto simp: m' cells_def types_at_nil)
  ultimately show ?thesis by blast
qed

section \<open>Properties\<close>

text \<open>
  C26: \<^verbatim>\<open>split_memory_region\<close> on a range that lies in one region succeeds, keeps the regions disjoint, gives every
  address of the range the new type, and every other address keeps the region type it had: no memory is lost or
  counted twice in any of the four ways a range can lie in a region.
\<close>

theorem split_memory_region_correct:
  assumes "regions_ok (mem_list m)" "0 < sz" "unat base + unat sz < 2 ^ 64" "ty < MEMORY_REGION_TYPE_MAX"
    and "current_region_id m + 2 \<le> MAX_MEMORY_REGION"
    and "\<exists>r\<in>set (mem_list m). {unat base..<unat base + unat sz} \<subseteq> cells r"
  shows "\<exists>m'. split_memory_region base sz ty vm m = Inr (0, m') \<and> regions_ok (mem_list m') \<and>
     (\<forall>a. types_at a (mem_list m') = (if unat base \<le> a \<and> a < unat base + unat sz then [ty] else types_at a (mem_list m)))"
proof -
  have "\<forall>r\<in>set (mem_list m). region_ok r" using assms(1) by (simp add: regions_ok_def)
  from split_from_ok [OF _ refl this assms(2,3,5,6), of "[]" ty vm]
  obtain m' p r q here tail where s: "split_from base sz ty vm 0 (mem_list m) m = Inr (0, m')" "mem_list m = p @ r # q"
    "mem_list m' = p @ here # q @ tail" "splits base sz ty r here tail" unfolding split_result_def by auto
  then show ?thesis using regions_ok_split [OF assms(1) [unfolded s(2)] s(4)] assms(2,4)
    by (auto simp: split_memory_region_def)
qed

definition demo_regions :: mem_regions where
  "demo_regions = \<lparr>mem_list = [\<lparr>mr_type = 0, mr_vmid = 0, phy_base = 0x40000000, mr_size = 0x80000000\<rparr>], current_region_id = 1\<rparr>"

theorem split_memory_region_correct_witness:
  "\<exists>m'. split_memory_region 0x50000000 0x1000000 MEMORY_REGION_TYPE_VM 1 demo_regions = Inr (0, m') \<and>
     types_at 0x50000000 (mem_list m') = [MEMORY_REGION_TYPE_VM] \<and> types_at 0x4fffffff (mem_list m') = [MEMORY_REGION_TYPE_NORMAL]"
proof -
  have "regions_ok (mem_list demo_regions)" by (auto simp: demo_regions_def regions_ok_def region_ok_def)
  moreover have "\<exists>r\<in>set (mem_list demo_regions). {unat (0x50000000 :: u64)..<unat (0x50000000 :: u64) + unat (0x1000000 :: u64)} \<subseteq> cells r"
    by (simp add: demo_regions_def cells_def)
  ultimately obtain m' where m': "split_memory_region 0x50000000 0x1000000 MEMORY_REGION_TYPE_VM 1 demo_regions = Inr (0, m')"
    "\<forall>a. types_at a (mem_list m') = (if unat (0x50000000 :: u64) \<le> a \<and> a < unat (0x50000000 :: u64) + unat (0x1000000 :: u64)
        then [MEMORY_REGION_TYPE_VM] else types_at a (mem_list demo_regions))"
    using split_memory_region_correct [where m = demo_regions and sz = "0x1000000" and base = "0x50000000" and ty = MEMORY_REGION_TYPE_VM and vm = 1] by (auto simp: demo_regions_def)
  then show ?thesis by (auto simp: demo_regions_def cells_def)
qed

end
