(* ===== verification/Mem.thy ===== *)
theory Mem
  imports Mem_Region
begin

text \<open>
  The kernel memory allocators (\<^verbatim>\<open>core/memory.c\<close>): a slab heap that grows upwards from the end of the image and
  pages that are taken downwards from the end of the RAM. Block headers are records in a store indexed by their
  address; \<^verbatim>\<open>magic\<close> and \<^verbatim>\<open>next\<close> of a header share one field, as they share a \<^verbatim>\<open>union\<close>. The free chains and the
  page lists, which the code links through \<^verbatim>\<open>next\<close>, are lists. All operations run under \<^verbatim>\<open>mm_lock\<close>, so each is one
  step. The contents of the blocks handed out are not part of the state.
\<close>

unbundle bit_operations_syntax

section \<open>Definitions\<close>

record slab_header =
  sh_size :: u64
  sh_link :: u64

record slab_type =
  st_size :: u32
  st_head :: "u64 list"

record page =
  page_at :: u64
  pfn :: u32
  page_flags :: u8
  page_align :: u8
  page_cnt :: u16

record memory =
  slab_base :: u64
  page_base :: u64
  headers :: "u64 \<rightharpoonup> slab_header"
  slab_hash_table :: "slab_type list list"
  free_page_head :: "page list"
  used_page_head :: "page list"

abbreviation (input) HASH_TABLE_SIZE :: nat where "HASH_TABLE_SIZE \<equiv> 8"
abbreviation (input) SLAB_MIN_DATA_SIZE :: u64 where "SLAB_MIN_DATA_SIZE \<equiv> 16"
abbreviation (input) SLAB_HEADER_SIZE :: u64 where "SLAB_HEADER_SIZE \<equiv> 16"
abbreviation (input) SLAB_MAGIC :: u64 where "SLAB_MAGIC \<equiv> 0xdeadbeef"
abbreviation (input) sizeof_slab_type :: u64 where "sizeof_slab_type \<equiv> 32"
abbreviation (input) sizeof_page :: u64 where "sizeof_page \<equiv> 16"

definition hash_id :: "u64 \<Rightarrow> nat" where
  "hash_id sz = unat (drop_bit 4 sz) mod HASH_TABLE_SIZE"

definition get_slab_alloc_size :: "u64 \<Rightarrow> u64" where
  "get_slab_alloc_size sz = BALIGN sz SLAB_MIN_DATA_SIZE"

definition upd_header :: "u64 \<Rightarrow> (slab_header \<Rightarrow> slab_header) \<Rightarrow> memory \<Rightarrow> memory res" where
  "upd_header h f m = (case headers m h of None \<Rightarrow> Inl Out_Of_Bounds | Some x \<Rightarrow> Inr (m\<lparr>headers := (headers m)(h \<mapsto> f x)\<rparr>))"

text \<open>The entry of a hash chain for a size.\<close>

fun find_slab_type :: "u64 \<Rightarrow> slab_type list \<Rightarrow> nat option" where
  "find_slab_type sz [] = None"
| "find_slab_type sz (st # sts) = (if ucast (st_size st) \<noteq> sz then map_option Suc (find_slab_type sz sts) else Some 0)"

definition set_slab_head :: "nat \<Rightarrow> nat \<Rightarrow> u64 list \<Rightarrow> memory \<Rightarrow> memory" where
  "set_slab_head i j hs m =
     m\<lparr>slab_hash_table := (slab_hash_table m)[i := (slab_hash_table m ! i)[j := (slab_hash_table m ! i ! j)\<lparr>st_head := hs\<rparr>]]\<rparr>"

definition malloc_from_hash_table :: "u64 \<Rightarrow> memory \<Rightarrow> (u64 \<times> memory) res" where
  "malloc_from_hash_table sz m =
     (let i = hash_id sz in
      case find_slab_type sz (slab_hash_table m ! i) of
        None \<Rightarrow> Inr (0, m)
      | Some j \<Rightarrow>
          (case st_head (slab_hash_table m ! i ! j) of
             [] \<Rightarrow> Inr (0, m)
           | sh # hs \<Rightarrow> thenR (upd_header sh (\<lambda>x. x\<lparr>sh_link := SLAB_MAGIC\<rparr>) (set_slab_head i j hs m))
               (\<lambda>m. Inr (sh + SLAB_HEADER_SIZE, m))))"

definition malloc_from_slab_heap :: "u64 \<Rightarrow> memory \<Rightarrow> u64 \<times> memory" where
  "malloc_from_slab_heap sz m =
     (if slab_base m \<ge> page_base m then (0, m)
      else let slab_size = page_base m - slab_base m; sz = sz + SLAB_HEADER_SIZE; sh = slab_base m in
        if slab_size < sz then (0, m)
        else (sh + SLAB_HEADER_SIZE,
              m\<lparr>headers := (headers m)(sh \<mapsto> \<lparr>sh_size = sz - SLAB_HEADER_SIZE, sh_link = SLAB_MAGIC\<rparr>), slab_base := slab_base m + sz\<rparr>))"

text \<open>Pushing a header onto a free chain overwrites its magic with the old head.\<close>

definition push_header :: "nat \<Rightarrow> nat \<Rightarrow> u64 \<Rightarrow> memory \<Rightarrow> memory res" where
  "push_header i j h m =
     (let hs = st_head (slab_hash_table m ! i ! j) in
      thenR (upd_header h (\<lambda>x. x\<lparr>sh_link := (case hs of [] \<Rightarrow> 0 | n # _ \<Rightarrow> n)\<rparr>) m)
        (\<lambda>m. Inr (set_slab_head i j (h # hs) m)))"

definition free_slab :: "u64 \<Rightarrow> memory \<Rightarrow> memory res" where
  "free_slab addr m =
     (if \<not> addr < slab_base m then Inl Assert_Failed
      else let h = addr - SLAB_HEADER_SIZE in
        case headers m h of
          None \<Rightarrow> Inl Out_Of_Bounds
        | Some x \<Rightarrow>
            if sh_link x \<noteq> SLAB_MAGIC then Inl Assert_Failed
            else let i = hash_id (sh_size x) in
              case find_slab_type (sh_size x) (slab_hash_table m ! i) of
                Some j \<Rightarrow> push_header i j h m
              | None \<Rightarrow>
                  let (st, m) = malloc_from_slab_heap sizeof_slab_type m in
                  if st = 0 then Inr m
                  else let j = length (slab_hash_table m ! i) in
                    push_header i j h
                      (m\<lparr>slab_hash_table := (slab_hash_table m)[i := slab_hash_table m ! i @ [\<lparr>st_size = ucast (sh_size x), st_head = []\<rparr>]]\<rparr>))"

definition malloc_inner :: "u64 \<Rightarrow> memory \<Rightarrow> (u64 \<times> memory) res" where
  "malloc_inner sz m =
     thenR (malloc_from_hash_table sz m) (\<lambda>(p, m). if p \<noteq> 0 then Inr (p, m) else Inr (malloc_from_slab_heap sz m))"

definition malloc :: "u64 \<Rightarrow> memory \<Rightarrow> (u64 \<times> memory) res" where
  "malloc sz m = (if sz = 0 then Inl Assert_Failed else malloc_inner (get_slab_alloc_size sz) m)"

definition free :: "u64 \<Rightarrow> memory \<Rightarrow> memory res" where
  "free addr m = (if addr = 0 then Inl Assert_Failed else free_slab addr m)"

definition add_used_page :: "page option \<Rightarrow> memory \<Rightarrow> memory res" where
  "add_used_page pg m = (case pg of None \<Rightarrow> Inl Null_Deref | Some p \<Rightarrow> Inr (m\<lparr>used_page_head := p # used_page_head m\<rparr>))"

text \<open>The first page of a list with a property, and the list without it.\<close>

fun take_page :: "(page \<Rightarrow> bool) \<Rightarrow> page list \<Rightarrow> (page \<times> page list) option" where
  "take_page f [] = None"
| "take_page f (p # ps) = (if f p then Some (p, ps) else map_option (\<lambda>(q, qs). (q, p # qs)) (take_page f ps))"

definition find_used_page :: "u64 \<Rightarrow> memory \<Rightarrow> page option \<times> memory" where
  "find_used_page addr m =
     (case take_page (\<lambda>p. ucast (pfn p) = drop_bit PAGE_SHIFT addr) (used_page_head m) of
        None \<Rightarrow> (None, m)
      | Some (p, ps) \<Rightarrow> (Some p, m\<lparr>used_page_head := ps\<rparr>))"

definition free_page :: "page \<Rightarrow> memory \<Rightarrow> memory" where
  "free_page p m = m\<lparr>free_page_head := p # free_page_head m\<rparr>"

definition free_pages :: "u64 \<Rightarrow> memory \<Rightarrow> memory res" where
  "free_pages addr m =
     (if \<not> (IS_PAGE_ALIGN addr \<or> addr \<noteq> 0) then Inl Assert_Failed
      else case find_used_page addr m of (None, m) \<Rightarrow> Inr m | (Some p, m) \<Rightarrow> Inr (free_page p m))"

definition alloc_new_pages :: "int \<Rightarrow> u64 \<Rightarrow> memory \<Rightarrow> (page option \<times> memory) res" where
  "alloc_new_pages pages align m =
     (let tmp = page_base m; base = ALIGN (tmp - of_int (pages * 4096)) align in
      if base < slab_base m then Inr (None, m)
      else
        let rbase = base + of_int (pages * 4096);
            mk = (\<lambda>(a, m). if a = 0 then (None, m) else
                     (Some \<lparr>page_at = a, pfn = ucast (drop_bit PAGE_SHIFT base), page_flags = 0,
                            page_align = ucast (drop_bit PAGE_SHIFT align), page_cnt = of_int pages\<rparr>, m\<lparr>page_base := base\<rparr>))
        in if rbase \<noteq> tmp then
             thenR (malloc_inner sizeof_page m)
               (\<lambda>(r, m). if r = 0 then Inr (None, m)
                  else let recycle = \<lparr>page_at = r, pfn = ucast (drop_bit PAGE_SHIFT rbase), page_flags = 0, page_align = 1,
                                      page_cnt = ucast (drop_bit PAGE_SHIFT (tmp - rbase))\<rparr>;
                           m = free_page recycle m
                       in thenR (malloc_inner sizeof_page m)
                            (\<lambda>(a, m). if a = 0 then thenR (free_slab r m) (\<lambda>m. Inr (None, m)) else Inr (mk (a, m))))
           else thenR (malloc_inner sizeof_page m) (\<lambda>am. Inr (mk am)))"

text \<open>\<^verbatim>\<open>__alloc_pages\<close>. When the first page of the free list fits, \<^verbatim>\<open>free_page_head\<close> becomes NULL: the rest of the
  list hangs off \<^verbatim>\<open>page->next\<close>, which \<^verbatim>\<open>add_used_page\<close> then overwrites.\<close>

definition alloc_pages :: "int \<Rightarrow> int \<Rightarrow> memory \<Rightarrow> (page option \<times> memory) res" where
  "alloc_pages pages align m =
     (if align \<notin> {1, 2, 4, 8} then Inr (None, m)
      else
        let fits = (\<lambda>p. uint (page_cnt p) = pages \<and> uint (page_align p) = align) in
        thenR (case take_page fits (free_page_head m) of
                 None \<Rightarrow> alloc_new_pages pages (of_int (4096 * align)) m
               | Some (p, ps) \<Rightarrow> Inr (Some p, m\<lparr>free_page_head := (if fits (hd (free_page_head m)) then [] else ps)\<rparr>))
          (\<lambda>(pg, m). thenR (add_used_page pg m) (\<lambda>m. Inr (pg, m))))"

text \<open>\<^verbatim>\<open>ptov\<close> sets the bits of \<^verbatim>\<open>CONFIG_PTOV_MASK\<close>.\<close>

definition ptov :: "u64 \<Rightarrow> u64 \<Rightarrow> u64" where
  "ptov ptov_mask addr = addr OR ptov_mask"

definition get_free_pages :: "u64 \<Rightarrow> int \<Rightarrow> int \<Rightarrow> memory \<Rightarrow> (u64 \<times> memory) res" where
  "get_free_pages ptov_mask pages align m =
     thenR (alloc_pages pages align m)
       (\<lambda>(pg, m). Inr (case pg of None \<Rightarrow> 0 | Some p \<Rightarrow> ptov ptov_mask (push_bit PAGE_SHIFT (ucast (pfn p))), m))"

definition slab_init :: "memory \<Rightarrow> memory" where
  "slab_init m = m\<lparr>slab_hash_table := replicate HASH_TABLE_SIZE []\<rparr>"

definition memory_init :: "u64 \<Rightarrow> u64 \<Rightarrow> u64 \<Rightarrow> u64 \<Rightarrow> memory \<Rightarrow> memory res" where
  "memory_init ptov_mask minos_start minos_end ram_size m =
     (let m = m\<lparr>slab_base := BALIGN (ptov ptov_mask minos_end) 16, page_base := ptov ptov_mask (minos_start + ram_size)\<rparr> in
      if page_base m > slab_base m then Inr m else Inl Assert_Failed)"

text \<open>\<^verbatim>\<open>memory_region_init\<close> after \<^verbatim>\<open>of_mm_init\<close> has filled the region list: the result is the ramdisk range, if there is
  one. \<^verbatim>\<open>BUG\<close> is an endless loop.\<close>

fun check_regions :: "u64 \<Rightarrow> u64 \<Rightarrow> memory_region list \<Rightarrow> (u64 \<times> u64) option \<Rightarrow> (u64 \<times> u64) option res" where
  "check_regions minos_start fin [] rd = Inr rd"
| "check_regions minos_start fin (r # rs) rd =
     (if mr_type r = MEMORY_REGION_TYPE_KERNEL \<and> phy_base r \<ge> minos_start \<and> phy_base r + mr_size r < fin then Inl Spinning
      else check_regions minos_start fin rs
        (if mr_type r = MEMORY_REGION_TYPE_RAMDISK then Some (phy_base r, phy_base r + mr_size r) else rd))"

definition memory_region_init :: "u64 \<Rightarrow> u64 \<Rightarrow> mem_regions \<Rightarrow> (u64 \<times> u64) option res" where
  "memory_region_init minos_start ram_size rg = check_regions minos_start (minos_start + ram_size) (mem_list rg) None"

definition mm_init :: "u64 \<Rightarrow> u64 \<Rightarrow> u64 \<Rightarrow> u64 \<Rightarrow> mem_regions \<Rightarrow> memory \<Rightarrow> (memory \<times> (u64 \<times> u64) option) res" where
  "mm_init ptov_mask minos_start minos_end ram_size rg m =
     thenR (memory_init ptov_mask minos_start minos_end ram_size m)
       (\<lambda>m. let m = slab_init m in thenR (memory_region_init minos_start ram_size rg) (\<lambda>rd. Inr (m, rd)))"

section \<open>The slab heap\<close>

text \<open>The bytes of a block, header included; the headers in use by a caller; the free chain of a hash table entry.\<close>

definition span :: "u64 \<Rightarrow> slab_header \<Rightarrow> nat set" where
  "span h x = {unat h..<unat h + 16 + unat (sh_size x)}"

definition live :: "memory \<Rightarrow> u64 set" where
  "live m = {h. \<exists>x. headers m h = Some x \<and> sh_link x = SLAB_MAGIC}"

abbreviation st_at :: "memory \<Rightarrow> nat \<Rightarrow> nat \<Rightarrow> slab_type" where
  "st_at m i j \<equiv> slab_hash_table m ! i ! j"

definition header_ok :: "u64 \<Rightarrow> u64 \<Rightarrow> slab_header \<Rightarrow> bool" where
  "header_ok brk h x \<longleftrightarrow> 16 dvd unat h \<and> 0 < unat h \<and> 16 dvd unat (sh_size x) \<and> unat (sh_size x) < 2 ^ 32 \<and>
     0 < unat (sh_size x) \<and> unat h + 16 + unat (sh_size x) \<le> unat brk"

definition heap_inv :: "memory \<Rightarrow> bool" where
  "heap_inv m \<longleftrightarrow> 16 dvd unat (slab_base m) \<and> 0 < unat (slab_base m) \<and> (\<forall>h x. headers m h = Some x \<longrightarrow> header_ok (slab_base m) h x) \<and>
     (\<forall>h h' x x'. headers m h = Some x \<longrightarrow> headers m h' = Some x' \<longrightarrow> h \<noteq> h' \<longrightarrow> span h x \<inter> span h' x' = {})"

definition on_chain :: "memory \<Rightarrow> slab_type \<Rightarrow> u64 \<Rightarrow> bool" where
  "on_chain m st h \<longleftrightarrow> (\<exists>x. headers m h = Some x \<and> sh_size x = ucast (st_size st) \<and> sh_link x \<noteq> SLAB_MAGIC)"

definition chains_inv :: "memory \<Rightarrow> bool" where
  "chains_inv m \<longleftrightarrow> length (slab_hash_table m) = HASH_TABLE_SIZE \<and>
     (\<forall>i<HASH_TABLE_SIZE. distinct (map st_size (slab_hash_table m ! i)) \<and>
        (\<forall>j<length (slab_hash_table m ! i). hash_id (ucast (st_size (st_at m i j))) = i \<and> distinct (st_head (st_at m i j)) \<and>
           (\<forall>h\<in>set (st_head (st_at m i j)). on_chain m (st_at m i j) h)))"

definition slab_inv :: "memory \<Rightarrow> bool" where
  "slab_inv m \<longleftrightarrow> heap_inv m \<and> chains_inv m"

lemma hash_id_less [simp]: "hash_id sz < HASH_TABLE_SIZE"
  by (simp add: hash_id_def)

lemma find_slab_type_Some:
  "find_slab_type sz sts = Some j \<Longrightarrow> j < length sts \<and> ucast (st_size (sts ! j)) = sz"
  by (induction sts arbitrary: j) (auto split: if_splits)

lemma find_slab_type_None: "find_slab_type sz sts = None \<Longrightarrow> st \<in> set sts \<Longrightarrow> ucast (st_size st) \<noteq> sz"
  by (induction sts) (auto split: if_splits)

lemma find_slab_type_eq: "j < length sts \<Longrightarrow> distinct (map st_size sts) \<Longrightarrow> ucast (st_size (sts ! j)) = sz \<Longrightarrow> find_slab_type sz sts = Some j"
proof (induction sts arbitrary: j)
  case (Cons st sts)
  then show ?case
  proof (cases j)
    case (Suc k)
    then have "st_size (sts ! k) \<in> st_size ` set sts" using Cons.prems by simp
    then have "st_size st \<noteq> st_size (sts ! k)" using Cons.prems by auto
    moreover have "ucast (st_size st) = (ucast (st_size (sts ! k)) :: u64) \<Longrightarrow> st_size st = st_size (sts ! k)"
      by (metis unat_ucast_u32_u64 word_unat_eq_iff)
    ultimately show ?thesis using Cons Suc by auto
  qed simp
qed simp

lemma find_slab_type_sizes: "map st_size sts = map st_size sts' \<Longrightarrow> find_slab_type sz sts = find_slab_type sz sts'"
  by (induction sts sts' rule: list_induct2') auto

lemma chains_invD:
  assumes "chains_inv m" "i < HASH_TABLE_SIZE"
  shows "length (slab_hash_table m) = HASH_TABLE_SIZE" "distinct (map st_size (slab_hash_table m ! i))"
    and "j < length (slab_hash_table m ! i) \<Longrightarrow> hash_id (ucast (st_size (st_at m i j))) = i"
    and "j < length (slab_hash_table m ! i) \<Longrightarrow> distinct (st_head (st_at m i j))"
    and "j < length (slab_hash_table m ! i) \<Longrightarrow> h \<in> set (st_head (st_at m i j)) \<Longrightarrow> on_chain m (st_at m i j) h"
  using assms by (auto simp: chains_inv_def)

lemma chain_unique:
  assumes inv: "chains_inv m" and i: "i < HASH_TABLE_SIZE" "j < length (slab_hash_table m ! i)" "h \<in> set (st_head (st_at m i j))"
    and k: "k < HASH_TABLE_SIZE" "l < length (slab_hash_table m ! k)" "h \<in> set (st_head (st_at m k l))"
  shows "i = k \<and> j = l"
proof -
  from chains_invD(5) [OF inv i] chains_invD(5) [OF inv k]
  have e: "st_size (st_at m i j) = st_size (st_at m k l)" unfolding on_chain_def by (metis option.inject unat_ucast_u32_u64 word_unat_eq_iff)
  then have "i = k" using chains_invD(3) [OF inv i(1,2)] chains_invD(3) [OF inv k(1,2)] by simp
  moreover have "distinct (map st_size (slab_hash_table m ! i))" using chains_invD(2) [OF inv i(1)] .
  ultimately show ?thesis using e i k nth_eq_iff_index_eq [of "map st_size (slab_hash_table m ! i)" j l] by simp
qed

lemma nth_update: "l < length xs \<Longrightarrow> xs[j := x] ! l = (if j = l then x else xs ! l)"
  by (cases "j = l") simp_all

lemma set_slab_head_table:
  assumes "length (slab_hash_table m) = HASH_TABLE_SIZE" "i < HASH_TABLE_SIZE" "k < HASH_TABLE_SIZE"
  shows "map st_size (slab_hash_table (set_slab_head i j hs m) ! k) = map st_size (slab_hash_table m ! k)"
    "length (slab_hash_table (set_slab_head i j hs m) ! k) = length (slab_hash_table m ! k)"
    "l < length (slab_hash_table m ! k) \<Longrightarrow> st_size (st_at (set_slab_head i j hs m) k l) = st_size (st_at m k l)"
    "l < length (slab_hash_table m ! k) \<Longrightarrow> st_head (st_at (set_slab_head i j hs m) k l) = (if k = i \<and> l = j then hs else st_head (st_at m k l))"
  using assms by (auto simp: set_slab_head_def nth_update list_eq_iff_nth_eq)

lemma set_slab_head_sel [simp]:
  "headers (set_slab_head i j hs m) = headers m" "slab_base (set_slab_head i j hs m) = slab_base m"
  "page_base (set_slab_head i j hs m) = page_base m" "length (slab_hash_table (set_slab_head i j hs m)) = length (slab_hash_table m)"
  "free_page_head (set_slab_head i j hs m) = free_page_head m" "used_page_head (set_slab_head i j hs m) = used_page_head m"
  by (simp_all add: set_slab_head_def)

text \<open>Replacing one free chain, together with a change of the links of headers.\<close>

lemma chains_update:
  assumes inv: "chains_inv m" and i: "i < HASH_TABLE_SIZE" "j < length (slab_hash_table m ! i)" and d: "distinct hs"
    and here: "\<And>h. h \<in> set hs \<Longrightarrow> on_chain (m\<lparr>headers := H\<rparr>) (st_at m i j) h"
    and there: "\<And>k l h. k < HASH_TABLE_SIZE \<Longrightarrow> l < length (slab_hash_table m ! k) \<Longrightarrow> (k, l) \<noteq> (i, j) \<Longrightarrow>
        h \<in> set (st_head (st_at m k l)) \<Longrightarrow> H h = headers m h"
  shows "chains_inv (set_slab_head i j hs (m\<lparr>headers := H\<rparr>))"
proof -
  let ?m = "m\<lparr>headers := H\<rparr>" and ?s = "set_slab_head i j hs (m\<lparr>headers := H\<rparr>)"
  have len: "length (slab_hash_table ?m) = HASH_TABLE_SIZE" using chains_invD(1) [OF inv i(1)] by simp
  note tab = set_slab_head_table [OF len i(1)]
  have "on_chain ?s (st_at ?s k l) h"
    if k: "k < HASH_TABLE_SIZE" "l < length (slab_hash_table m ! k)" and h: "h \<in> set (st_head (st_at ?s k l))" for k l h
  proof (cases "(k, l) = (i, j)")
    case True
    then show ?thesis using here [of h] h k tab(3,4) [OF k(1), of l] by (simp add: on_chain_def)
  next
    case False
    then have "h \<in> set (st_head (st_at m k l))" using h k tab(4) [OF k(1), of l] by auto
    then show ?thesis using there [OF k False] chains_invD(5) [OF inv k] k tab(3) [OF k(1), of l] by (simp add: on_chain_def)
  qed
  moreover have "distinct (st_head (st_at ?s k l))" if k: "k < HASH_TABLE_SIZE" "l < length (slab_hash_table m ! k)" for k l
    using chains_invD(4) [OF inv k] d tab(4) [OF k(1), of l] k by simp
  ultimately show ?thesis
    unfolding chains_inv_def using chains_invD(2,3) [OF inv] len tab by (simp add: tab)
qed

lemma heap_inv_sizes:
  assumes inv: "heap_inv m" and b: "slab_base m' = slab_base m"
    and sz: "\<And>h y. headers m' h = Some y \<Longrightarrow> \<exists>x. headers m h = Some x \<and> sh_size x = sh_size y"
  shows "heap_inv m'"
proof -
  have "header_ok (slab_base m') h y" if "headers m' h = Some y" for h y
    using sz [OF that] inv b unfolding heap_inv_def header_ok_def by metis
  moreover have "span h y \<inter> span k z = {}" if "headers m' h = Some y" "headers m' k = Some z" "h \<noteq> k" for h k y z
    using sz [OF that(1)] sz [OF that(2)] that(3) inv unfolding heap_inv_def span_def by metis
  ultimately show ?thesis using inv b unfolding heap_inv_def by metis
qed

lemma heap_inv_link:
  "heap_inv m \<Longrightarrow> headers m h = Some x \<Longrightarrow> heap_inv (m\<lparr>headers := (headers m)(h \<mapsto> x\<lparr>sh_link := v\<rparr>)\<rparr>)"
  by (erule heap_inv_sizes) (auto split: if_splits)

lemma heap_inv_cong:
  "headers m' = headers m \<Longrightarrow> slab_base m' = slab_base m \<Longrightarrow> heap_inv m' = heap_inv m"
  by (simp add: heap_inv_def)

lemma heap_invD:
  assumes "heap_inv m" "headers m h = Some x"
  shows "16 dvd unat h" "0 < unat h" "16 dvd unat (sh_size x)" "unat (sh_size x) < 2 ^ 32"
    "unat h + 16 + unat (sh_size x) \<le> unat (slab_base m)" "0 < unat (sh_size x)"
  using assms by (auto simp: heap_inv_def header_ok_def)

text \<open>The block address and its header.\<close>

lemma block_addr:
  assumes "unat h + 16 < 2 ^ 64"
  shows "h + SLAB_HEADER_SIZE \<noteq> 0" "unat (h + SLAB_HEADER_SIZE) = unat h + 16"
proof -
  show u: "unat (h + SLAB_HEADER_SIZE) = unat h + 16" using assms by (simp add: unat_plus_u64)
  then show "h + SLAB_HEADER_SIZE \<noteq> 0" by (metis add_is_0 unat_0 zero_neq_numeral)
qed

lemma heap_alloc:
  assumes inv: "slab_inv m" and sz: "16 dvd unat sz" "unat sz < 2 ^ 32" "0 < unat sz" and st: "malloc_from_slab_heap sz m = (p, m')"
  shows "slab_inv m'" and "p = 0 \<Longrightarrow> m' = m"
    and "p \<noteq> 0 \<Longrightarrow> p = slab_base m + 16 \<and> headers m (slab_base m) = None \<and> unat (slab_base m) + 16 + unat sz \<le> unat (page_base m) \<and>
       m' = m\<lparr>headers := (headers m)(slab_base m \<mapsto> \<lparr>sh_size = sz, sh_link = SLAB_MAGIC\<rparr>), slab_base := slab_base m + (sz + 16)\<rparr>"
proof -
  let ?b = "slab_base m"
  have hi: "heap_inv m" "chains_inv m" using inv by (simp_all add: slab_inv_def)
  have s16: "unat (sz + 16) = unat sz + 16" using sz by (simp add: unat_plus_u64)
  consider (fail) "p = 0" "m' = m" | (ok) "?b < page_base m" "sz + 16 \<le> page_base m - ?b" "p = ?b + 16"
    "m' = m\<lparr>headers := (headers m)(?b \<mapsto> \<lparr>sh_size = sz, sh_link = SLAB_MAGIC\<rparr>), slab_base := ?b + (sz + 16)\<rparr>"
    using st by (auto simp: malloc_from_slab_heap_def Let_def not_le not_less add.commute split: if_splits)
  then have "slab_inv m' \<and> (p = 0 \<longrightarrow> m' = m) \<and> (p \<noteq> 0 \<longrightarrow> p = ?b + 16 \<and> headers m ?b = None \<and> unat ?b + 16 + unat sz \<le> unat (page_base m) \<and>
       m' = m\<lparr>headers := (headers m)(?b \<mapsto> \<lparr>sh_size = sz, sh_link = SLAB_MAGIC\<rparr>), slab_base := ?b + (sz + 16)\<rparr>)"
  proof cases
    case fail
    then show ?thesis using inv by simp
  next
    case ok
    have room: "unat ?b + 16 + unat sz \<le> unat (page_base m)"
      using ok(1,2) s16 unat_minus_u64 [of ?b "page_base m"] by (simp add: word_le_nat_alt word_less_nat_alt)
    have lt: "unat (page_base m) < 2 ^ 64" by (rule unat_bounds)
    have b': "unat (?b + (sz + 16)) = unat ?b + unat sz + 16" using room lt s16 by (simp add: unat_plus_u64)
    have p: "p \<noteq> 0" using block_addr(1) [of ?b] room lt ok(3) by simp
    have fresh: "headers m ?b = None"
      using heap_invD(5) [OF hi(1), of ?b] by (cases "headers m ?b") auto
    have below: "unat h + 16 + unat (sh_size x) \<le> unat ?b" if "headers m h = Some x" for h x using heap_invD(5) [OF hi(1) that] .
    have hm: "headers m' = (headers m)(?b \<mapsto> \<lparr>sh_size = sz, sh_link = SLAB_MAGIC\<rparr>)" "slab_base m' = ?b + (sz + 16)" by (simp_all add: ok(4))
    have "header_ok (slab_base m') h x" if "headers m' h = Some x" for h x
    proof (cases "h = ?b")
      case True
      then show ?thesis using that hi(1) sz b' by (auto simp: hm header_ok_def heap_inv_def)
    next
      case False
      then show ?thesis using that below [of h x] heap_invD [OF hi(1), of h x] b' by (simp add: hm header_ok_def)
    qed
    moreover have "span h x \<inter> span h' x' = {}" if h: "headers m' h = Some x" "headers m' h' = Some x'" "h \<noteq> h'" for h h' x x'
    proof (cases "h = ?b \<or> h' = ?b")
      case True
      then show ?thesis using h below [of h x] below [of h' x'] by (fastforce simp: hm span_def)
    next
      case False
      then show ?thesis using h hi(1) by (simp add: hm heap_inv_def)
    qed
    moreover have "16 dvd unat (slab_base m')" "0 < unat (slab_base m')" using hi(1) sz b' by (simp_all add: hm heap_inv_def)
    ultimately have "heap_inv m'" unfolding heap_inv_def by blast
    moreover have "on_chain m' st h" if "on_chain m st h" for st h using that fresh by (auto simp: on_chain_def ok(4))
    then have "chains_inv m'" using hi(2) by (simp add: chains_inv_def ok(4) on_chain_def)
    ultimately show ?thesis using ok p fresh room by (simp add: slab_inv_def)
  qed
  then show "slab_inv m'" "p = 0 \<Longrightarrow> m' = m"
    "p \<noteq> 0 \<Longrightarrow> p = slab_base m + 16 \<and> headers m (slab_base m) = None \<and> unat (slab_base m) + 16 + unat sz \<le> unat (page_base m) \<and>
       m' = m\<lparr>headers := (headers m)(slab_base m \<mapsto> \<lparr>sh_size = sz, sh_link = SLAB_MAGIC\<rparr>), slab_base := slab_base m + (sz + 16)\<rparr>" by blast+
qed

lemma live_update:
  "headers m' = (headers m)(h \<mapsto> x) \<Longrightarrow> live m' = (if sh_link x = SLAB_MAGIC then insert h (live m) else live m - {h})"
  by (auto simp: live_def split: if_splits)

text \<open>Taking a header off its free chain.\<close>

lemma pop_ok:
  assumes inv: "slab_inv m" and i: "i < HASH_TABLE_SIZE" "j < length (slab_hash_table m ! i)" and hd: "st_head (st_at m i j) = h # hs"
  shows "\<exists>x. headers m h = Some x \<and> sh_size x = ucast (st_size (st_at m i j)) \<and> h \<notin> live m \<and>
     slab_inv (set_slab_head i j hs (m\<lparr>headers := (headers m)(h \<mapsto> x\<lparr>sh_link := SLAB_MAGIC\<rparr>)\<rparr>))"
proof -
  have ci: "chains_inv m" and hi: "heap_inv m" using inv by (simp_all add: slab_inv_def)
  obtain x where x: "headers m h = Some x" "sh_size x = ucast (st_size (st_at m i j))" "sh_link x \<noteq> SLAB_MAGIC"
    using chains_invD(5) [OF ci i, of h] hd by (auto simp: on_chain_def)
  let ?H = "(headers m)(h \<mapsto> x\<lparr>sh_link := SLAB_MAGIC\<rparr>)"
  have d: "distinct hs" "h \<notin> set hs" using chains_invD(4) [OF ci i] hd by simp_all
  have "chains_inv (set_slab_head i j hs (m\<lparr>headers := ?H\<rparr>))"
  proof (rule chains_update [OF ci i d(1)])
    fix h' assume "h' \<in> set hs"
    then show "on_chain (m\<lparr>headers := ?H\<rparr>) (st_at m i j) h'"
      using chains_invD(5) [OF ci i, of h'] d(2) hd by (auto simp: on_chain_def)
  next
    fix k l h' assume "k < HASH_TABLE_SIZE" "l < length (slab_hash_table m ! k)" "(k, l) \<noteq> (i, j)" "h' \<in> set (st_head (st_at m k l))"
    then have "h' \<noteq> h" using chain_unique [OF ci i, of h k l] hd by auto
    then show "?H h' = headers m h'" by simp
  qed
  moreover have "heap_inv (set_slab_head i j hs (m\<lparr>headers := ?H\<rparr>))"
    by (rule heap_inv_sizes [OF heap_inv_link [OF hi x(1), of SLAB_MAGIC]]) auto
  ultimately show ?thesis using x by (auto simp: slab_inv_def live_def)
qed

lemma aligned_not_magic: "16 dvd unat h \<Longrightarrow> h \<noteq> SLAB_MAGIC"
  by auto

text \<open>Putting a live header on the free chain of its size.\<close>

lemma push_ok:
  assumes inv: "slab_inv m" and i: "i < HASH_TABLE_SIZE" "j < length (slab_hash_table m ! i)"
    and x: "headers m h = Some x" "sh_link x = SLAB_MAGIC" "sh_size x = ucast (st_size (st_at m i j))"
  shows "\<exists>m' l. push_header i j h m = Inr m' \<and> slab_inv m' \<and> headers m' = (headers m)(h \<mapsto> x\<lparr>sh_link := l\<rparr>) \<and> l \<noteq> SLAB_MAGIC \<and>
     slab_base m' = slab_base m \<and> page_base m' = page_base m \<and> st_head (st_at m' i j) = h # st_head (st_at m i j) \<and>
     map st_size (slab_hash_table m' ! i) = map st_size (slab_hash_table m ! i)"
proof -
  have ci: "chains_inv m" and hi: "heap_inv m" using inv by (simp_all add: slab_inv_def)
  let ?hs = "st_head (st_at m i j)"
  define l where "l = (case ?hs of [] \<Rightarrow> 0 | n # _ \<Rightarrow> n)"
  have "16 dvd unat l"
  proof (cases ?hs)
    case (Cons n ns)
    then have "on_chain m (st_at m i j) n" using chains_invD(5) [OF ci i] by simp
    then show ?thesis using heap_invD(1) [OF hi] Cons by (auto simp: on_chain_def l_def)
  qed (simp add: l_def)
  then have l: "l \<noteq> SLAB_MAGIC" by (rule aligned_not_magic)
  let ?H = "(headers m)(h \<mapsto> x\<lparr>sh_link := l\<rparr>)"
  have off: "h' \<noteq> h" if "k < HASH_TABLE_SIZE" "k' < length (slab_hash_table m ! k)" "h' \<in> set (st_head (st_at m k k'))" for k k' h'
    using chains_invD(5) [OF ci that] x by (auto simp: on_chain_def)
  have "chains_inv (set_slab_head i j (h # ?hs) (m\<lparr>headers := ?H\<rparr>))"
  proof (rule chains_update [OF ci i])
    show "distinct (h # ?hs)" using chains_invD(4) [OF ci i] off [OF i] by auto
    show "on_chain (m\<lparr>headers := ?H\<rparr>) (st_at m i j) h'" if "h' \<in> set (h # ?hs)" for h'
      using that chains_invD(5) [OF ci i, of h'] off [OF i, of h'] x l by (auto simp: on_chain_def)
    show "?H h' = headers m h'" if "k < HASH_TABLE_SIZE" "k' < length (slab_hash_table m ! k)" "(k, k') \<noteq> (i, j)"
      "h' \<in> set (st_head (st_at m k k'))" for k k' h' using off [OF that(1,2,4)] by simp
  qed
  moreover have "heap_inv (set_slab_head i j (h # ?hs) (m\<lparr>headers := ?H\<rparr>))"
    by (rule heap_inv_sizes [OF heap_inv_link [OF hi x(1), of l]]) auto
  moreover have "push_header i j h m = Inr (set_slab_head i j (h # ?hs) (m\<lparr>headers := ?H\<rparr>))"
    using x by (simp add: push_header_def upd_header_def Let_def l_def)
  ultimately show ?thesis using l i set_slab_head_table [of "m\<lparr>headers := ?H\<rparr>" i i] chains_invD(1) [OF ci i(1)]
    by (intro exI [of _ "set_slab_head i j (h # ?hs) (m\<lparr>headers := ?H\<rparr>)"] exI [of _ l]) (simp add: slab_inv_def)
qed

text \<open>The outcome of a successful allocation: a block of exactly the rounded size that nobody holds, all blocks in
  use left alone. \<open>cached\<close> is the free chain an allocation of a size looks at.\<close>

definition allocated :: "u64 \<Rightarrow> memory \<Rightarrow> u64 \<Rightarrow> memory \<Rightarrow> bool" where
  "allocated sz m p m' \<longleftrightarrow> (\<exists>h x. p = h + 16 \<and> unat p = unat h + 16 \<and> h \<notin> live m \<and> live m' = insert h (live m) \<and>
     headers m' h = Some x \<and> sh_size x = sz \<and> (\<forall>k\<in>live m. headers m' k = headers m k))"

definition cached :: "u64 \<Rightarrow> memory \<Rightarrow> u64 list" where
  "cached sz m = (case find_slab_type sz (slab_hash_table m ! hash_id sz) of None \<Rightarrow> [] | Some j \<Rightarrow> st_head (st_at m (hash_id sz) j))"

lemma malloc_inner_ok:
  assumes inv: "slab_inv m" and sz: "16 dvd unat sz" "unat sz < 2 ^ 32" "0 < unat sz"
  shows "\<exists>p m'. malloc_inner sz m = Inr (p, m') \<and> slab_inv m' \<and> (p = 0 \<longrightarrow> m' = m \<and> cached sz m = []) \<and> (p \<noteq> 0 \<longrightarrow> allocated sz m p m') \<and>
     (cached sz m \<noteq> [] \<longrightarrow> p = hd (cached sz m) + 16)"
proof (cases "cached sz m")
  case Nil
  obtain p m' where st: "malloc_from_slab_heap sz m = (p, m')" by (cases "malloc_from_slab_heap sz m")
  have "malloc_from_hash_table sz m = Inr (0, m)"
    using Nil by (auto simp: cached_def malloc_from_hash_table_def Let_def split: option.splits list.splits)
  then have r: "malloc_inner sz m = Inr (p, m')" using st by (simp add: malloc_inner_def)
  note ha = heap_alloc [OF inv sz st]
  have "allocated sz m p m'" if "p \<noteq> 0"
  proof -
    have h: "p = slab_base m + 16" "headers m (slab_base m) = None" "unat (slab_base m) + 16 + unat sz \<le> unat (page_base m)"
      "headers m' = (headers m)(slab_base m \<mapsto> \<lparr>sh_size = sz, sh_link = SLAB_MAGIC\<rparr>)" using ha(3) [OF that] by auto
    have "unat p = unat (slab_base m) + 16" using h(1,3) block_addr(2) [of "slab_base m"] unat_bounds(3) [of "page_base m"] by simp
    moreover have "live m' = insert (slab_base m) (live m)" using live_update [OF h(4)] by simp
    moreover have "slab_base m \<notin> live m" using h(2) by (simp add: live_def)
    ultimately show ?thesis unfolding allocated_def using h by (intro exI [of _ "slab_base m"]) auto
  qed
  then show ?thesis using r ha Nil by auto
next
  case (Cons h hs)
  let ?i = "hash_id sz"
  obtain j where j: "find_slab_type sz (slab_hash_table m ! ?i) = Some j" "st_head (st_at m ?i j) = h # hs"
    using Cons by (auto simp: cached_def split: option.splits)
  have jl: "j < length (slab_hash_table m ! ?i)" "ucast (st_size (st_at m ?i j)) = sz" using find_slab_type_Some [OF j(1)] by auto
  obtain x where x: "headers m h = Some x" "sh_size x = sz" "h \<notin> live m"
    and inv': "slab_inv (set_slab_head ?i j hs (m\<lparr>headers := (headers m)(h \<mapsto> x\<lparr>sh_link := SLAB_MAGIC\<rparr>)\<rparr>))" (is "slab_inv ?m")
    using pop_ok [OF inv hash_id_less jl(1) j(2)] jl(2) by auto
  have hb: "h + 16 \<noteq> 0" "unat (h + 16) = unat h + 16"
    using block_addr [of h] heap_invD(5) [of m h x] inv x unat_bounds(3) [of "slab_base m"] by (auto simp: slab_inv_def)
  have "set_slab_head ?i j hs m\<lparr>headers := (headers m)(h \<mapsto> x\<lparr>sh_link := SLAB_MAGIC\<rparr>)\<rparr> = ?m" by (simp add: set_slab_head_def)
  then have "malloc_inner sz m = Inr (h + 16, ?m)"
    using j x hb by (simp add: malloc_inner_def malloc_from_hash_table_def Let_def upd_header_def)
  moreover have "allocated sz m (h + 16) ?m"
    unfolding allocated_def using x hb live_update [of ?m m h "x\<lparr>sh_link := SLAB_MAGIC\<rparr>"] by (intro exI [of _ h]) auto
  ultimately show ?thesis using inv' hb Cons by auto
qed

lemma alloc_size:
  assumes "0 < unat sz" "unat sz \<le> 2 ^ 32 - 16"
  shows "16 dvd unat (get_slab_alloc_size sz)" "unat (get_slab_alloc_size sz) < 2 ^ 32" "0 < unat (get_slab_alloc_size sz)"
    "unat sz \<le> unat (get_slab_alloc_size sz)"
proof -
  have u: "unat (get_slab_alloc_size sz) = (unat sz + 15) div 16 * 16"
    using unat_BALIGN [of 4 sz] assms by (simp add: get_slab_alloc_size_def)
  show "16 dvd unat (get_slab_alloc_size sz)" by (simp add: u)
  show "unat (get_slab_alloc_size sz) < 2 ^ 32" "0 < unat (get_slab_alloc_size sz)" "unat sz \<le> unat (get_slab_alloc_size sz)"
    unfolding u using assms by linarith+
qed

lemma live_distinct_spans:
  assumes "slab_inv m" "h \<in> live m" "k \<in> live m" "h \<noteq> k"
  shows "span h (the (headers m h)) \<inter> span k (the (headers m k)) = {}"
  using assms unfolding slab_inv_def heap_inv_def live_def by fastforce

lemma new_type_ok:
  assumes inv: "slab_inv m" and sz: "unat sz < 2 ^ 32" and none: "find_slab_type sz (slab_hash_table m ! hash_id sz) = None"
  defines "i \<equiv> hash_id sz" and "j \<equiv> length (slab_hash_table m ! hash_id sz)"
  defines "m' \<equiv> m\<lparr>slab_hash_table := (slab_hash_table m)[i := slab_hash_table m ! i @ [\<lparr>st_size = ucast sz, st_head = []\<rparr>]]\<rparr>"
  shows "slab_inv m'" "j < length (slab_hash_table m' ! i)" "ucast (st_size (st_at m' i j)) = sz" "st_head (st_at m' i j) = []"
proof -
  let ?st = "\<lparr>st_size = ucast sz, st_head = []\<rparr>"
  have i: "i < HASH_TABLE_SIZE" by (simp add: i_def)
  have ci: "chains_inv m" and hi: "heap_inv m" using inv by (simp_all add: slab_inv_def)
  have u: "unat (ucast sz :: u32) = unat sz" using sz by (simp add: unsigned_ucast_eq take_bit_nat_eq_self)
  then have uu: "ucast (ucast sz :: u32) = sz" by (metis unat_ucast_u32_u64 word_unat_eq_iff)
  have len: "length (slab_hash_table m) = HASH_TABLE_SIZE" using chains_invD(1) [OF ci i] .
  have tab: "slab_hash_table m' ! k = (if k = i then slab_hash_table m ! i @ [?st] else slab_hash_table m ! k)" if "k < HASH_TABLE_SIZE" for k
    using that len by (simp add: m'_def nth_update)
  show j: "j < length (slab_hash_table m' ! i)" and "ucast (st_size (st_at m' i j)) = sz" "st_head (st_at m' i j) = []"
    using tab [OF i] uu by (simp_all add: j_def i_def nth_append)
  have "ucast sz \<notin> st_size ` set (slab_hash_table m ! i)" using find_slab_type_None [OF none] uu by (force simp: i_def)
  moreover have "on_chain m' st h = on_chain m st h" for st h by (simp add: on_chain_def m'_def)
  moreover have "length (slab_hash_table m') = HASH_TABLE_SIZE" using len by (simp add: m'_def)
  ultimately have "chains_inv m'"
    using chains_invD(2-5) [OF ci] uu unfolding chains_inv_def by (auto simp: tab nth_append i_def less_Suc_eq)
  moreover have "heap_inv m'" using hi by (rule heap_inv_sizes) (auto simp: m'_def)
  ultimately show "slab_inv m'" by (simp add: slab_inv_def)
qed

text \<open>Freeing a live block: nothing happens when a new size needs a \<^verbatim>\<open>slab_type\<close> and the heap is exhausted; otherwise
  the block becomes the head of the chain of its size, and only a new \<^verbatim>\<open>slab_type\<close> may have been taken from the heap.\<close>

definition released :: "u64 \<Rightarrow> memory \<Rightarrow> memory \<Rightarrow> bool" where
  "released h m m' \<longleftrightarrow> (\<exists>x. headers m h = Some x \<and> h \<notin> live m' \<and> live m - {h} \<subseteq> live m' \<and> live m' \<subseteq> live m - {h} \<union> {slab_base m} \<and>
     cached (sh_size x) m' = h # cached (sh_size x) m \<and> (\<exists>x'. headers m' h = Some x' \<and> sh_link x' \<noteq> SLAB_MAGIC) \<and>
     slab_base m \<le> slab_base m' \<and> (\<forall>k\<in>live m - {h}. headers m' k = headers m k))"

definition no_slab_type_left :: "u64 \<Rightarrow> memory \<Rightarrow> bool" where
  "no_slab_type_left h m \<longleftrightarrow> (\<exists>x. headers m h = Some x \<and> find_slab_type (sh_size x) (slab_hash_table m ! hash_id (sh_size x)) = None \<and>
     fst (malloc_from_slab_heap sizeof_slab_type m) = 0)"

lemma free_slab_ok:
  assumes inv: "slab_inv m" and h: "h \<in> live m"
  shows "\<exists>m'. free_slab (h + 16) m = Inr m' \<and> slab_inv m' \<and> (if no_slab_type_left h m then m' = m else released h m m')"
proof -
  obtain x where x: "headers m h = Some x" "sh_link x = SLAB_MAGIC" using h by (auto simp: live_def)
  have hi: "heap_inv m" and ci: "chains_inv m" using inv by (simp_all add: slab_inv_def)
  note hd = heap_invD [OF hi x(1)]
  have u: "unat (h + 16) = unat h + 16" using hd(5) unat_bounds(3) [of "slab_base m"] by (intro block_addr) linarith
  then have lt: "h + 16 < slab_base m" using hd(5,6) by (simp add: word_less_nat_alt)
  let ?i = "hash_id (sh_size x)"
  have fs: "free_slab (h + 16) m = (case find_slab_type (sh_size x) (slab_hash_table m ! ?i) of
       Some j \<Rightarrow> push_header ?i j h m
     | None \<Rightarrow> let (st, m) = malloc_from_slab_heap sizeof_slab_type m in
         if st = 0 then Inr m else push_header ?i (length (slab_hash_table m ! ?i)) h
           (m\<lparr>slab_hash_table := (slab_hash_table m)[?i := slab_hash_table m ! ?i @ [\<lparr>st_size = ucast (sh_size x), st_head = []\<rparr>]]\<rparr>))"
    using lt x by (simp add: free_slab_def Let_def split: option.split prod.split)
  show ?thesis
  proof (cases "find_slab_type (sh_size x) (slab_hash_table m ! ?i)")
    case (Some j)
    have j: "j < length (slab_hash_table m ! ?i)" "sh_size x = ucast (st_size (st_at m ?i j))" using find_slab_type_Some [OF Some] by auto
    obtain m' l where p: "push_header ?i j h m = Inr m'" "slab_inv m'" "headers m' = (headers m)(h \<mapsto> x\<lparr>sh_link := l\<rparr>)" "l \<noteq> SLAB_MAGIC"
      "slab_base m' = slab_base m" "st_head (st_at m' ?i j) = h # st_head (st_at m ?i j)"
      "map st_size (slab_hash_table m' ! ?i) = map st_size (slab_hash_table m ! ?i)"
      using push_ok [OF inv hash_id_less j(1) x j(2)] by blast
    have "find_slab_type (sh_size x) (slab_hash_table m' ! ?i) = Some j"
      using Some find_slab_type_sizes [OF p(7)] by simp
    then have "cached (sh_size x) m' = h # cached (sh_size x) m" using Some p(6) by (simp add: cached_def)
    then have "released h m m'" using x p live_update [OF p(3)] by (auto simp: released_def)
    then show ?thesis using fs Some p by (auto simp: no_slab_type_left_def x)
  next
    case None
    obtain st m1 where st: "malloc_from_slab_heap sizeof_slab_type m = (st, m1)" by (cases "malloc_from_slab_heap sizeof_slab_type m")
    note ha = heap_alloc [OF inv _ _ _ st, simplified]
    show ?thesis
    proof (cases "st = 0")
      case True
      then show ?thesis using fs None st ha inv by (auto simp: no_slab_type_left_def x)
    next
      case False
      let ?b = "slab_base m"
      let ?t = "m1\<lparr>slab_hash_table := (slab_hash_table m1)[?i := slab_hash_table m1 ! ?i @ [\<lparr>st_size = ucast (sh_size x), st_head = []\<rparr>]]\<rparr>"
      have m1: "headers m1 = (headers m)(?b \<mapsto> \<lparr>sh_size = 32, sh_link = SLAB_MAGIC\<rparr>)" "headers m ?b = None" "slab_hash_table m1 = slab_hash_table m"
        "slab_base m1 = ?b + 48" "unat ?b + 48 \<le> unat (page_base m)" using ha(3) [OF False] by auto
      have up: "?b \<le> slab_base m1" using m1(4,5) unat_bounds(3) [of "page_base m"] by (simp add: word_le_nat_alt unat_plus_u64)
      have hb: "h \<noteq> ?b" using m1(2) x by auto
      have n: "find_slab_type (sh_size x) (slab_hash_table m1 ! ?i) = None" using None m1(3) by simp
      note nt = new_type_ok [OF ha(1) hd(4) n]
      have x1: "headers ?t h = Some x" using x hb m1(1) by simp
      obtain m' l where p: "push_header ?i (length (slab_hash_table m1 ! ?i)) h ?t = Inr m'" "slab_inv m'"
        "headers m' = (headers ?t)(h \<mapsto> x\<lparr>sh_link := l\<rparr>)" "l \<noteq> SLAB_MAGIC" "slab_base m' = slab_base ?t"
        "st_head (st_at m' ?i (length (slab_hash_table m1 ! ?i))) = [h]"
        "map st_size (slab_hash_table m' ! ?i) = map st_size (slab_hash_table ?t ! ?i)"
        using push_ok [OF nt(1) hash_id_less nt(2) x1 x(2)] nt(3,4) by metis
      have "find_slab_type (sh_size x) (slab_hash_table ?t ! ?i) = Some (length (slab_hash_table m1 ! ?i))"
        using nt(3) chains_invD(2) [of ?t ?i] nt(1,2) by (intro find_slab_type_eq) (simp_all add: slab_inv_def)
      then have "cached (sh_size x) m' = h # cached (sh_size x) m" using None p(6) find_slab_type_sizes [OF p(7)] by (simp add: cached_def)
      moreover have "live m' = live ?t - {h}" using live_update [OF p(3)] p(4) by simp
      moreover have "live ?t = insert ?b (live m)" using live_update [OF m1(1)] by (simp add: live_def)
      moreover have "?b \<notin> live m" using m1(2) by (simp add: live_def)
      ultimately have "released h m m'" using x p up m1(1,2) hb by (auto simp: released_def)
      then show ?thesis using fs None st False p(1,2) by (auto simp: no_slab_type_left_def x)
    qed
  qed
qed

section \<open>The allocator interface\<close>

text \<open>What callers rely on: an allocation either returns the null address and changes nothing or returns a block that was
  not held before; blocks that are held keep their extent and never overlap; releasing a held block never fails.\<close>

locale block_allocator =
  fixes alloc :: "'n \<Rightarrow> 'm \<Rightarrow> ('a \<times> 'm) res" and dealloc :: "'a \<Rightarrow> 'm \<Rightarrow> 'm res" and held :: "'m \<Rightarrow> 'a set"
    and extent :: "'m \<Rightarrow> 'a \<Rightarrow> nat set" and inv :: "'m \<Rightarrow> bool" and null :: 'a and wanted :: "'n \<Rightarrow> bool"
  assumes alloc: "inv m \<Longrightarrow> wanted n \<Longrightarrow> \<exists>a m'. alloc n m = Inr (a, m') \<and> inv m' \<and>
        (a = null \<and> m' = m \<or> a \<noteq> null \<and> a \<notin> held m \<and> held m' = insert a (held m) \<and> (\<forall>b\<in>held m. extent m' b = extent m b))"
    and dealloc: "inv m \<Longrightarrow> a \<in> held m \<Longrightarrow> \<exists>m'. dealloc a m = Inr m' \<and> inv m' \<and> (\<forall>b\<in>held m - {a}. b \<in> held m' \<and> extent m' b = extent m b)"
    and disjoint: "inv m \<Longrightarrow> a \<in> held m \<Longrightarrow> b \<in> held m \<Longrightarrow> a \<noteq> b \<Longrightarrow> extent m a \<inter> extent m b = {}"
begin

fun allocs :: "'n list \<Rightarrow> 'm \<Rightarrow> ('a list \<times> 'm) res" where
  "allocs [] m = Inr ([], m)"
| "allocs (n # ns) m = thenR (alloc n m) (\<lambda>(a, m). thenR (allocs ns m) (\<lambda>(as, m). Inr (a # as, m)))"

fun deallocs :: "'a list \<Rightarrow> 'm \<Rightarrow> 'm res" where
  "deallocs [] m = Inr m"
| "deallocs (a # as) m = thenR (dealloc a m) (deallocs as)"

lemma allocs_ok:
  "inv m \<Longrightarrow> \<forall>n\<in>set ns. wanted n \<Longrightarrow> \<exists>as m'. allocs ns m = Inr (as, m') \<and> inv m' \<and> length as = length ns \<and>
     distinct (filter (\<lambda>a. a \<noteq> null) as) \<and> (\<forall>a\<in>set as. a \<noteq> null \<longrightarrow> a \<in> held m' \<and> a \<notin> held m) \<and>
     held m \<subseteq> held m' \<and> (\<forall>b\<in>held m. extent m' b = extent m b)"
proof (induction ns arbitrary: m)
  case (Cons n ns)
  from alloc [of m n] Cons.prems obtain a m1 where a: "alloc n m = Inr (a, m1)" "inv m1"
    and c: "a = null \<and> m1 = m \<or> a \<noteq> null \<and> a \<notin> held m \<and> held m1 = insert a (held m) \<and> (\<forall>b\<in>held m. extent m1 b = extent m b)" by auto
  from Cons.IH [OF a(2)] Cons.prems obtain as m' where as: "allocs ns m1 = Inr (as, m')" "inv m'" "length as = length ns"
    "distinct (filter (\<lambda>a. a \<noteq> null) as)" "\<forall>a\<in>set as. a \<noteq> null \<longrightarrow> a \<in> held m' \<and> a \<notin> held m1" "held m1 \<subseteq> held m'"
    "\<forall>b\<in>held m1. extent m' b = extent m1 b" by auto
  show ?case
    by (intro exI [of _ "a # as"] exI [of _ m'] conjI) (use a c as in auto)
qed simp

lemma deallocs_ok:
  "inv m \<Longrightarrow> set as \<subseteq> held m \<Longrightarrow> distinct as \<Longrightarrow>
     \<exists>m'. deallocs as m = Inr m' \<and> inv m' \<and> (\<forall>b\<in>held m - set as. b \<in> held m' \<and> extent m' b = extent m b)"
proof (induction as arbitrary: m)
  case (Cons a as)
  from dealloc [of m a] Cons.prems obtain m1 where a: "dealloc a m = Inr m1" "inv m1"
    "\<forall>b\<in>held m - {a}. b \<in> held m1 \<and> extent m1 b = extent m b" by auto
  have "set as \<subseteq> held m1" using Cons.prems a(3) by auto
  from Cons.IH [OF a(2) this] Cons.prems obtain m' where "deallocs as m1 = Inr m'" "inv m'"
    "\<forall>b\<in>held m1 - set as. b \<in> held m' \<and> extent m' b = extent m1 b" by auto
  then show ?case using a by auto
qed simp

text \<open>A client that allocates any number of blocks and gives back the ones it got never runs into a fault, and other
  holders are not disturbed.\<close>

lemma allocs_disjoint:
  assumes "inv m" "\<forall>n\<in>set ns. wanted n"
  shows "\<exists>as m' m''. allocs ns m = Inr (as, m') \<and> inv m' \<and> length as = length ns \<and>
     (\<forall>i j. i < j \<longrightarrow> j < length as \<longrightarrow> as ! i \<noteq> null \<longrightarrow> as ! j \<noteq> null \<longrightarrow> extent m' (as ! i) \<inter> extent m' (as ! j) = {}) \<and>
     deallocs (filter (\<lambda>a. a \<noteq> null) as) m' = Inr m'' \<and> inv m'' \<and> (\<forall>b\<in>held m. b \<in> held m'' \<and> extent m'' b = extent m b)"
proof -
  from allocs_ok [OF assms] obtain as m' where as: "allocs ns m = Inr (as, m')" "inv m'" "length as = length ns"
    and d: "distinct (filter (\<lambda>a. a \<noteq> null) as)" and h: "\<forall>a\<in>set as. a \<noteq> null \<longrightarrow> a \<in> held m' \<and> a \<notin> held m"
    and old: "held m \<subseteq> held m'" "\<forall>b\<in>held m. extent m' b = extent m b" by blast
  have ne: "as ! i \<noteq> as ! j" if "i < j" "j < length as" "as ! j \<noteq> null" for i j
  proof
    assume e: "as ! i = as ! j"
    have s: "as = take j as @ as ! j # drop (Suc j) as" using that id_take_nth_drop by blast
    have "filter (\<lambda>a. a \<noteq> null) as = filter (\<lambda>a. a \<noteq> null) (take j as) @ as ! j # filter (\<lambda>a. a \<noteq> null) (drop (Suc j) as)"
      using arg_cong [OF s, of "filter (\<lambda>a. a \<noteq> null)"] that(3) by simp
    moreover have "as ! i \<in> set (filter (\<lambda>a. a \<noteq> null) (take j as))" using that e by (auto simp: in_set_conv_nth)
    ultimately show False using d e by auto
  qed
  have "set (filter (\<lambda>a. a \<noteq> null) as) \<subseteq> held m'" using h by auto
  from deallocs_ok [OF as(2) this d] obtain m'' where m'': "deallocs (filter (\<lambda>a. a \<noteq> null) as) m' = Inr m''" "inv m''"
    "\<forall>b\<in>held m' - set (filter (\<lambda>a. a \<noteq> null) as). b \<in> held m'' \<and> extent m'' b = extent m' b" by blast
  have "b \<in> held m'' \<and> extent m'' b = extent m b" if b: "b \<in> held m" for b
  proof -
    have "b \<in> held m' - set (filter (\<lambda>a. a \<noteq> null) as)" using old h b by auto
    then show ?thesis using m''(3) old(2) b by simp
  qed
  moreover have "extent m' (as ! i) \<inter> extent m' (as ! j) = {}" if "i < j" "j < length as" "as ! i \<noteq> null" "as ! j \<noteq> null" for i j
    using disjoint [OF as(2)] h that ne [of i j] by (meson less_trans nth_mem)
  ultimately show ?thesis using as m'' by blast
qed

end

text \<open>The blocks callers hold, by the address \<^verbatim>\<open>malloc\<close> returned.\<close>

definition held_blocks :: "memory \<Rightarrow> u64 set" where
  "held_blocks m = (\<lambda>h. h + 16) ` live m"

definition block_extent :: "memory \<Rightarrow> u64 \<Rightarrow> nat set" where
  "block_extent m p = (case headers m (p - 16) of None \<Rightarrow> {} | Some x \<Rightarrow> span (p - 16) x)"

definition small_request :: "u64 \<Rightarrow> bool" where
  "small_request sz \<longleftrightarrow> 0 < unat sz \<and> unat sz \<le> 2 ^ 32 - 16"

lemma held_iff: "p \<in> held_blocks m \<longleftrightarrow> p - 16 \<in> live m"
  by (force simp: held_blocks_def)

lemma held_nonzero: "slab_inv m \<Longrightarrow> p \<in> held_blocks m \<Longrightarrow> p \<noteq> 0"
proof -
  assume inv: "slab_inv m" and "p \<in> held_blocks m"
  then obtain h x where h: "p = h + 16" "headers m h = Some x" by (auto simp: held_blocks_def live_def)
  then show "p \<noteq> 0" using heap_invD(5) [of m h x] inv unat_bounds(3) [of "slab_base m"] block_addr(1) [of h] by (auto simp: slab_inv_def)
qed

lemma small_request_nonzero: "small_request sz \<Longrightarrow> sz \<noteq> 0"
  by (auto simp: small_request_def)

lemma malloc_ok:
  assumes "slab_inv m" "small_request sz"
  shows "\<exists>p m'. malloc sz m = Inr (p, m') \<and> slab_inv m' \<and> (p = 0 \<longrightarrow> m' = m) \<and> (p \<noteq> 0 \<longrightarrow> allocated (get_slab_alloc_size sz) m p m')"
  using malloc_inner_ok [OF assms(1), of "get_slab_alloc_size sz"] alloc_size [of sz] assms(2) small_request_nonzero [OF assms(2)]
  by (auto simp: malloc_def small_request_def)

interpretation ma: block_allocator malloc free held_blocks block_extent slab_inv 0 small_request
proof
  fix m sz assume "slab_inv m" "small_request sz"
  then obtain p m' where p: "malloc sz m = Inr (p, m')" "slab_inv m'" "p = 0 \<longrightarrow> m' = m" "p \<noteq> 0 \<longrightarrow> allocated (get_slab_alloc_size sz) m p m'"
    using malloc_ok by blast
  then show "\<exists>a m'. malloc sz m = Inr (a, m') \<and> slab_inv m' \<and> (a = 0 \<and> m' = m \<or> a \<noteq> 0 \<and> a \<notin> held_blocks m \<and>
      held_blocks m' = insert a (held_blocks m) \<and> (\<forall>b\<in>held_blocks m. block_extent m' b = block_extent m b))"
    by (cases "p = 0") (auto simp: allocated_def held_iff held_blocks_def block_extent_def)
next
  fix m p assume inv: "slab_inv m" and h: "p \<in> held_blocks m"
  then obtain m' where m': "free_slab p m = Inr m'" "slab_inv m'" "m' = m \<or> released (p - 16) m m'"
    using free_slab_ok [OF inv, of "p - 16"] by (auto simp: held_iff split: if_splits)
  have "free p m = Inr m'" using m'(1) held_nonzero [OF inv h] by (simp add: free_def)
  moreover have "b \<in> held_blocks m' \<and> block_extent m' b = block_extent m b" if "b \<in> held_blocks m - {p}" for b
    using m'(3) that by (auto simp: held_iff released_def block_extent_def)
  ultimately show "\<exists>m'. free p m = Inr m' \<and> slab_inv m' \<and> (\<forall>b\<in>held_blocks m - {p}. b \<in> held_blocks m' \<and> block_extent m' b = block_extent m b)"
    using m'(2) by blast
next
  fix m p q assume "slab_inv m" "p \<in> held_blocks m" "q \<in> held_blocks m" "p \<noteq> q"
  then show "block_extent m p \<inter> block_extent m q = {}"
    using live_distinct_spans [of m "p - 16" "q - 16"] by (auto simp: held_iff block_extent_def live_def)
qed

section \<open>Properties\<close>


text \<open>A heap of one page, as \<^verbatim>\<open>memory_init\<close> and \<^verbatim>\<open>slab_init\<close> leave it.\<close>

definition demo_memory :: memory where
  "demo_memory = \<lparr>slab_base = 0x10000, page_base = 0x11000, headers = (\<lambda>_. None), slab_hash_table = replicate HASH_TABLE_SIZE [],
     free_page_head = [], used_page_head = []\<rparr>"

lemma demo_memory_inv: "slab_inv demo_memory"
  by (simp add: slab_inv_def heap_inv_def chains_inv_def demo_memory_def)


text \<open>
  C28: \<^verbatim>\<open>free\<close> and \<^verbatim>\<open>malloc\<close> round trip. Freeing a held block never faults; unless a new size class is needed and the
  heap is exhausted, the next \<^verbatim>\<open>malloc\<close> of the size of the block returns the same block, every other block keeps its
  place, and freeing it a second time is caught by the magic number check.
\<close>

theorem free_malloc_roundtrip:
  assumes inv: "slab_inv m" and p: "p \<in> held_blocks m" and room: "\<not> no_slab_type_left (p - 16) m" and x: "headers m (p - 16) = Some x"
  shows "\<exists>m' m''. free p m = Inr m' \<and> free p m' = Inl Assert_Failed \<and> malloc (sh_size x) m' = Inr (p, m'') \<and> slab_inv m'' \<and>
     (\<forall>q\<in>held_blocks m. q \<in> held_blocks m'' \<and> block_extent m'' q = block_extent m q)"
proof -
  let ?h = "p - 16"
  have h: "?h \<in> live m" and p0: "p \<noteq> 0" using p held_nonzero [OF inv p] by (simp_all add: held_iff)
  from free_slab_ok [OF inv h] room obtain m' where m': "free_slab p m = Inr m'" "slab_inv m'" "released ?h m m'" by auto
  then obtain x' where r: "?h \<notin> live m'" "live m - {?h} \<subseteq> live m'" "cached (sh_size x) m' = ?h # cached (sh_size x) m"
    "headers m' ?h = Some x'" "sh_link x' \<noteq> SLAB_MAGIC" "\<forall>k\<in>live m - {?h}. headers m' k = headers m k" "slab_base m \<le> slab_base m'"
    using x by (auto simp: released_def)
  have hi: "heap_inv m" "heap_inv m'" using inv m'(2) by (simp_all add: slab_inv_def)
  note sz = heap_invD [OF hi(1) x]
  have "unat (?h + 16) = unat ?h + 16" using sz(5) unat_bounds(3) [of "slab_base m"] by (intro block_addr) linarith
  then have "p < slab_base m'" using sz(5,6) r(7) by (simp add: word_less_nat_alt word_le_nat_alt)
  then have twice: "free p m' = Inl Assert_Failed" using p0 r by (simp add: free_def free_slab_def Let_def)
  have gs: "get_slab_alloc_size (sh_size x) = sh_size x"
  proof -
    have "unat (get_slab_alloc_size (sh_size x)) = (unat (sh_size x) + 15) div 16 * 16"
      using unat_BALIGN [of 4 "sh_size x"] sz(4) by (simp add: get_slab_alloc_size_def)
    also have "\<dots> = unat (sh_size x)" using sz(3) by (auto elim!: dvdE)
    finally show ?thesis by (simp add: word_unat_eq_iff)
  qed
  from malloc_inner_ok [OF m'(2) sz(3,4,6)] r(3) obtain m'' where m'': "malloc_inner (sh_size x) m' = Inr (p, m'')" "slab_inv m''"
    "allocated (sh_size x) m' p m''" using p0 by auto
  then obtain y where y: "live m'' = insert ?h (live m')" "headers m'' ?h = Some y" "sh_size y = sh_size x" "\<forall>k\<in>live m'. headers m'' k = headers m' k"
    by (auto simp: allocated_def)
  have "malloc (sh_size x) m' = Inr (p, m'')" using m''(1) gs sz(6) by (auto simp: malloc_def)
  moreover have "q \<in> held_blocks m'' \<and> block_extent m'' q = block_extent m q" if "q \<in> held_blocks m" for q
  proof (cases "q = p")
    case True
    then show ?thesis using y x by (simp add: held_iff block_extent_def span_def)
  next
    case False
    then have "q - 16 \<in> live m - {?h}" using that by (simp add: held_iff)
    then show ?thesis using r(2,6) y(1,4) by (auto simp: held_iff block_extent_def)
  qed
  ultimately show ?thesis using m' m'' twice p0 by (auto simp: free_def)
qed

definition demo_memory1 :: memory where
  "demo_memory1 = demo_memory\<lparr>headers := [0x10000 \<mapsto> \<lparr>sh_size = 32, sh_link = SLAB_MAGIC\<rparr>], slab_base := 0x10030\<rparr>"

theorem free_malloc_roundtrip_witness:
  "\<exists>m' m''. free 0x10010 demo_memory1 = Inr m' \<and> free 0x10010 m' = Inl Assert_Failed \<and> malloc 32 m' = Inr (0x10010, m'')"
proof -
  have i: "slab_inv demo_memory1"
    by (auto simp: slab_inv_def heap_inv_def chains_inv_def header_ok_def demo_memory1_def demo_memory_def split: if_splits)
  have h: "0x10010 \<in> held_blocks demo_memory1" by (simp add: held_iff live_def demo_memory1_def)
  have r: "\<not> no_slab_type_left (0x10010 - 16) demo_memory1"
    by (simp add: no_slab_type_left_def demo_memory1_def demo_memory_def hash_id_def malloc_from_slab_heap_def Let_def)
  have x: "headers demo_memory1 (0x10010 - 16) = Some \<lparr>sh_size = 32, sh_link = SLAB_MAGIC\<rparr>" by (simp add: demo_memory1_def)
  from free_malloc_roundtrip [OF i h r x] show ?thesis by auto
qed

text \<open>With tagged kernel addresses no page number of 32 bits equals the shifted address, so \<^verbatim>\<open>free_pages\<close> never finds
  the page.\<close>

lemma take_page_None: "(\<And>p. p \<in> set ps \<Longrightarrow> \<not> f p) \<Longrightarrow> take_page f ps = None"
  by (induction ps) auto

lemma free_pages_tagged:
  assumes "2 ^ 44 \<le> unat addr"
  shows "free_pages addr m = Inr m"
proof -
  have "ucast (pfn p) \<noteq> drop_bit PAGE_SHIFT addr" for p
  proof
    assume "ucast (pfn p) = drop_bit PAGE_SHIFT addr"
    then have "unat (pfn p) = unat addr div 2 ^ 12" by (metis unat_drop_bit_div unat_ucast_u32_u64)
    then show False using unat_bounds(2) [of "pfn p"] assms by (simp add: div_less_iff_less_mult)
  qed
  then have "take_page (\<lambda>p. ucast (pfn p) = drop_bit PAGE_SHIFT addr) (used_page_head m) = None" by (intro take_page_None)
  moreover have "addr \<noteq> 0" using assms by auto
  ultimately show ?thesis by (simp add: free_pages_def find_used_page_def)
qed

text \<open>
  C29: when the first page of the free list fits, \<^verbatim>\<open>__alloc_pages\<close> returns it and drops the rest of the list: the
  other free pages are on neither list afterwards and can never be handed out again.
\<close>

theorem alloc_pages_drops_free_list:
  assumes "free_page_head m = p # ps" and "uint (page_cnt p) = pages" and "uint (page_align p) = align" and "align \<in> {1, 2, 4, 8}"
    and "distinct (p # ps)" and "set (p # ps) \<inter> set (used_page_head m) = {}"
  shows "\<exists>m'. alloc_pages pages align m = Inr (Some p, m') \<and>
     (\<forall>q\<in>set ps. q \<notin> set (free_page_head m') \<and> q \<notin> set (used_page_head m')) \<and> page_base m' = page_base m"
  using assms by (auto simp: alloc_pages_def add_used_page_def Let_def)

definition demo_pages :: memory where
  "demo_pages = demo_memory\<lparr>free_page_head := [\<lparr>page_at = 0x10010, pfn = 0x20, page_flags = 0, page_align = 1, page_cnt = 1\<rparr>,
     \<lparr>page_at = 0x10030, pfn = 0x21, page_flags = 0, page_align = 1, page_cnt = 1\<rparr>]\<rparr>"

theorem alloc_pages_drops_free_list_witness:
  "\<exists>m'. alloc_pages 1 1 demo_pages = Inr (Some (hd (free_page_head demo_pages)), m') \<and> hd (tl (free_page_head demo_pages)) \<notin> set (free_page_head m')"
  using alloc_pages_drops_free_list [of demo_pages "hd (free_page_head demo_pages)" "tl (free_page_head demo_pages)" 1 1]
  by (auto simp: demo_pages_def demo_memory_def)

text \<open>
  C30: \<^verbatim>\<open>alloc_new_pages\<close> checks the page against the slab heap before it allocates the page descriptor from that
  heap. With exactly one page left the page that is handed out contains its own descriptor, and the heap ends above
  \<^verbatim>\<open>page_base\<close>.
\<close>

theorem last_page_holds_its_descriptor:
  assumes inv: "slab_inv m" and empty: "free_page_head m = []" "cached 16 m = []"
    and one: "page_base m = slab_base m + 4096" "unat (slab_base m) + 4096 < 2 ^ 44" "4096 dvd unat (slab_base m)"
  shows "\<exists>p m'. alloc_pages 1 1 m = Inr (Some p, m') \<and> unat (push_bit 12 (ucast (pfn p)) :: u64) = unat (slab_base m) \<and>
     page_at p = slab_base m + 16 \<and> page_base m' < slab_base m'"
proof -
  let ?b = "slab_base m"
  have p: "unat (page_base m) = unat ?b + 4096" using one by (simp add: unat_plus_u64)
  have lt: "?b < page_base m" "\<not> page_base m - ?b < 32" using p by (simp_all add: word_less_nat_alt unat_minus_u64 word_le_nat_alt one(1))
  have "malloc_from_hash_table 16 m = Inr (0, m)"
    using empty(2) by (auto simp: cached_def malloc_from_hash_table_def Let_def split: option.splits list.splits)
  moreover define m1 where "m1 = m\<lparr>headers := (headers m)(?b \<mapsto> \<lparr>sh_size = 16, sh_link = SLAB_MAGIC\<rparr>), slab_base := ?b + 32\<rparr>"
  moreover have "malloc_from_slab_heap 16 m = (?b + 16, m1)" using lt by (auto simp: malloc_from_slab_heap_def Let_def m1_def)
  ultimately have ma: "malloc_inner sizeof_page m = Inr (?b + 16, m1)" by (simp add: malloc_inner_def)
  have nz: "?b + 16 \<noteq> 0" using block_addr(1) [of ?b] one(2) by simp
  have al: "ALIGN ?b 4096 = ?b"
    using unat_ALIGN [of 12 ?b] one(3) by (simp add: word_unat_eq_iff)
  have "alloc_new_pages 1 4096 m = Inr (Some \<lparr>page_at = ?b + 16, pfn = ucast (drop_bit 12 ?b), page_flags = 0, page_align = 1, page_cnt = 1\<rparr>, m1\<lparr>page_base := ?b\<rparr>)"
    using one(1) al ma nz by (simp add: alloc_new_pages_def Let_def)
  then have a: "alloc_pages 1 1 m = Inr (Some \<lparr>page_at = ?b + 16, pfn = ucast (drop_bit 12 ?b), page_flags = 0, page_align = 1, page_cnt = 1\<rparr>,
      m1\<lparr>page_base := ?b, used_page_head := \<lparr>page_at = ?b + 16, pfn = ucast (drop_bit 12 ?b), page_flags = 0, page_align = 1, page_cnt = 1\<rparr> # used_page_head m\<rparr>)"
    using empty(1) by (simp add: alloc_pages_def add_used_page_def Let_def m1_def)
  have d: "unat (drop_bit 12 ?b) = unat ?b div 4096" by (simp add: unat_drop_bit_div)
  then have "unat (ucast (drop_bit 12 ?b) :: u32) = unat ?b div 4096" using one(2) by (simp add: unsigned_ucast_eq take_bit_nat_eq_self)
  then have "unat (ucast (ucast (drop_bit 12 ?b) :: u32) :: u64) = unat ?b div 4096" by simp
  then have "unat (push_bit 12 (ucast (ucast (drop_bit 12 ?b) :: u32)) :: u64) = unat ?b"
    using one(2,3) by (subst unat_push_bit_mult) auto
  moreover have "?b < ?b + 32" using one(2) by (simp add: word_less_nat_alt unat_plus_u64)
  ultimately show ?thesis using a by (simp add: m1_def)
qed

theorem last_page_holds_its_descriptor_witness:
  "\<exists>p m'. alloc_pages 1 1 demo_memory = Inr (Some p, m') \<and> unat (push_bit 12 (ucast (pfn p)) :: u64) = 0x10000 \<and> page_at p = 0x10010"
  using last_page_holds_its_descriptor [OF demo_memory_inv] by (auto simp: demo_memory_def cached_def hash_id_def)

end
