(* ===== verification/Mem_Pages.thy ===== *)
theory Mem_Pages
  imports Mem
begin

text \<open>
  The page allocator of \<^verbatim>\<open>core/memory.c\<close> as a source of single pages, the interface the page-table code uses: a page
  that is handed out was not in use, and a page that is given back no longer is. The pages on the two lists are
  disjoint and lie above \<^verbatim>\<open>page_base\<close>.
\<close>

section \<open>The interface\<close>

locale page_source =
  fixes get :: "'m \<Rightarrow> (u64 \<times> 'm) res" and put :: "u64 \<Rightarrow> 'm \<Rightarrow> 'm res" and given :: "'m \<Rightarrow> u64 set" and inv :: "'m \<Rightarrow> bool"
  assumes get: "inv m \<Longrightarrow> get m = Inr (a, m') \<Longrightarrow>
        inv m' \<and> a \<noteq> 0 \<and> a \<notin> given m \<and> given m' = insert a (given m) \<and> 4096 dvd unat a \<and> unat a < 2 ^ 44"
    and put: "inv m \<Longrightarrow> a \<in> given m \<Longrightarrow> \<exists>m'. put a m = Inr m' \<and> inv m' \<and> given m' = given m - {a}"
begin

fun gets :: "nat \<Rightarrow> 'm \<Rightarrow> (u64 list \<times> 'm) res" where
  "gets 0 m = Inr ([], m)"
| "gets (Suc n) m = thenR (get m) (\<lambda>(a, m). thenR (gets n m) (\<lambda>(as, m). Inr (a # as, m)))"

lemma gets_distinct: "inv m \<Longrightarrow> gets n m = Inr (as, m') \<Longrightarrow> inv m' \<and> distinct as \<and> set as \<inter> given m = {} \<and> given m' = given m \<union> set as"
proof (induction n arbitrary: m as)
  case (Suc n)
  then obtain a m1 bs where a: "get m = Inr (a, m1)" "gets n m1 = Inr (bs, m')" "as = a # bs" by (auto split: prod.splits)
  from get [OF Suc.prems(1) a(1)] Suc.IH [OF _ a(2)] show ?case by (auto simp: a(3))
qed simp

end

section \<open>Disjoint pages\<close>

definition page_range :: "page \<Rightarrow> nat set" where
  "page_range p = {unat (pfn p)..<unat (pfn p) + unat (page_cnt p)}"

definition page_addr :: "page \<Rightarrow> u64" where
  "page_addr p = push_bit 12 (ucast (pfn p))"

definition pages_at :: "nat \<Rightarrow> page list \<Rightarrow> page list" where
  "pages_at n ps = filter (\<lambda>p. n \<in> page_range p) ps"

definition page_inv :: "memory \<Rightarrow> bool" where
  "page_inv m \<longleftrightarrow> 4096 dvd unat (page_base m) \<and> 4096 \<le> unat (page_base m) \<and> unat (page_base m) \<le> 2 ^ 44 \<and> 4096 \<le> unat (slab_base m) \<and>
     (\<forall>p\<in>set (free_page_head m @ used_page_head m). 0 < unat (page_cnt p) \<and> unat (page_base m) \<le> unat (pfn p) * 4096) \<and>
     (\<forall>n. length (pages_at n (free_page_head m)) + length (pages_at n (used_page_head m)) \<le> 1)"

definition given_pages :: "memory \<Rightarrow> u64 set" where
  "given_pages m = page_addr ` set (used_page_head m)"

definition get_page :: "memory \<Rightarrow> (u64 \<times> memory) res" where
  "get_page m = get_free_pages 0 1 1 m"

lemma pages_at_simps [simp]:
  "pages_at n [] = []" "pages_at n (p # ps) = (if n \<in> page_range p then [p] else []) @ pages_at n ps"
  "pages_at n (ps @ qs) = pages_at n ps @ pages_at n qs"
  by (simp_all add: pages_at_def)

lemma page_addr_unat: "unat (page_addr p) = unat (pfn p) * 4096"
proof -
  have "unat (ucast (pfn p) :: u64) * 2 ^ 12 < 2 ^ LENGTH(64)" using unat_bounds(2) [of "pfn p"] by simp
  then show ?thesis unfolding page_addr_def by (subst unat_push_bit_mult) simp_all
qed

lemma page_addr_inj: "page_addr p = page_addr q \<longleftrightarrow> pfn p = pfn q"
proof
  assume "page_addr p = page_addr q"
  then have "unat (pfn p) * 4096 = unat (pfn q) * 4096" by (simp flip: page_addr_unat)
  then show "pfn p = pfn q" by (simp add: word_unat_eq_iff)
qed (simp add: page_addr_def)

lemma take_page_total: "p \<in> set ps \<Longrightarrow> f p \<Longrightarrow> take_page f ps \<noteq> None"
  by (induction ps) auto

lemma take_page_Some:
  "take_page f ps = Some (p, qs) \<Longrightarrow> \<exists>xs ys. ps = xs @ p # ys \<and> qs = xs @ ys \<and> f p \<and> (\<forall>x\<in>set xs. \<not> f x)"
proof (induction ps arbitrary: qs)
  case (Cons x ps)
  show ?case
  proof (cases "f x")
    case True
    then show ?thesis using Cons.prems by (intro exI [of _ "[]"] exI [of _ ps]) auto
  next
    case False
    with Cons.prems obtain rs where "take_page f ps = Some (p, rs)" "qs = x # rs" by auto
    with Cons.IH [of rs] obtain xs ys where "ps = xs @ p # ys" "qs = x # xs @ ys" "f p" "\<forall>x\<in>set xs. \<not> f x" by auto
    then show ?thesis using False by (intro exI [of _ "x # xs"] exI [of _ ys]) auto
  qed
qed simp

text \<open>Two pages on the lists never have the same frame number.\<close>

lemma pfn_in_range: "0 < unat (page_cnt p) \<Longrightarrow> unat (pfn p) \<in> page_range p"
  by (simp add: page_range_def)

lemma on_both_lists:
  assumes "page_inv m" "p \<in> set (free_page_head m)" "q \<in> set (used_page_head m)"
  shows "pfn p \<noteq> pfn q"
proof
  assume e: "pfn p = pfn q"
  let ?n = "unat (pfn p)"
  have "0 < unat (page_cnt p)" "0 < unat (page_cnt q)" using assms by (auto simp: page_inv_def)
  then have "?n \<in> page_range p" "?n \<in> page_range q" using pfn_in_range [of p] pfn_in_range [of q] e by simp_all
  then have "p \<in> set (pages_at ?n (free_page_head m))" "q \<in> set (pages_at ?n (used_page_head m))" using assms(2,3) by (simp_all add: pages_at_def)
  then have "0 < length (pages_at ?n (free_page_head m))" "0 < length (pages_at ?n (used_page_head m))" by (meson length_pos_if_in_set)+
  moreover have "length (pages_at ?n (free_page_head m)) + length (pages_at ?n (used_page_head m)) \<le> 1" using assms(1) by (simp add: page_inv_def)
  ultimately show False by linarith
qed

lemma malloc_inner_frame:
  assumes "malloc_inner sz m = Inr (a, m')" "unat sz < 2 ^ 32"
  shows "page_base m' = page_base m" "free_page_head m' = free_page_head m" "used_page_head m' = used_page_head m"
    "slab_base m \<le> slab_base m'"
proof -
  have "page_base m' = page_base m \<and> free_page_head m' = free_page_head m \<and> used_page_head m' = used_page_head m \<and> slab_base m \<le> slab_base m'"
  proof -
    obtain p m1 where h: "malloc_from_hash_table sz m = Inr (p, m1)" "(if p \<noteq> 0 then (p, m1) else malloc_from_slab_heap sz m1) = (a, m')"
      using assms(1) by (auto simp: malloc_inner_def split: if_splits)
    have "page_base m1 = page_base m \<and> free_page_head m1 = free_page_head m \<and> used_page_head m1 = used_page_head m \<and> slab_base m1 = slab_base m"
      using h(1) by (auto simp: malloc_from_hash_table_def upd_header_def Let_def split: option.splits list.splits)
    moreover have "slab_base m1 \<le> slab_base m1 + (sz + 16)" if "slab_base m1 < page_base m1" "sz + 16 \<le> page_base m1 - slab_base m1"
    proof -
      have "unat (sz + 16) \<le> unat (page_base m1) - unat (slab_base m1)"
        using that unat_minus_u64 [of "slab_base m1" "page_base m1"] by (simp add: word_le_nat_alt word_less_nat_alt)
      then have "unat (slab_base m1) + unat (sz + 16) < 2 ^ 64"
        using that unat_bounds(3) [of "page_base m1"] by (simp add: word_less_nat_alt)
      then show ?thesis by (simp add: word_le_nat_alt unat_plus_u64 add.commute)
    qed
    ultimately show ?thesis using h(2) by (auto simp: malloc_from_slab_heap_def Let_def not_le not_less add.commute split: if_splits)
  qed
  then show "page_base m' = page_base m" "free_page_head m' = free_page_head m" "used_page_head m' = used_page_head m" "slab_base m \<le> slab_base m'"
    by simp_all
qed

lemma page_invD:
  assumes "page_inv m"
  shows "4096 dvd unat (page_base m)" "4096 \<le> unat (page_base m)" "unat (page_base m) \<le> 2 ^ 44" "4096 \<le> unat (slab_base m)"
    and "p \<in> set (free_page_head m) \<or> p \<in> set (used_page_head m) \<Longrightarrow> 0 < unat (page_cnt p) \<and> unat (page_base m) \<le> unat (pfn p) * 4096"
    and "length (pages_at n (free_page_head m)) + length (pages_at n (used_page_head m)) \<le> 1"
  using assms by (auto simp: page_inv_def)

lemma reuse_ok:
  assumes inv: "page_inv m" and f: "free_page_head m = xs @ p # ys" "fs = [] \<or> fs = xs @ ys"
  shows "page_inv (m\<lparr>free_page_head := fs, used_page_head := p # used_page_head m\<rparr>)"
    and "page_addr p \<notin> given_pages m" "page_addr p \<noteq> 0"
proof -
  note d = page_invD [OF inv]
  have "length (pages_at n fs) + length (pages_at n (p # used_page_head m)) \<le> 1" for n
    using d(6) [of n] f by (auto split: if_splits)
  moreover have "set fs \<subseteq> set (free_page_head m)" "p \<in> set (free_page_head m)" using f by auto
  ultimately show "page_inv (m\<lparr>free_page_head := fs, used_page_head := p # used_page_head m\<rparr>)"
    using d unfolding page_inv_def by auto
  show "page_addr p \<notin> given_pages m" using on_both_lists [OF inv] f by (auto simp: given_pages_def page_addr_inj)
  have "0 < unat (page_addr p)" using d(2) d(5) [of p] f by (auto simp: page_addr_unat)
  then show "page_addr p \<noteq> 0" by auto
qed

lemma new_page_ok:
  assumes inv: "page_inv m" and st: "alloc_new_pages 1 4096 m = Inr (Some p, m')"
  shows "page_inv (m'\<lparr>used_page_head := p # used_page_head m'\<rparr>)" "used_page_head m' = used_page_head m"
    and "page_addr p \<notin> given_pages m" "page_addr p \<noteq> 0"
proof -
  note d = page_invD [OF inv]
  let ?b = "page_base m - 4096"
  have u: "unat ?b = unat (page_base m) - 4096" using d(2) by (intro unat_minus_u64 [of 4096, simplified]) (simp add: word_le_nat_alt)
  then have dv: "4096 dvd unat ?b" using d(1,2) by (simp add: dvd_diff_nat)
  then have al: "ALIGN ?b 4096 = ?b" using unat_ALIGN [of 12 ?b] by (simp add: word_unat_eq_iff)
  have ge: "slab_base m \<le> ?b" using st al by (auto simp: alloc_new_pages_def Let_def not_less split: if_splits)
  obtain a m1 where ma: "malloc_inner sizeof_page m = Inr (a, m1)" "a \<noteq> 0" "m' = m1\<lparr>page_base := ?b\<rparr>"
    and p: "p = \<lparr>page_at = a, pfn = ucast (drop_bit PAGE_SHIFT ?b), page_flags = 0, page_align = 1, page_cnt = 1\<rparr>"
    using st al ge by (auto simp: alloc_new_pages_def Let_def split: if_splits)
  note fr = malloc_inner_frame [OF ma(1), simplified]
  have "unat (drop_bit 12 ?b) = unat ?b div 4096" by (simp add: unat_drop_bit_div)
  moreover have "unat ?b div 4096 < 2 ^ 32" using u d(2,3) by simp
  ultimately have pf: "unat (pfn p) = unat ?b div 4096" by (simp add: p unsigned_ucast_eq take_bit_nat_eq_self)
  have pa: "unat (pfn p) * 4096 = unat ?b" using dv pf by simp
  have below: "unat (pfn p) \<notin> page_range q" if "q \<in> set (free_page_head m) \<or> q \<in> set (used_page_head m)" for q
    using d(5) [OF that] pa u d(2) by (auto simp: page_range_def)
  have pr: "page_range p = {unat (pfn p)}" by (auto simp: page_range_def p)
  have cnt: "length (pages_at n (free_page_head m)) + length (pages_at n (p # used_page_head m)) \<le> 1" for n
  proof (cases "n = unat (pfn p)")
    case True
    then have "pages_at n (free_page_head m) = []" "pages_at n (used_page_head m) = []"
      using below by (auto simp: pages_at_def filter_empty_conv)
    then show ?thesis by (simp add: pr)
  next
    case False
    then show ?thesis using d(6) [of n] by (simp add: pr)
  qed
  have lo: "4096 \<le> unat ?b" using ge d(4) by (simp add: word_le_nat_alt)
  show "used_page_head m' = used_page_head m" using ma(3) fr by simp
  have old: "unat ?b \<le> unat (pfn q) * 4096 \<and> 0 < unat (page_cnt q)" if "q \<in> set (free_page_head m) \<or> q \<in> set (used_page_head m)" for q
    using d(5) [OF that] u by auto
  have "unat (slab_base m) \<le> unat (slab_base m1)" using fr(4) by (simp add: word_le_nat_alt)
  then show "page_inv (m'\<lparr>used_page_head := p # used_page_head m'\<rparr>)"
    unfolding page_inv_def using ma(3) fr dv lo u d(3,4) cnt old pa by (auto simp: p)
  show "page_addr p \<notin> given_pages m"
    using below pfn_in_range d(5) by (fastforce simp: given_pages_def page_addr_inj)
  show "page_addr p \<noteq> 0" using page_addr_unat [of p] pa lo by auto
qed

lemma get_page_ok:
  assumes inv: "page_inv m" and st: "get_page m = Inr (a, m')"
  shows "page_inv m' \<and> a \<noteq> 0 \<and> a \<notin> given_pages m \<and> given_pages m' = insert a (given_pages m) \<and> 4096 dvd unat a \<and> unat a < 2 ^ 44"
proof -
  from st obtain p m1 where p: "alloc_pages 1 1 m = Inr (Some p, m')" "a = page_addr p"
    by (auto simp: get_page_def get_free_pages_def ptov_def page_addr_def alloc_pages_def add_used_page_def Let_def split: option.splits)
  let ?f = "\<lambda>p. uint (page_cnt p) = 1 \<and> uint (page_align p) = 1"
  have bounds: "4096 dvd unat a" "unat a < 2 ^ 44" using page_addr_unat [of p] unat_bounds(2) [of "pfn p"] p(2) by simp_all
  show ?thesis
  proof (cases "take_page ?f (free_page_head m)")
    case None
    then obtain m1 where m1: "alloc_new_pages 1 4096 m = Inr (Some p, m1)" "m' = m1\<lparr>used_page_head := p # used_page_head m1\<rparr>"
      using p(1) by (auto simp: alloc_pages_def add_used_page_def Let_def split: option.splits)
    show ?thesis using new_page_ok [OF inv m1(1)] m1(2) p(2) bounds by (simp add: given_pages_def)
  next
    case (Some q)
    then obtain ps where tp: "take_page ?f (free_page_head m) = Some (p, ps)"
      and m': "m' = m\<lparr>free_page_head := (if ?f (hd (free_page_head m)) then [] else ps), used_page_head := p # used_page_head m\<rparr>"
      using p(1) by (cases q) (auto simp: alloc_pages_def add_used_page_def Let_def)
    from take_page_Some [OF tp] obtain xs ys where "free_page_head m = xs @ p # ys" "ps = xs @ ys" by blast
    then show ?thesis using reuse_ok [OF inv, of xs p ys "if ?f (hd (free_page_head m)) then [] else ps"] m' p(2) bounds
      by (simp add: given_pages_def)
  qed
qed

lemma free_pages_ok:
  assumes inv: "page_inv m" and a: "a \<in> given_pages m"
  shows "\<exists>m'. free_pages a m = Inr m' \<and> page_inv m' \<and> given_pages m' = given_pages m - {a}"
proof -
  note d = page_invD [OF inv]
  let ?f = "\<lambda>p. (ucast (pfn p) :: u64) = drop_bit PAGE_SHIFT a"
  obtain q where q: "q \<in> set (used_page_head m)" "a = page_addr q" using a by (auto simp: given_pages_def)
  have eq: "?f p \<longleftrightarrow> pfn p = pfn q" for p
  proof -
    have "unat (drop_bit PAGE_SHIFT a) = unat (pfn q)" using page_addr_unat [of q] q(2) by (simp add: unat_drop_bit_div)
    then show ?thesis by (simp add: word_unat_eq_iff)
  qed
  have "take_page ?f (used_page_head m) \<noteq> None" by (rule take_page_total [OF q(1)]) (simp only: eq)
  then obtain p ps where tp: "take_page ?f (used_page_head m) = Some (p, ps)" by auto
  from take_page_Some [OF tp] obtain xs ys where l: "used_page_head m = xs @ p # ys" "ps = xs @ ys" "pfn p = pfn q" using eq by auto
  let ?m = "m\<lparr>used_page_head := ps, free_page_head := p # free_page_head m\<rparr>"
  have "a \<noteq> 0" using page_addr_unat [of q] d(2) d(5) [of q] q by (auto simp: word_unat_eq_iff)
  then have "free_pages a m = Inr ?m" using tp by (simp add: free_pages_def find_used_page_def free_page_def)
  moreover have "page_inv ?m"
  proof -
    have "length (pages_at n (p # free_page_head m)) + length (pages_at n ps) \<le> 1" for n using d(6) [of n] l by simp
    moreover have "0 < unat (page_cnt r) \<and> unat (page_base m) \<le> unat (pfn r) * 4096" if "r \<in> set ((p # free_page_head m) @ ps)" for r
      using d(5) [of r] that l by auto
    ultimately show ?thesis using d(1-4) unfolding page_inv_def by simp
  qed
  moreover have "page_addr p \<notin> page_addr ` set ps"
  proof
    assume "page_addr p \<in> page_addr ` set ps"
    then obtain r where r: "r \<in> set ps" "pfn r = pfn p" by (auto simp: page_addr_inj)
    then have "r \<in> set (pages_at (unat (pfn p)) (xs @ ys))" using d(5) [of r] l pfn_in_range [of r] by (auto simp: pages_at_def)
    then have "0 < length (pages_at (unat (pfn p)) (xs @ ys))" by (rule length_pos_if_in_set)
    moreover have "unat (pfn p) \<in> page_range p" using d(5) [of p] l pfn_in_range [of p] by simp
    ultimately show False using d(6) [of "unat (pfn p)"] l by simp
  qed
  then have "given_pages ?m = given_pages m - {a}" using l q(2) page_addr_inj [of p q] by (auto simp: given_pages_def)
  ultimately show ?thesis by blast
qed

interpretation pg: page_source get_page free_pages given_pages page_inv
  by unfold_locales (rule get_page_ok free_pages_ok; assumption)+

end
