(* ===== verification/Stage2.thy ===== *)
theory Stage2
  imports Mem_Pages
begin

text \<open>
  Stage-2 address translation (\<^verbatim>\<open>arch/aarch64/virt/stage2.c\<close>): three levels of tables that map the intermediate
  physical addresses of a guest, built from pages of the kernel allocator. The tables are a store from the address of a
  table page and an index to a descriptor; a pointer that walks over a table is the index. An index outside of its
  table is a fault, which bounds every loop. Kernel addresses are physical addresses, as in every configuration
  without \<^verbatim>\<open>CONFIG_ARM_ADDRESS_TAGGING\<close>. Barriers and TLB maintenance have no counterpart.
\<close>

unbundle bit_operations_syntax

section \<open>Descriptors\<close>

abbreviation (input) S2_PUD_SIZE :: u64 where "S2_PUD_SIZE \<equiv> 0x40000000"
abbreviation (input) S2_PMD_SIZE :: u64 where "S2_PMD_SIZE \<equiv> 0x200000"
abbreviation (input) S2_PHYSICAL_MASK :: u64 where "S2_PHYSICAL_MASK \<equiv> 0x0000fffffffff000"
abbreviation (input) S2_PHYSICAL_MAX :: u64 where "S2_PHYSICAL_MAX \<equiv> 0x10000000000"
abbreviation (input) VMM_VIRT_MAX :: u64 where "VMM_VIRT_MAX \<equiv> 0x10000000000"
abbreviation (input) S2_DES_TABLE :: u64 where "S2_DES_TABLE \<equiv> 3"
abbreviation (input) S2_DES_BLOCK :: u64 where "S2_DES_BLOCK \<equiv> 1"
abbreviation (input) PTRS_PER_S2_PUD :: nat where "PTRS_PER_S2_PUD \<equiv> 1024"
abbreviation (input) PTRS_PER_S2_PMD :: nat where "PTRS_PER_S2_PMD \<equiv> 512"
abbreviation (input) PTRS_PER_S2_PTE :: nat where "PTRS_PER_S2_PTE \<equiv> 512"

abbreviation (input) VM_IO_T :: u64 where "VM_IO_T \<equiv> 1"
abbreviation (input) VM_NORMAL_NC_T :: u64 where "VM_NORMAL_NC_T \<equiv> 4"
abbreviation (input) VM_WT_T :: u64 where "VM_WT_T \<equiv> 8"
abbreviation (input) VM_TYPE_MASK :: u64 where "VM_TYPE_MASK \<equiv> 0xf"
abbreviation (input) VM_PFNMAP_F :: u64 where "VM_PFNMAP_F \<equiv> 0x100"
abbreviation (input) VM_HUGE_2M_F :: u64 where "VM_HUGE_2M_F \<equiv> 0x200"
abbreviation (input) VM_HUGE_1G_F :: u64 where "VM_HUGE_1G_F \<equiv> 0x400"
abbreviation (input) VM_DEVMAP_F :: u64 where "VM_DEVMAP_F \<equiv> 0x800"
abbreviation (input) VM_SHARED_F :: u64 where "VM_SHARED_F \<equiv> 0x1000"
abbreviation (input) VM_RO_F :: u64 where "VM_RO_F \<equiv> 0x100000"
abbreviation (input) VM_WO_F :: u64 where "VM_WO_F \<equiv> 0x200000"
abbreviation (input) VM_RW_F :: u64 where "VM_RW_F \<equiv> 0x300000"
abbreviation (input) VM_EXEC_F :: u64 where "VM_EXEC_F \<equiv> 0x400000"

text \<open>The attributes common to pages and blocks: access permission, execute-never, and the software bits.\<close>

definition s2_flags_attr :: "u64 \<Rightarrow> u64" where
  "s2_flags_attr flags =
     (if flags AND VM_RW_F = VM_RO_F then 0x40 else if flags AND VM_RW_F = VM_RW_F then 0xc0
      else if flags AND VM_RW_F = VM_WO_F then 0x80 else 0) OR
     (if flags AND VM_EXEC_F = 0 then 0x0040000000000000 else 0) OR
     (if flags AND VM_PFNMAP_F \<noteq> 0 then 0x0080000000000000 else 0) OR
     (if flags AND VM_DEVMAP_F \<noteq> 0 then 0x0100000000000000 else 0) OR
     (if flags AND VM_SHARED_F \<noteq> 0 then 0x0200000000000000 else 0)"

definition stage2_block_attr :: "u64 \<Rightarrow> u64" where
  "stage2_block_attr flags =
     (let ty = flags AND VM_TYPE_MASK in
      (if ty = VM_NORMAL_NC_T then 0x715 else if ty = VM_IO_T then 0x0040000000000605
       else if ty = VM_WT_T then 0x629 else 0x73d) OR s2_flags_attr flags)"

definition stage2_page_attr :: "u64 \<Rightarrow> u64" where
  "stage2_page_attr flags =
     (let ty = flags AND VM_TYPE_MASK in
      (if ty = VM_NORMAL_NC_T then 0x717 else if ty = VM_IO_T then 0x0040000000000607
       else if ty = VM_WT_T then 0x72b else 0x73f) OR s2_flags_attr flags)"

definition stage2_pud_index :: "u64 \<Rightarrow> nat" where
  "stage2_pud_index addr = unat (drop_bit 30 addr AND 0x3ff)"

definition stage2_pmd_index :: "u64 \<Rightarrow> nat" where
  "stage2_pmd_index addr = unat (drop_bit 21 addr AND 0x1ff)"

definition stage2_pte_index :: "u64 \<Rightarrow> nat" where
  "stage2_pte_index addr = unat (drop_bit 12 addr AND 0x1ff)"

definition stage2_xxx_huge :: "u64 \<Rightarrow> bool" where
  "stage2_xxx_huge d \<longleftrightarrow> d \<noteq> 0 \<and> d AND 3 = S2_DES_BLOCK"

definition stage2_table_addr :: "u64 \<Rightarrow> u64" where
  "stage2_table_addr d = d AND S2_PHYSICAL_MASK"

definition stage2_xxx_addr_end :: "u64 \<Rightarrow> u64 \<Rightarrow> u64 \<Rightarrow> u64" where
  "stage2_xxx_addr_end start fin map_size =
     (let boundary = (start + map_size) AND NOT (map_size - 1) in if boundary - 1 < fin - 1 then boundary else fin)"

section \<open>Tables\<close>

record stage2 =
  tables :: "u64 \<Rightarrow> nat \<Rightarrow> u64"
  pgdp :: u64
  pool :: memory

definition set_entry :: "u64 \<Rightarrow> nat \<Rightarrow> u64 \<Rightarrow> stage2 \<Rightarrow> stage2" where
  "set_entry t i d s = s\<lparr>tables := (tables s)(t := (tables s t)(i := d))\<rparr>"

text \<open>A fresh table: a page from the allocator, cleared, and linked from entry \<open>i\<close> of table \<open>t\<close>.\<close>

definition new_table :: "u64 \<Rightarrow> nat \<Rightarrow> stage2 \<Rightarrow> (u64 \<times> stage2) res" where
  "new_table t i s =
     thenR (get_page (pool s))
       (\<lambda>(p, m). if p = 0 then Inr (0, s\<lparr>pool := m\<rparr>)
                 else Inr (p, set_entry t i (p OR S2_DES_TABLE) (s\<lparr>pool := m, tables := (tables s)(p := (\<lambda>_. 0))\<rparr>)))"

definition arch_alloc_guest_pgd :: "stage2 \<Rightarrow> (u64 \<times> stage2) res" where
  "arch_alloc_guest_pgd s =
     thenR (get_free_pages 0 2 2 (pool s))
       (\<lambda>(p, m). Inr (p, if p = 0 then s\<lparr>pool := m\<rparr> else s\<lparr>pool := m, pgdp := p, tables := (tables s)(p := (\<lambda>_. 0))\<rparr>))"

section \<open>Unmapping\<close>

function stage2_unmap_pte_range :: "u64 \<Rightarrow> nat \<Rightarrow> u64 \<Rightarrow> u64 \<Rightarrow> stage2 \<Rightarrow> stage2 res" where
  "stage2_unmap_pte_range t i addr fin s =
     (if PTRS_PER_S2_PTE \<le> i then Inl Out_Of_Bounds
      else let s = (if tables s t i \<noteq> 0 then set_entry t i 0 s else s) in
        if addr + PAGE_SIZE \<noteq> fin then stage2_unmap_pte_range t (Suc i) (addr + PAGE_SIZE) fin s else Inr s)"
  by pat_completeness auto
termination by (relation "measure (\<lambda>(t, i, addr, fin, s). PTRS_PER_S2_PTE - i)") auto

definition is_pmd_range :: "u64 \<Rightarrow> u64 \<Rightarrow> bool" where
  "is_pmd_range start fin \<longleftrightarrow> start AND (S2_PMD_SIZE - 1) = 0 \<and> fin - start = S2_PMD_SIZE"

definition is_pud_range :: "u64 \<Rightarrow> u64 \<Rightarrow> bool" where
  "is_pud_range start fin \<longleftrightarrow> start AND (S2_PUD_SIZE - 1) = 0 \<and> fin - start = S2_PUD_SIZE"

text \<open>Clearing the entry of a table and giving the table back.\<close>

definition drop_table :: "u64 \<Rightarrow> nat \<Rightarrow> u64 \<Rightarrow> stage2 \<Rightarrow> stage2 res" where
  "drop_table t i p s = thenR (free_pages p (pool s)) (\<lambda>m. Inr (set_entry t i 0 s\<lparr>pool := m\<rparr>))"

function stage2_unmap_pmd_range :: "u64 \<Rightarrow> nat \<Rightarrow> u64 \<Rightarrow> u64 \<Rightarrow> stage2 \<Rightarrow> stage2 res" where
  "stage2_unmap_pmd_range t i addr fin s =
     (if PTRS_PER_S2_PMD \<le> i then Inl Out_Of_Bounds
      else let nxt = stage2_xxx_addr_end addr fin S2_PMD_SIZE; d = tables s t i in
        thenR (if d = 0 then Inr s
               else if stage2_xxx_huge d then Inr (set_entry t i 0 s)
               else let p = stage2_table_addr d in
                 thenR (stage2_unmap_pte_range p (stage2_pte_index addr) addr nxt s)
                   (\<lambda>s. if is_pmd_range addr nxt then drop_table t i p s else Inr s))
          (\<lambda>s. if nxt \<noteq> fin then stage2_unmap_pmd_range t (Suc i) nxt fin s else Inr s))"
  by pat_completeness auto
termination by (relation "measure (\<lambda>(t, i, addr, fin, s). PTRS_PER_S2_PMD - i)") auto

function unmap_puds :: "nat \<Rightarrow> u64 \<Rightarrow> u64 \<Rightarrow> stage2 \<Rightarrow> stage2 res" where
  "unmap_puds i addr fin s =
     (if PTRS_PER_S2_PUD \<le> i then Inl Out_Of_Bounds
      else let nxt = stage2_xxx_addr_end addr fin S2_PUD_SIZE; d = tables s (pgdp s) i in
        thenR (if d = 0 then Inr s
               else let p = stage2_table_addr d in
                 thenR (stage2_unmap_pmd_range p (stage2_pmd_index addr) addr nxt s)
                   (\<lambda>s. if is_pud_range addr nxt then drop_table (pgdp s) i p s else Inr s))
          (\<lambda>s. if nxt \<noteq> fin then unmap_puds (Suc i) nxt fin s else Inr s))"
  by pat_completeness auto
termination by (relation "measure (\<lambda>(i, addr, fin, s). PTRS_PER_S2_PUD - i)") auto

text \<open>The first entry is the one of \<open>end\<close>, not of \<open>addr\<close>.\<close>

definition stage2_unmap_pud_range :: "u64 \<Rightarrow> u64 \<Rightarrow> stage2 \<Rightarrow> (int \<times> stage2) res" where
  "stage2_unmap_pud_range addr fin s = thenR (unmap_puds (stage2_pud_index fin) addr fin s) (\<lambda>s. Inr (0, s))"

section \<open>Mapping\<close>

function stage2_map_pte_range :: "u64 \<Rightarrow> nat \<Rightarrow> u64 \<Rightarrow> u64 \<Rightarrow> u64 \<Rightarrow> u64 \<Rightarrow> stage2 \<Rightarrow> stage2 res" where
  "stage2_map_pte_range t i start fin physical pte_attr s =
     (if PTRS_PER_S2_PTE \<le> i then Inl Out_Of_Bounds
      else let s = set_entry t i (pte_attr OR physical) s in
        if start + PAGE_SIZE \<noteq> fin
        then stage2_map_pte_range t (Suc i) (start + PAGE_SIZE) fin (physical + PAGE_SIZE) pte_attr s else Inr s)"
  by pat_completeness auto
termination by (relation "measure (\<lambda>(t, i, start, fin, physical, a, s). PTRS_PER_S2_PTE - i)") auto

definition stage2_pmd_huge_page :: "u64 \<Rightarrow> u64 \<Rightarrow> u64 \<Rightarrow> u64 \<Rightarrow> u64 \<Rightarrow> bool" where
  "stage2_pmd_huge_page old_pmd start phy sz flags \<longleftrightarrow>
     \<not> (flags AND (VM_HUGE_2M_F OR VM_HUGE_1G_F) = 0 \<or> old_pmd \<noteq> 0) \<and>
     \<not> (\<not> IS_BLOCK_ALIGN start \<or> \<not> IS_BLOCK_ALIGN phy \<or> \<not> IS_BLOCK_ALIGN sz)"

function stage2_map_pmd_range :: "u64 \<Rightarrow> nat \<Rightarrow> u64 \<Rightarrow> u64 \<Rightarrow> u64 \<Rightarrow> u64 \<Rightarrow> stage2 \<Rightarrow> (int \<times> stage2) res" where
  "stage2_map_pmd_range t i start fin physical flags s =
     (if PTRS_PER_S2_PMD \<le> i then Inl Out_Of_Bounds
      else let nxt = stage2_xxx_addr_end start fin S2_PMD_SIZE; sz = nxt - start; old_pmd = tables s t i in
        thenR (if stage2_pmd_huge_page old_pmd start physical sz flags
               then Inr (0, set_entry t i (stage2_block_attr flags OR (physical AND NOT (S2_PMD_SIZE - 1))) s)
               else if old_pmd \<noteq> 0 \<and> stage2_xxx_huge old_pmd then Inr (- EINVAL, s)
               else thenR (if old_pmd = 0 then new_table t i s else Inr (stage2_table_addr old_pmd, s))
                 (\<lambda>(ptep, s). if ptep = 0 then Inr (- ENOMEM, s)
                    else thenR (stage2_map_pte_range ptep (stage2_pte_index start) start nxt physical (stage2_page_attr flags) s) (\<lambda>s. Inr (0, s))))
          (\<lambda>(ret, s). if ret \<noteq> 0 then Inr (ret, s)
             else if nxt \<noteq> fin then stage2_map_pmd_range t (Suc i) nxt fin (physical + sz) flags s else Inr (0, s)))"
  by pat_completeness auto
termination by (relation "measure (\<lambda>(t, i, start, fin, physical, flags, s). PTRS_PER_S2_PMD - i)") auto

definition IS_PUD_ALIGN :: "u64 \<Rightarrow> bool" where
  "IS_PUD_ALIGN addr \<longleftrightarrow> addr AND (S2_PUD_SIZE - 1) = 0"

definition stage2_pud_huge_page :: "u64 \<Rightarrow> u64 \<Rightarrow> u64 \<Rightarrow> u64 \<Rightarrow> u64 \<Rightarrow> bool" where
  "stage2_pud_huge_page old_pud start phy sz flags \<longleftrightarrow>
     \<not> (flags AND VM_HUGE_1G_F = 0 \<or> old_pud \<noteq> 0) \<and> \<not> (\<not> IS_PUD_ALIGN start \<or> \<not> IS_PUD_ALIGN phy \<or> \<not> IS_PUD_ALIGN sz)"

function map_puds :: "nat \<Rightarrow> u64 \<Rightarrow> u64 \<Rightarrow> u64 \<Rightarrow> u64 \<Rightarrow> stage2 \<Rightarrow> (int \<times> stage2) res" where
  "map_puds i start fin physical flags s =
     (if PTRS_PER_S2_PUD \<le> i then Inl Out_Of_Bounds
      else let nxt = stage2_xxx_addr_end start fin S2_PUD_SIZE; sz = nxt - start; old_pud = tables s (pgdp s) i in
        thenR (if stage2_pud_huge_page old_pud start physical sz flags
               then Inr (0, set_entry (pgdp s) i (stage2_block_attr flags OR (physical AND NOT (S2_PUD_SIZE - 1))) s)
               else if old_pud \<noteq> 0 \<and> stage2_xxx_huge old_pud then Inr (- EINVAL, s)
               else thenR (if old_pud = 0 then new_table (pgdp s) i s else Inr (stage2_table_addr old_pud, s))
                 (\<lambda>(pmdp, s). if pmdp = 0 then Inr (- ENOMEM, s)
                    else stage2_map_pmd_range pmdp (stage2_pmd_index start) start nxt physical flags s))
          (\<lambda>(ret, s). if ret \<noteq> 0 then Inr (ret, s)
             else if nxt \<noteq> fin then map_puds (Suc i) nxt fin (physical + sz) flags s else Inr (0, s)))"
  by pat_completeness auto
termination by (relation "measure (\<lambda>(i, start, fin, physical, flags, s). PTRS_PER_S2_PUD - i)") auto

definition stage2_map_pud_range :: "u64 \<Rightarrow> u64 \<Rightarrow> u64 \<Rightarrow> u64 \<Rightarrow> stage2 \<Rightarrow> (int \<times> stage2) res" where
  "stage2_map_pud_range start fin physical flags s = map_puds (stage2_pud_index start) start fin physical flags s"

section \<open>Translation and entry points\<close>

definition stage2_ipa_to_pa :: "stage2 \<Rightarrow> u64 \<Rightarrow> int \<times> u64" where
  "stage2_ipa_to_pa s va =
     (let pud = tables s (pgdp s) (stage2_pud_index va) in
      if pud = 0 then (- EFAULT, 0)
      else let pmd = tables s (stage2_table_addr pud) (stage2_pmd_index va) in
        if pmd = 0 then (- EFAULT, 0)
        else if stage2_xxx_huge pmd then (0, (pmd AND S2_PHYSICAL_MASK) + (va AND 0x1fffff))
        else let phy = tables s (stage2_table_addr pmd) (stage2_pte_index va) AND S2_PHYSICAL_MASK in
          if phy = 0 then (- EFAULT, 0) else (0, phy + (va AND 0xfff)))"

definition arch_guest_map :: "u64 \<Rightarrow> u64 \<Rightarrow> u64 \<Rightarrow> u64 \<Rightarrow> stage2 \<Rightarrow> (int \<times> stage2) res" where
  "arch_guest_map start fin physical flags s =
     (if fin = start then Inr (- EINVAL, s)
      else if \<not> (start < VMM_VIRT_MAX \<and> fin \<le> VMM_VIRT_MAX) then Inl Assert_Failed
      else if \<not> physical < S2_PHYSICAL_MAX then Inl Assert_Failed
      else if \<not> (IS_PAGE_ALIGN start \<and> IS_PAGE_ALIGN fin \<and> IS_PAGE_ALIGN physical) then Inl Assert_Failed
      else stage2_map_pud_range start fin physical flags s)"

definition arch_guest_unmap :: "u64 \<Rightarrow> u64 \<Rightarrow> stage2 \<Rightarrow> (int \<times> stage2) res" where
  "arch_guest_unmap start fin s =
     (if fin = start then Inr (- EINVAL, s)
      else if \<not> (start < VMM_VIRT_MAX \<and> fin \<le> VMM_VIRT_MAX) then Inl Assert_Failed
      else stage2_unmap_pud_range start fin s)"

declare stage2_unmap_pte_range.simps [simp del] stage2_unmap_pmd_range.simps [simp del] unmap_puds.simps [simp del]
  stage2_map_pte_range.simps [simp del] stage2_map_pmd_range.simps [simp del] map_puds.simps [simp del]

end
