(* ===== verification/Stage2_Props.thy ===== *)
theory Stage2_Props
  imports Stage2
begin

text \<open>
  Correctness of the stage-2 tables. A table tree is read as a partial map from guest page numbers to frames; mapping a
  range overrides the map on exactly that range, and the tree structure, in which every table page has one role, is
  kept. Addresses are multiples \<open>page n\<close> of the page size.
\<close>

unbundle bit_operations_syntax

section \<open>Page addresses\<close>

definition page :: "nat \<Rightarrow> u64" where
  "page n = of_nat (n * 4096)"

lemma unat_page: "n \<le> 2 ^ 28 \<Longrightarrow> unat (page n) = n * 4096"
  by (simp add: page_def unat_of_nat del: of_nat_mult)

lemma page_eq: "m \<le> 2 ^ 28 \<Longrightarrow> n \<le> 2 ^ 28 \<Longrightarrow> page m = page n \<longleftrightarrow> m = n"
  by (auto simp: word_unat_eq_iff unat_page)

lemma page_Suc: "page n + 4096 = page (Suc n)"
  by (simp add: page_def)

lemma and_low: "(w :: u64) AND mask k = take_bit k w"
  by (simp add: take_bit_eq_mask)

lemma page_index:
  assumes "unat va < 2 ^ 40"
  shows "stage2_pud_index va = unat va div 4096 div 2 ^ 18" "stage2_pmd_index va = unat va div 4096 div 512 mod 512"
    "stage2_pte_index va = unat va div 4096 mod 512"
proof -
  have m: "(0x3ff :: u64) = mask 10" "(0x1ff :: u64) = mask 9" by (simp_all add: mask_eq_exp_minus_1)
  have d: "unat va div 2 ^ 30 = unat va div 4096 div 2 ^ 18" "unat va div 2 ^ 21 = unat va div 4096 div 512"
    by (simp_all add: div_mult2_eq [symmetric])
  have "unat va div 2 ^ 30 < 2 ^ 10" using assms by (simp add: less_mult_imp_div_less)
  then show "stage2_pud_index va = unat va div 4096 div 2 ^ 18"
    unfolding stage2_pud_index_def m(1) and_low unat_take_bit_word unat_drop_bit_div by (simp add: d)
  show "stage2_pmd_index va = unat va div 4096 div 512 mod 512" "stage2_pte_index va = unat va div 4096 mod 512"
    unfolding stage2_pmd_index_def stage2_pte_index_def m(2) and_low unat_take_bit_word unat_drop_bit_div d(2) by simp_all
qed

lemma index_page:
  assumes "n < 2 ^ 28"
  shows "stage2_pud_index (page n) = n div 2 ^ 18" "stage2_pmd_index (page n) = n div 512 mod 512" "stage2_pte_index (page n) = n mod 512"
  using assms page_index [of "page n"] unat_page [of n] by simp_all

lemma addr_end_page:
  assumes a: "a < b" "b \<le> 2 ^ 28" and n: "n \<le> 18"
  shows "stage2_xxx_addr_end (page a) (page b) (2 ^ (n + 12)) = page (min ((a div 2 ^ n + 1) * 2 ^ n) b)"
proof -
  define N :: nat where "N = 2 ^ n"
  define c where "c = (a div N + 1) * N"
  let ?w = "2 ^ (n + 12) :: u64" and ?bd = "(page a + 2 ^ (n + 12)) AND NOT (2 ^ (n + 12) - 1) :: u64"
  have N: "0 < N" "N \<le> 2 ^ 18" "2 ^ (n + 12) = N * 4096" unfolding N_def using n power_increasing [of n 18 "2 :: nat"] by (simp_all add: power_add)
  have "n + 12 < 64" using n by simp
  then have u2: "unat ?w = N * 4096" unfolding N(3) [symmetric] by (rule unat_pow2)
  have un: "unat (page a + ?w) = (a + N) * 4096"
    using a u2 unat_page [of a] N(2) by (subst unat_plus_u64) (simp_all add: algebra_simps)
  have "unat ?bd = (a + N) * 4096 div 2 ^ (n + 12) * 2 ^ (n + 12)"
    using unat_and_not_mask [of "page a + ?w" "n + 12"] unfolding un mask_eq_exp_minus_1 .
  also have "(a + N) * 4096 div 2 ^ (n + 12) = (a + N) div N" unfolding N(3) by (rule div_mult_mult2) simp
  also have "(a + N) div N = a div N + 1" using N(1) by (intro div_add_self2) simp
  also have "(a div N + 1) * 2 ^ (n + 12) = c * 4096" unfolding N(3) c_def by simp
  finally have ubd: "unat ?bd = c * 4096" .
  have pos: "0 < c" using N(1) by (simp add: c_def)
  have "1 \<le> ?bd" "1 \<le> page b" using ubd pos unat_page [of b] a by (simp_all add: word_le_nat_alt)
  then have "?bd - 1 < page b - 1 \<longleftrightarrow> c * 4096 - 1 < b * 4096 - 1"
    using unat_minus_u64 [of 1 ?bd] unat_minus_u64 [of 1 "page b"] ubd unat_page [of b] a(2) unfolding word_less_nat_alt by simp
  then have "?bd - 1 < page b - 1 \<longleftrightarrow> c < b" using pos by linarith
  moreover have "?bd = page c" if "c < b" using ubd unat_page [of c] that a(2) by (simp add: word_unat_eq_iff)
  ultimately show ?thesis unfolding stage2_xxx_addr_end_def Let_def N_def [symmetric] c_def [symmetric] by (auto simp: min_def)
qed

lemmas pmd_end = addr_end_page [of _ _ 9, simplified]
lemmas pud_end = addr_end_page [of _ _ 18, simplified]

section \<open>Descriptors\<close>

lemma and_or_mask: "((x :: u64) OR y) AND m = (x AND m) OR (y AND m)"
  by (rule bit_word_eqI) (auto simp: bit_simps)

lemma flags_attr_bits: "s2_flags_attr fl AND S2_PHYSICAL_MASK = 0" "s2_flags_attr fl AND 3 = 0"
  unfolding s2_flags_attr_def by (simp_all add: and_or_mask)

lemma page_attr_bits: "stage2_page_attr fl AND S2_PHYSICAL_MASK = 0"
  unfolding stage2_page_attr_def Let_def by (simp add: and_or_mask flags_attr_bits)

lemma block_attr_bits: "stage2_block_attr fl AND S2_PHYSICAL_MASK = 0" "stage2_block_attr fl AND 3 = S2_DES_BLOCK"
  unfolding stage2_block_attr_def Let_def by (simp_all add: and_or_mask flags_attr_bits)

text \<open>A frame address: page aligned and within the output address bits of a descriptor.\<close>

definition frame_addr :: "u64 \<Rightarrow> bool" where
  "frame_addr f \<longleftrightarrow> f AND S2_PHYSICAL_MASK = f"

lemma frame_addr_low: "frame_addr f \<Longrightarrow> f AND 3 = 0"
proof -
  assume "frame_addr f"
  then have "f AND 3 = (f AND S2_PHYSICAL_MASK) AND 3" by (simp add: frame_addr_def)
  also have "\<dots> = f AND (S2_PHYSICAL_MASK AND 3)" by (simp only: and.assoc)
  finally show ?thesis by simp
qed

lemma frame_addrI:
  assumes "4096 dvd unat f" "unat f < 2 ^ 48"
  shows "frame_addr f"
proof -
  have m: "S2_PHYSICAL_MASK = mask 48 AND NOT (mask 12)" by (simp add: mask_eq_exp_minus_1)
  have "f AND mask 48 = f" using assms(2) by (simp add: word_unat_eq_iff and_low unat_take_bit_word)
  moreover have "f AND NOT (mask 12) = f"
    using unat_and_not_mask [of f 12] assms(1) by (simp add: word_unat_eq_iff)
  ultimately show ?thesis unfolding frame_addr_def m by (metis and.assoc)
qed

lemma table_desc:
  assumes "frame_addr p"
  shows "stage2_table_addr (p OR S2_DES_TABLE) = p" "\<not> stage2_xxx_huge (p OR S2_DES_TABLE)" "p OR S2_DES_TABLE \<noteq> 0"
proof -
  have l: "(p OR S2_DES_TABLE) AND 3 = 3" using frame_addr_low [OF assms] by (simp add: and_or_mask)
  show "stage2_table_addr (p OR S2_DES_TABLE) = p" using assms by (simp add: stage2_table_addr_def and_or_mask frame_addr_def)
  show "\<not> stage2_xxx_huge (p OR S2_DES_TABLE)" using l by (simp add: stage2_xxx_huge_def)
  show "p OR S2_DES_TABLE \<noteq> 0"
  proof
    assume z: "p OR S2_DES_TABLE = 0"
    from l show False unfolding z by simp
  qed
qed

section \<open>The tree of tables\<close>

text \<open>The role of a table page. A page has one role, so no table is reached from two entries.\<close>

datatype role = Pgd | Pmd nat | Pte nat nat

definition tree_inv :: "(u64 \<rightharpoonup> role) \<Rightarrow> stage2 \<Rightarrow> bool" where
  "tree_inv R s \<longleftrightarrow> page_inv (pool s) \<and> R (pgdp s) = Some Pgd \<and> (\<forall>a. R a \<noteq> None \<longrightarrow> a \<in> given_pages (pool s)) \<and>
     (\<forall>i. tables s (pgdp s) i \<noteq> 0 \<longrightarrow> R (stage2_table_addr (tables s (pgdp s) i)) = Some (Pmd i)) \<and>
     (\<forall>t i j. R t = Some (Pmd i) \<longrightarrow> tables s t j \<noteq> 0 \<longrightarrow> \<not> stage2_xxx_huge (tables s t j) \<longrightarrow>
        R (stage2_table_addr (tables s t j)) = Some (Pte i j))"

text \<open>The frame behind a guest page number.\<close>

definition pmd_frame :: "stage2 \<Rightarrow> u64 \<Rightarrow> nat \<Rightarrow> u64 option" where
  "pmd_frame s t n =
     (let d = tables s t (n div 512 mod 512) in
      if d = 0 then None
      else if stage2_xxx_huge d then Some ((d AND S2_PHYSICAL_MASK) + page (n mod 512))
      else let f = tables s (stage2_table_addr d) (n mod 512) AND S2_PHYSICAL_MASK in if f = 0 then None else Some f)"

definition frame :: "stage2 \<Rightarrow> nat \<Rightarrow> u64 option" where
  "frame s n = (let d = tables s (pgdp s) (n div 2 ^ 18) in if d = 0 then None else pmd_frame s (stage2_table_addr d) n)"

lemma low_bits_split: "(va :: u64) AND 0x1fffff = page (unat va div 4096 mod 512) + (va AND 0xfff)"
proof -
  have m: "(0x1fffff :: u64) = mask 21" "(0xfff :: u64) = mask 12" by (simp_all add: mask_eq_exp_minus_1)
  have "unat va div 4096 mod 512 < 512" by simp
  then have p: "unat (page (unat va div 4096 mod 512)) = unat va div 4096 mod 512 * 4096" by (intro unat_page) simp
  have "unat va mod 2 ^ 21 = unat va div 4096 mod 512 * 4096 + unat va mod 4096"
    using mod_mult2_eq [of "unat va" 4096 512] by simp
  moreover have "unat va mod 2 ^ 21 < 2 ^ 21" by simp
  ultimately have "unat (page (unat va div 4096 mod 512) + (va AND mask 12)) = unat va mod 2 ^ 21"
    using p by (subst unat_plus_u64) (simp_all add: and_low unat_take_bit_word)
  then show ?thesis unfolding m by (simp add: word_unat_eq_iff and_low unat_take_bit_word)
qed

text \<open>The software walk computes the frame and adds the offset in the page.\<close>

lemma ipa_to_pa_frame:
  assumes "unat va < 2 ^ 40"
  shows "stage2_ipa_to_pa s va = (case frame s (unat va div 4096) of None \<Rightarrow> (- EFAULT, 0) | Some f \<Rightarrow> (0, f + (va AND 0xfff)))"
  unfolding stage2_ipa_to_pa_def frame_def pmd_frame_def Let_def page_index [OF assms] low_bits_split [of va]
  by (simp add: add.assoc)

lemma tree_invD:
  assumes "tree_inv R s"
  shows "page_inv (pool s)" "R (pgdp s) = Some Pgd" "R a \<noteq> None \<Longrightarrow> a \<in> given_pages (pool s)"
    and "tables s (pgdp s) i \<noteq> 0 \<Longrightarrow> R (stage2_table_addr (tables s (pgdp s) i)) = Some (Pmd i)"
    and "R t = Some (Pmd i) \<Longrightarrow> tables s t j \<noteq> 0 \<Longrightarrow> \<not> stage2_xxx_huge (tables s t j) \<Longrightarrow> R (stage2_table_addr (tables s t j)) = Some (Pte i j)"
  using assms by (auto simp: tree_inv_def)

text \<open>A change to the tables below entry \<open>j\<close> of the middle table \<open>i\<close> only, and what it leaves of the translation.\<close>

definition only_slot :: "(u64 \<rightharpoonup> role) \<Rightarrow> nat \<Rightarrow> nat \<Rightarrow> stage2 \<Rightarrow> stage2 \<Rightarrow> bool" where
  "only_slot R i j s s' \<longleftrightarrow> pgdp s' = pgdp s \<and> (\<forall>k. tables s' (pgdp s) k = tables s (pgdp s) k) \<and>
     (\<forall>t i' j'. R t = Some (Pmd i') \<longrightarrow> (i', j') \<noteq> (i, j) \<longrightarrow> tables s' t j' = tables s t j') \<and>
     (\<forall>t i' j' k. R t = Some (Pte i' j') \<longrightarrow> (i', j') \<noteq> (i, j) \<longrightarrow> tables s' t k = tables s t k)"

lemma frame_other_slot:
  assumes inv: "tree_inv R s" and o: "only_slot R i j s s'" and n: "(n div 2 ^ 18, n div 512 mod 512) \<noteq> (i, j)"
  shows "frame s' n = frame s n"
proof (cases "tables s (pgdp s) (n div 2 ^ 18) = 0")
  case False
  let ?t = "stage2_table_addr (tables s (pgdp s) (n div 2 ^ 18))" and ?j = "n div 512 mod 512"
  have t: "R ?t = Some (Pmd (n div 2 ^ 18))" using tree_invD(4) [OF inv False] .
  then have e: "tables s' ?t ?j = tables s ?t ?j" using o n by (simp add: only_slot_def)
  have "pmd_frame s' ?t n = pmd_frame s ?t n"
  proof (cases "tables s ?t ?j = 0 \<or> stage2_xxx_huge (tables s ?t ?j)")
    case False
    then have "R (stage2_table_addr (tables s ?t ?j)) = Some (Pte (n div 2 ^ 18) ?j)" using tree_invD(5) [OF inv t] by simp
    then have "tables s' (stage2_table_addr (tables s ?t ?j)) k = tables s (stage2_table_addr (tables s ?t ?j)) k" for k
      using o n unfolding only_slot_def by blast
    then show ?thesis using e by (simp add: pmd_frame_def Let_def)
  qed (use e in \<open>auto simp: pmd_frame_def Let_def\<close>)
  then show ?thesis using o by (simp add: frame_def only_slot_def Let_def)
qed (use o in \<open>simp add: frame_def only_slot_def Let_def\<close>)

lemma set_entry_sel [simp]:
  "pgdp (set_entry t i d s) = pgdp s" "pool (set_entry t i d s) = pool s"
  "tables (set_entry t i d s) u k = (if u = t \<and> k = i then d else tables s u k)"
  by (simp_all add: set_entry_def)

text \<open>Overriding a translation on the pages from \<open>a\<close> up to \<open>b\<close>, at a constant distance.\<close>

definition over :: "nat \<Rightarrow> nat \<Rightarrow> u64 \<Rightarrow> (nat \<Rightarrow> u64 option) \<Rightarrow> nat \<Rightarrow> u64 option" where
  "over a b \<delta> F n = (if a \<le> n \<and> n < b then Some (page n + \<delta>) else F n)"

definition frames_ok :: "nat \<Rightarrow> nat \<Rightarrow> u64 \<Rightarrow> bool" where
  "frames_ok a b \<delta> \<longleftrightarrow> (\<forall>n. a \<le> n \<longrightarrow> n < b \<longrightarrow> frame_addr (page n + \<delta>) \<and> page n + \<delta> \<noteq> 0)"

lemma over_over: "a \<le> c \<Longrightarrow> c \<le> b \<Longrightarrow> over c b \<delta> (over a c \<delta> F) = over a b \<delta> F"
  by (auto simp: over_def fun_eq_iff)

lemma frames_ok_sub: "frames_ok a b \<delta> \<Longrightarrow> a \<le> c \<Longrightarrow> d \<le> b \<Longrightarrow> frames_ok c d \<delta>"
  by (simp add: frames_ok_def)

lemma slot_bounds:
  fixes a c n :: nat
  assumes "a < c" "c \<le> (a div 512 + 1) * 512" "a \<le> n" "n < c"
  shows "n div 512 = a div 512" "n mod 512 = a mod 512 + (n - a)"
proof -
  have "n < (a div 512 + 1) * 512" using assms by linarith
  then have "n div 512 < a div 512 + 1" by (simp add: div_less_iff_less_mult)
  moreover have "a div 512 \<le> n div 512" using assms by (intro div_le_mono)
  ultimately show e: "n div 512 = a div 512" by simp
  have "n = n div 512 * 512 + n mod 512" "a = a div 512 * 512 + a mod 512" by simp_all
  then show "n mod 512 = a mod 512 + (n - a)" using e assms by linarith
qed

lemma slot_eq:
  fixes a n :: nat
  shows "(n div 2 ^ 18, n div 512 mod 512) = (a div 2 ^ 18, a div 512 mod 512) \<longleftrightarrow> n div 512 = a div 512"
proof -
  have d: "x div 2 ^ 18 = x div 512 div 512" for x :: nat by (simp flip: div_mult2_eq)
  have "n div 512 = a div 512" if "n div 512 div 512 = a div 512 div 512" "n div 512 mod 512 = a div 512 mod 512"
    using div_mult_mod_eq [of "n div 512" 512] div_mult_mod_eq [of "a div 512" 512] that by linarith
  then show ?thesis unfolding d by auto
qed

lemma next_slot:
  fixes a b c :: nat
  assumes "a < c" "c = (a div 512 + 1) * 512" "c < b" "b \<le> (a div 2 ^ 18 + 1) * 2 ^ 18"
  shows "c div 2 ^ 18 = a div 2 ^ 18" "c div 512 mod 512 = Suc (a div 512 mod 512)"
proof -
  have cd: "c div 512 = a div 512 + 1" using assms(2) by simp
  have d18: "x div 2 ^ 18 = x div 512 div 512" for x :: nat by (simp flip: div_mult2_eq)
  have "c < (a div 2 ^ 18 + 1) * 2 ^ 18" using assms(3,4) by linarith
  then have "c div 2 ^ 18 \<le> a div 2 ^ 18" by (simp add: div_less_iff_less_mult less_Suc_eq_le [symmetric])
  then show c18: "c div 2 ^ 18 = a div 2 ^ 18" using assms(1) div_le_mono [of a c "2 ^ 18"] by simp
  show "c div 512 mod 512 = Suc (a div 512 mod 512)"
    using c18 cd unfolding d18 using div_mult_mod_eq [of "c div 512" 512] div_mult_mod_eq [of "a div 512" 512] by linarith
qed

section \<open>Mapping one slot\<close>

lemma map_pte_ok:
  "a < b \<Longrightarrow> b \<le> 2 ^ 28 \<Longrightarrow> i + (b - a) \<le> 512 \<Longrightarrow>
   stage2_map_pte_range t i (page a) (page b) (page a + \<delta>) attr s =
     Inr (s\<lparr>tables := (tables s)(t := (\<lambda>k. if i \<le> k \<and> k < i + (b - a) then attr OR (page (a + (k - i)) + \<delta>) else tables s t k))\<rparr>)"
proof (induction "b - a" arbitrary: a i s)
  case (Suc x)
  let ?s = "set_entry t i (attr OR (page a + \<delta>)) s"
  have i: "\<not> 512 \<le> i" using Suc.prems by simp
  show ?case
  proof (cases "Suc a = b")
    case True
    then show ?thesis using i Suc.prems
      by (subst stage2_map_pte_range.simps) (auto simp: Let_def page_Suc set_entry_def fun_eq_iff)
  next
    case False
    have ne: "page (Suc a) \<noteq> page b" using page_eq [of "Suc a" b] False Suc.prems by simp
    have pe: "page a + \<delta> + 4096 = page (Suc a) + \<delta>" by (simp flip: page_Suc)
    have "stage2_map_pte_range t i (page a) (page b) (page a + \<delta>) attr s =
        stage2_map_pte_range t (Suc i) (page (Suc a)) (page b) (page (Suc a) + \<delta>) attr ?s"
      using i ne by (subst stage2_map_pte_range.simps) (simp add: Let_def page_Suc pe)
    also have "\<dots> = Inr (?s\<lparr>tables := (tables ?s)(t := (\<lambda>k. if Suc i \<le> k \<and> k < Suc i + (b - Suc a)
         then attr OR (page (Suc a + (k - Suc i)) + \<delta>) else tables ?s t k))\<rparr>)"
      by (rule Suc.hyps(1)) (use Suc.hyps(2) Suc.prems False in auto)
    also have "\<dots> = Inr (s\<lparr>tables := (tables s)(t := (\<lambda>k. if i \<le> k \<and> k < i + (b - a) then attr OR (page (a + (k - i)) + \<delta>) else tables s t k))\<rparr>)"
    proof -
      have "(if Suc i \<le> k \<and> k < Suc i + (b - Suc a) then attr OR (page (Suc a + (k - Suc i)) + \<delta>) else tables ?s t k) =
          (if i \<le> k \<and> k < i + (b - a) then attr OR (page (a + (k - i)) + \<delta>) else tables s t k)" for k
        using Suc.prems False by (cases "k = i") (auto simp: Suc_diff_Suc)
      then show ?thesis by (simp add: set_entry_def fun_eq_iff)
    qed
    finally show ?thesis .
  qed
qed simp

text \<open>A middle table that is linked from entry \<open>i\<close> of the top table.\<close>

definition linked :: "(u64 \<rightharpoonup> role) \<Rightarrow> stage2 \<Rightarrow> nat \<Rightarrow> u64 \<Rightarrow> bool" where
  "linked R s i t \<longleftrightarrow> R t = Some (Pmd i) \<and> tables s (pgdp s) i \<noteq> 0 \<and> stage2_table_addr (tables s (pgdp s) i) = t"

lemma fresh_page:
  assumes inv: "tree_inv R s" and st: "get_page (pool s) = Inr (p, m)"
  shows "page_inv m" "p \<noteq> 0" "R p = None" "frame_addr p" "given_pages m = insert p (given_pages (pool s))"
proof -
  note g = pg.get [OF tree_invD(1) [OF inv] st]
  show "page_inv m" "p \<noteq> 0" "given_pages m = insert p (given_pages (pool s))" using g by auto
  show "R p = None" using g tree_invD(3) [OF inv, of p] by (cases "R p") auto
  show "frame_addr p" using g by (intro frame_addrI) auto
qed

lemma new_pte_table:
  assumes inv: "tree_inv R s" and l: "linked R s i t" and z: "tables s t j = 0" and st: "new_table t j s = Inr (p, s')"
  shows "p \<noteq> 0" "tree_inv (R(p \<mapsto> Pte i j)) s'" "R p = None" "frame s' = frame s" "tables s' t j \<noteq> 0" "\<not> stage2_xxx_huge (tables s' t j)"
    "stage2_table_addr (tables s' t j) = p" "pgdp s' = pgdp s" "linked (R(p \<mapsto> Pte i j)) s' i t" "tables s' (pgdp s) = tables s (pgdp s)"
proof -
  from st obtain m where m: "get_page (pool s) = Inr (p, m)" by (auto simp: new_table_def split: if_splits)
  note f = fresh_page [OF inv m]
  note d = table_desc [OF f(4)]
  have s': "s' = set_entry t j (p OR 3) (s\<lparr>pool := m, tables := (tables s)(p := (\<lambda>_. 0))\<rparr>)" using st m f(2) by (auto simp: new_table_def)
  have t: "R t = Some (Pmd i)" using l by (simp add: linked_def)
  have ne: "p \<noteq> t" "p \<noteq> pgdp s" "t \<noteq> pgdp s" using f(3) t tree_invD(2) [OF inv] by auto
  show "p \<noteq> 0" "R p = None" using f by simp_all
  show "tables s' t j \<noteq> 0" "\<not> stage2_xxx_huge (tables s' t j)" "stage2_table_addr (tables s' t j) = p" "pgdp s' = pgdp s"
    "tables s' (pgdp s) = tables s (pgdp s)" using d ne by (auto simp: s' fun_eq_iff)
  show "linked (R(p \<mapsto> Pte i j)) s' i t" using l ne by (auto simp: linked_def s')
  have "only_slot R i j s s'" using ne f(3) t tree_invD(2) [OF inv] by (auto simp: only_slot_def s')
  then have oth: "frame s' n = frame s n" if "(n div 2 ^ 18, n div 512 mod 512) \<noteq> (i, j)" for n using frame_other_slot [OF inv _ that] by blast
  moreover have "frame s' n = frame s n" if "n div 2 ^ 18 = i" "n div 512 mod 512 = j" for n
    using that l z ne d by (simp add: frame_def pmd_frame_def Let_def linked_def s')
  ultimately show "frame s' = frame s" by fastforce
  show "tree_inv (R(p \<mapsto> Pte i j)) s'"
    unfolding tree_inv_def
  proof (intro conjI allI impI)
    show "(R(p \<mapsto> Pte i j)) (pgdp s') = Some Pgd" using tree_invD(2) [OF inv] ne by (simp add: s')
    show "page_inv (pool s')" using f by (simp add: s')
    show "a \<in> given_pages (pool s')" if "(R(p \<mapsto> Pte i j)) a \<noteq> None" for a
      using that tree_invD(3) [OF inv, of a] f(5) by (auto simp: s' split: if_splits)
    show "(R(p \<mapsto> Pte i j)) (stage2_table_addr (tables s' (pgdp s') k)) = Some (Pmd k)" if "tables s' (pgdp s') k \<noteq> 0" for k
      using that tree_invD(4) [OF inv, of k] ne f(3) by (auto simp: s')
    show "(R(p \<mapsto> Pte i j)) (stage2_table_addr (tables s' u k)) = Some (Pte i' k)"
      if "(R(p \<mapsto> Pte i j)) u = Some (Pmd i')" "tables s' u k \<noteq> 0" "\<not> stage2_xxx_huge (tables s' u k)" for u i' k
    proof -
      have "u \<noteq> p" "R u = Some (Pmd i')" using that(1) by (auto split: if_splits)
      then show ?thesis using that tree_invD(5) [OF inv, of u i' k] t d f(3) by (auto simp: s' split: if_splits)
    qed
  qed
qed

lemma write_ptes:
  assumes inv: "tree_inv R s" and l: "linked R s (a div 2 ^ 18) t" and d: "tables s t (a div 512 mod 512) \<noteq> 0" "\<not> stage2_xxx_huge (tables s t (a div 512 mod 512))"
    and p: "p = stage2_table_addr (tables s t (a div 512 mod 512))" and c: "a < c" "c \<le> (a div 512 + 1) * 512" and ok: "frames_ok a c \<delta>"
    and s': "s' = s\<lparr>tables := (tables s)(p := (\<lambda>k. if a mod 512 \<le> k \<and> k < a mod 512 + (c - a) then stage2_page_attr fl OR (page (a + (k - a mod 512)) + \<delta>) else tables s p k))\<rparr>"
  shows "tree_inv R s'" "frame s' = over a c \<delta> (frame s)" "linked R s' (a div 2 ^ 18) t" "pgdp s' = pgdp s" "tables s' (pgdp s) = tables s (pgdp s)"
proof -
  let ?i = "a div 2 ^ 18" and ?j = "a div 512 mod 512"
  have t: "R t = Some (Pmd ?i)" using l by (simp add: linked_def)
  have rp: "R p = Some (Pte ?i ?j)" using tree_invD(5) [OF inv t d] p by simp
  have ne: "p \<noteq> pgdp s" "p \<noteq> t" and np: "\<And>u i'. R u = Some (Pmd i') \<Longrightarrow> u \<noteq> p" using rp t tree_invD(2) [OF inv] by auto
  show "pgdp s' = pgdp s" "tables s' (pgdp s) = tables s (pgdp s)" "linked R s' ?i t" using ne l by (auto simp: s' linked_def)
  show "tree_inv R s'" using inv ne np unfolding tree_inv_def s' by auto
  have "only_slot R ?i ?j s s'" using ne np rp by (auto simp: only_slot_def s')
  then have oth: "frame s' n = frame s n" if "(n div 2 ^ 18, n div 512 mod 512) \<noteq> (?i, ?j)" for n using frame_other_slot [OF inv _ that] by blast
  have "frame s' n = over a c \<delta> (frame s) n" for n
  proof (cases "n div 512 = a div 512")
    case True
    then have ij: "n div 2 ^ 18 = ?i" "n div 512 mod 512 = ?j" using slot_eq [of n a] by auto
    have fr: "frame s' n = (let f = tables s' p (n mod 512) AND S2_PHYSICAL_MASK in if f = 0 then None else Some f)"
      "frame s n = (let f = tables s p (n mod 512) AND S2_PHYSICAL_MASK in if f = 0 then None else Some f)"
      using l d ne p unfolding frame_def pmd_frame_def ij by (simp_all add: Let_def linked_def s')
    have dm: "n = n div 512 * 512 + n mod 512" "a = a div 512 * 512 + a mod 512" by simp_all
    then have r: "a mod 512 \<le> n mod 512 \<and> n mod 512 < a mod 512 + (c - a) \<longleftrightarrow> a \<le> n \<and> n < c" using True c by linarith
    show ?thesis
    proof (cases "a \<le> n \<and> n < c")
      case True
      then have eq: "a + (n mod 512 - a mod 512) = n" using dm \<open>n div 512 = a div 512\<close> by linarith
      have "tables s' p (n mod 512) = (if a mod 512 \<le> n mod 512 \<and> n mod 512 < a mod 512 + (c - a)
          then stage2_page_attr fl OR (page (a + (n mod 512 - a mod 512)) + \<delta>) else tables s p (n mod 512))" by (simp add: s')
      also have "\<dots> = stage2_page_attr fl OR (page n + \<delta>)" unfolding eq r using True by simp
      finally have "tables s' p (n mod 512) AND S2_PHYSICAL_MASK = page n + \<delta>"
        using True ok by (simp add: and_or_mask page_attr_bits frames_ok_def frame_addr_def)
      then show ?thesis using True ok fr by (simp add: over_def frames_ok_def)
    next
      case False
      then show ?thesis using r fr by (auto simp: over_def s')
    qed
  next
    case False
    then have "\<not> (a \<le> n \<and> n < c)" using slot_bounds(1) [OF c, of n] by blast
    then show ?thesis using oth [of n] False slot_eq [of n a] by (auto simp: over_def)
  qed
  then show "frame s' = over a c \<delta> (frame s)" by (simp add: fun_eq_iff)
qed

lemma block_align_page: "m \<le> 2 ^ 28 \<Longrightarrow> IS_BLOCK_ALIGN (page m) \<longleftrightarrow> 512 dvd m"
proof -
  assume m: "m \<le> 2 ^ 28"
  have k: "(0x1fffff :: u64) = mask 21" by (simp add: mask_eq_exp_minus_1)
  have "unat (page m AND mask 21) = m * 4096 mod 2 ^ 21" by (simp add: and_low unat_take_bit_word unat_page [OF m])
  also have "\<dots> = m mod 512 * 4096" using mult_mod_left [of m 512 4096] by simp
  finally show ?thesis unfolding IS_BLOCK_ALIGN_def k by (auto simp: word_unat_eq_iff dvd_eq_mod_eq_0)
qed

lemma block_addr_mask: "IS_BLOCK_ALIGN x \<Longrightarrow> x AND NOT (S2_PMD_SIZE - 1) = x"
proof -
  assume a: "IS_BLOCK_ALIGN x"
  have k: "(0x1fffff :: u64) = mask 21" "S2_PMD_SIZE - 1 = mask 21" by (simp_all add: mask_eq_exp_minus_1)
  have "take_bit 21 x = 0" using a unfolding IS_BLOCK_ALIGN_def k(1) and_low .
  then have "unat x mod 2 ^ 21 = 0" using unat_take_bit_word [of 21 x] by simp
  then have "unat x div 2 ^ 21 * 2 ^ 21 = unat x" using div_mult_mod_eq [of "unat x" "2 ^ 21"] by linarith
  then show ?thesis unfolding k word_unat_eq_iff unat_and_not_mask .
qed

lemma page_plus: "page a + page b = page (a + b)"
  unfolding page_def add_mult_distrib of_nat_add by (rule refl)

lemma page_diff: "a \<le> b \<Longrightarrow> page b - page a = page (b - a)"
  using page_plus [of "b - a" a] by (simp add: eq_diff_eq [symmetric])

lemma write_block:
  assumes inv: "tree_inv R s" and l: "linked R s (a div 2 ^ 18) t" and c: "a < c" "c \<le> (a div 512 + 1) * 512" "c \<le> 2 ^ 28" and ok: "frames_ok a c \<delta>"
    and h: "stage2_pmd_huge_page (tables s t (a div 512 mod 512)) (page a) (page a + \<delta>) (page c - page a) fl"
    and s': "s' = set_entry t (a div 512 mod 512) (stage2_block_attr fl OR ((page a + \<delta>) AND NOT (S2_PMD_SIZE - 1))) s"
  shows "tree_inv R s'" "frame s' = over a c \<delta> (frame s)" "linked R s' (a div 2 ^ 18) t" "pgdp s' = pgdp s" "tables s' (pgdp s) = tables s (pgdp s)"
proof -
  let ?i = "a div 2 ^ 18" and ?j = "a div 512 mod 512" and ?d = "stage2_block_attr fl OR (page a + \<delta>)"
  have t: "R t = Some (Pmd ?i)" and tl: "t \<noteq> pgdp s" using l tree_invD(2) [OF inv] by (auto simp: linked_def)
  have z: "tables s t ?j = 0" and al: "IS_BLOCK_ALIGN (page a)" "IS_BLOCK_ALIGN (page a + \<delta>)" "IS_BLOCK_ALIGN (page (c - a))"
    using h c page_diff [of a c] by (auto simp: stage2_pmd_huge_page_def)
  have "512 dvd a" "512 dvd c - a" using al block_align_page [of a] block_align_page [of "c - a"] c by simp_all
  then have m: "a mod 512 = 0" "a div 512 * 512 = a" and "512 \<le> c - a" using c(1) by (auto intro: dvd_imp_le)
  moreover have "c \<le> a div 512 * 512 + 512" using c(2) by simp
  ultimately have "c = a + 512" by linarith
  note ca = this m(1)
  have s': "s' = set_entry t ?j ?d s" using s' block_addr_mask [OF al(2)] by simp
  have fa: "frame_addr (page a + \<delta>)" using ok c by (simp add: frames_ok_def)
  have dm: "?d AND S2_PHYSICAL_MASK = page a + \<delta>" using fa by (simp add: and_or_mask block_attr_bits frame_addr_def)
  have d3: "?d AND 3 = 1" using frame_addr_low [OF fa] by (simp add: and_or_mask block_attr_bits)
  have "?d \<noteq> 0"
  proof
    assume z: "?d = 0"
    from d3 show False unfolding z by simp
  qed
  with d3 have hg: "stage2_xxx_huge ?d" "?d \<noteq> 0" by (simp_all add: stage2_xxx_huge_def)
  show "pgdp s' = pgdp s" "tables s' (pgdp s) = tables s (pgdp s)" "linked R s' ?i t" using tl l by (auto simp: s' linked_def)
  show "tree_inv R s'" using inv tl hg t unfolding tree_inv_def s' by auto
  have "only_slot R ?i ?j s s'" using tl t by (auto simp: only_slot_def s')
  then have oth: "frame s' n = frame s n" if "(n div 2 ^ 18, n div 512 mod 512) \<noteq> (?i, ?j)" for n using frame_other_slot [OF inv _ that] by blast
  have "frame s' n = over a c \<delta> (frame s) n" for n
  proof (cases "n div 512 = a div 512")
    case True
    then have ij: "n div 2 ^ 18 = ?i" "n div 512 mod 512 = ?j" using slot_eq [of n a] by auto
    have n: "n = a + n mod 512" using div_mult_mod_eq [of n 512] div_mult_mod_eq [of a 512] True ca(2) by simp
    have "frame s' n = Some ((page a + \<delta>) + page (n mod 512))"
      using l tl hg dm unfolding frame_def pmd_frame_def ij by (simp add: Let_def linked_def s')
    also have "\<dots> = Some (page (a + n mod 512) + \<delta>)" by (simp add: page_plus [symmetric])
    finally have "frame s' n = Some (page n + \<delta>)" using n by simp
    moreover have "a \<le> n \<and> n < c" using n ca(1) mod_less_divisor [of 512 n] by linarith
    ultimately show ?thesis by (simp add: over_def)
  next
    case False
    then have "\<not> (a \<le> n \<and> n < c)" using slot_bounds(1) [OF c(1,2), of n] by blast
    then show ?thesis using oth [of n] False slot_eq [of n a] by (auto simp: over_def)
  qed
  then show "frame s' = over a c \<delta> (frame s)" by (simp add: fun_eq_iff)
qed

section \<open>The loops\<close>

text \<open>The state after a mapping: more tables, the same top table pointer, the translation overridden.\<close>

definition mapped :: "(u64 \<rightharpoonup> role) \<Rightarrow> stage2 \<Rightarrow> nat \<Rightarrow> nat \<Rightarrow> u64 \<Rightarrow> stage2 \<Rightarrow> bool" where
  "mapped R s a b \<delta> s' \<longleftrightarrow> (\<exists>R'. tree_inv R' s' \<and> R \<subseteq>\<^sub>m R' \<and> pgdp s' = pgdp s \<and> frame s' = over a b \<delta> (frame s) \<and>
     (\<forall>i t. linked R s i t \<longrightarrow> linked R' s' i t))"

lemma mappedI:
  "tree_inv R' s' \<Longrightarrow> R \<subseteq>\<^sub>m R' \<Longrightarrow> pgdp s' = pgdp s \<Longrightarrow> frame s' = over a b \<delta> (frame s) \<Longrightarrow> tables s' (pgdp s) = tables s (pgdp s) \<Longrightarrow> mapped R s a b \<delta> s'"
  unfolding mapped_def linked_def by (intro exI [of _ R']) (auto simp: map_le_def dom_def)

lemma mapped_trans:
  assumes "mapped R s a c \<delta> s1" and "\<And>R1. tree_inv R1 s1 \<Longrightarrow> R \<subseteq>\<^sub>m R1 \<Longrightarrow> (\<forall>i t. linked R s i t \<longrightarrow> linked R1 s1 i t) \<Longrightarrow> mapped R1 s1 c b \<delta> s2"
    and "a \<le> c" "c \<le> b"
  shows "mapped R s a b \<delta> s2"
proof -
  from assms(1) obtain R1 where r1: "tree_inv R1 s1" "R \<subseteq>\<^sub>m R1" "pgdp s1 = pgdp s" "frame s1 = over a c \<delta> (frame s)"
    "\<forall>i t. linked R s i t \<longrightarrow> linked R1 s1 i t" unfolding mapped_def by blast
  from assms(2) [OF r1(1,2,5)] obtain R2 where r2: "tree_inv R2 s2" "R1 \<subseteq>\<^sub>m R2" "pgdp s2 = pgdp s1" "frame s2 = over c b \<delta> (frame s1)"
    "\<forall>i t. linked R1 s1 i t \<longrightarrow> linked R2 s2 i t" unfolding mapped_def by blast
  have "R \<subseteq>\<^sub>m R2" using r1(2) r2(2) by (rule map_le_trans)
  moreover have "frame s2 = over a b \<delta> (frame s)" using r1(4) r2(4) over_over [OF assms(3,4)] by simp
  ultimately show ?thesis unfolding mapped_def using r1 r2 by (intro exI [of _ R2]) auto
qed

text \<open>One round of the loop over a middle table.\<close>

definition map_slot :: "u64 \<Rightarrow> nat \<Rightarrow> u64 \<Rightarrow> u64 \<Rightarrow> u64 \<Rightarrow> u64 \<Rightarrow> stage2 \<Rightarrow> (int \<times> stage2) res" where
  "map_slot t i start nxt physical flags s =
     (let old_pmd = tables s t i in
      if stage2_pmd_huge_page old_pmd start physical (nxt - start) flags
      then Inr (0, set_entry t i (stage2_block_attr flags OR (physical AND NOT (S2_PMD_SIZE - 1))) s)
      else if old_pmd \<noteq> 0 \<and> stage2_xxx_huge old_pmd then Inr (- EINVAL, s)
      else thenR (if old_pmd = 0 then new_table t i s else Inr (stage2_table_addr old_pmd, s))
        (\<lambda>(ptep, s). if ptep = 0 then Inr (- ENOMEM, s)
           else thenR (stage2_map_pte_range ptep (stage2_pte_index start) start nxt physical (stage2_page_attr flags) s) (\<lambda>s. Inr (0, s))))"

lemma map_pmd_unfold:
  "stage2_map_pmd_range t i start fin physical flags s =
     (if 512 \<le> i then Inl Out_Of_Bounds
      else let nxt = stage2_xxx_addr_end start fin S2_PMD_SIZE in
        thenR (map_slot t i start nxt physical flags s)
          (\<lambda>(ret, s). if ret \<noteq> 0 then Inr (ret, s)
             else if nxt \<noteq> fin then stage2_map_pmd_range t (Suc i) nxt fin (physical + (nxt - start)) flags s else Inr (0, s)))"
  by (subst stage2_map_pmd_range.simps) (simp only: map_slot_def Let_def)

lemma map_slot_ok:
  assumes inv: "tree_inv R s" and l: "linked R s (a div 2 ^ 18) t" and c: "a < c" "c \<le> (a div 512 + 1) * 512" "c \<le> 2 ^ 28" and ok: "frames_ok a c \<delta>"
    and st: "map_slot t (a div 512 mod 512) (page a) (page c) (page a + \<delta>) fl s = Inr (0, s')"
  shows "mapped R s a c \<delta> s'"
proof -
  let ?j = "a div 512 mod 512"
  have "c \<le> a div 512 * 512 + 512" using c(2) by simp
  then have sb: "a mod 512 + (c - a) \<le> 512" using c(1) div_mult_mod_eq [of a 512] by linarith
  show ?thesis
  proof (cases "stage2_pmd_huge_page (tables s t ?j) (page a) (page a + \<delta>) (page c - page a) fl")
    case True
    then have "s' = set_entry t ?j (stage2_block_attr fl OR ((page a + \<delta>) AND NOT (S2_PMD_SIZE - 1))) s" using st by (simp add: map_slot_def Let_def)
    from write_block [OF inv l c ok True this] show ?thesis by (intro mappedI [of R]) auto
  next
    case False
    have ptes: "mapped R0 s0 a c \<delta> s1" if inv0: "tree_inv R0 s0" "linked R0 s0 (a div 2 ^ 18) t" "tables s0 t ?j \<noteq> 0" "\<not> stage2_xxx_huge (tables s0 t ?j)"
      and r: "stage2_map_pte_range (stage2_table_addr (tables s0 t ?j)) (stage2_pte_index (page a)) (page a) (page c) (page a + \<delta>) (stage2_page_attr fl) s0 = Inr s1" for R0 s0 s1
    proof -
      have "stage2_pte_index (page a) = a mod 512" using index_page [of a] c by simp
      then have s1: "s1 = s0\<lparr>tables := (tables s0)(stage2_table_addr (tables s0 t ?j) := (\<lambda>k. if a mod 512 \<le> k \<and> k < a mod 512 + (c - a)
          then stage2_page_attr fl OR (page (a + (k - a mod 512)) + \<delta>) else tables s0 (stage2_table_addr (tables s0 t ?j)) k))\<rparr>"
        using r map_pte_ok [OF c(1,3) sb, of "stage2_table_addr (tables s0 t ?j)" \<delta> "stage2_page_attr fl" s0] by simp
      from write_ptes [OF inv0 refl c(1,2) ok s1] show ?thesis by (intro mappedI [of R0]) auto
    qed
    show ?thesis
    proof (cases "tables s t ?j = 0")
      case True
      then obtain p s1 where p: "new_table t ?j s = Inr (p, s1)" "p \<noteq> 0"
        "stage2_map_pte_range p (stage2_pte_index (page a)) (page a) (page c) (page a + \<delta>) (stage2_page_attr fl) s1 = Inr s'"
        using st False by (auto simp: map_slot_def Let_def split: if_splits)
      note n = new_pte_table [OF inv l True p(1)]
      have m: "mapped (R(p \<mapsto> Pte (a div 2 ^ 18) ?j)) s1 a c \<delta> s'" using ptes [OF n(2,9,5,6)] p(3) n(7) by simp
      have le: "R \<subseteq>\<^sub>m R(p \<mapsto> Pte (a div 2 ^ 18) ?j)" using n(3) by (auto simp: map_le_def)
      have "linked (R(p \<mapsto> Pte (a div 2 ^ 18) ?j)) s1 i u" if "linked R s i u" for i u
        using that n(3,8,10) by (auto simp: linked_def)
      then show ?thesis using m le n(4,8) unfolding mapped_def by (auto intro: map_le_trans)
    next
      case nz: False
      then show ?thesis using ptes [OF inv l nz] st False
        by (auto simp: map_slot_def Let_def split: if_splits)
    qed
  qed
qed

lemma map_pmd_ok:
  assumes "tree_inv R s" "linked R s (a div 2 ^ 18) t" "a < b" "b \<le> (a div 2 ^ 18 + 1) * 2 ^ 18" "b \<le> 2 ^ 28" "frames_ok a b \<delta>"
    and "stage2_map_pmd_range t (a div 512 mod 512) (page a) (page b) (page a + \<delta>) fl s = Inr (0, s')"
  shows "mapped R s a b \<delta> s'"
  using assms
proof (induction "b - a" arbitrary: a s R rule: less_induct)
  case less
  let ?j = "a div 512 mod 512"
  define c where "c = min ((a div 512 + 1) * 512) b"
  have c: "a < c" "c \<le> b" "c \<le> (a div 512 + 1) * 512" "c \<le> 2 ^ 28"
    using less.prems(3,5) div_mult_mod_eq [of a 512] mod_less_divisor [of 512 a] by (auto simp: c_def)
  have nx: "stage2_xxx_addr_end (page a) (page b) S2_PMD_SIZE = page c" using pmd_end [of a b] less.prems(3,5) by (simp add: c_def)
  have ph: "page a + \<delta> + (page c - page a) = page c + \<delta>" by simp
  obtain s1 where s1: "map_slot t ?j (page a) (page c) (page a + \<delta>) fl s = Inr (0, s1)"
    and rest: "(if page c \<noteq> page b then stage2_map_pmd_range t (Suc ?j) (page c) (page b) (page c + \<delta>) fl s1 else Inr (0, s1)) = Inr (0, s')"
    using less.prems(7) unfolding map_pmd_unfold [of t ?j] Let_def nx ph by (auto split: if_splits)
  have m1: "mapped R s a c \<delta> s1" by (rule map_slot_ok [OF less.prems(1,2) c(1,3,4) frames_ok_sub [OF less.prems(6) _ c(2)] s1]) simp
  show ?case
  proof (cases "c = b")
    case True
    then show ?thesis using rest m1 by simp
  next
    case False
    then have cb: "c < b" "c = (a div 512 + 1) * 512" using c(2) by (auto simp: c_def min_def split: if_splits)
    note nxt = next_slot [OF c(1) cb(2) cb(1) less.prems(4)]
    note c18 = nxt(1)
    have st: "stage2_map_pmd_range t (c div 512 mod 512) (page c) (page b) (page c + \<delta>) fl s1 = Inr (0, s')"
      using rest cb(1) page_eq [of c b] c(4) less.prems(5) nxt(2) by simp
    have dec: "b - c < b - a" using c(1) cb(1) by simp
    have b18: "b \<le> (c div 2 ^ 18 + 1) * 2 ^ 18" using less.prems(4) c18 by simp
    show ?thesis
    proof (rule mapped_trans [OF m1 _ _ c(2)])
      fix R1 assume r1: "tree_inv R1 s1" "\<forall>i t. linked R s i t \<longrightarrow> linked R1 s1 i t"
      have l: "linked R1 s1 (c div 2 ^ 18) t" using r1(2) less.prems(2) c18 by simp
      show "mapped R1 s1 c b \<delta> s'"
        by (rule less.hyps [OF dec r1(1) l cb(1) b18 less.prems(5) frames_ok_sub [OF less.prems(6)] st]) (use c in simp_all)
    qed (use c in simp)
  qed
qed

lemma new_pmd_table:
  assumes inv: "tree_inv R s" and z: "tables s (pgdp s) i = 0" and st: "new_table (pgdp s) i s = Inr (p, s')"
  shows "p \<noteq> 0" "tree_inv (R(p \<mapsto> Pmd i)) s'" "R p = None" "frame s' = frame s" "pgdp s' = pgdp s" "linked (R(p \<mapsto> Pmd i)) s' i p"
    "\<forall>k t. linked R s k t \<longrightarrow> linked (R(p \<mapsto> Pmd i)) s' k t"
proof -
  from st obtain m where m: "get_page (pool s) = Inr (p, m)" by (auto simp: new_table_def split: if_splits)
  note f = fresh_page [OF inv m]
  note d = table_desc [OF f(4)]
  have s': "s' = set_entry (pgdp s) i (p OR 3) (s\<lparr>pool := m, tables := (tables s)(p := (\<lambda>_. 0))\<rparr>)" using st m f(2) by (auto simp: new_table_def)
  have ne: "p \<noteq> pgdp s" using f(3) tree_invD(2) [OF inv] by auto
  show "p \<noteq> 0" "R p = None" "pgdp s' = pgdp s" using f by (simp_all add: s')
  show lp: "linked (R(p \<mapsto> Pmd i)) s' i p" using d ne by (simp add: linked_def s')
  show lk: "\<forall>k t. linked R s k t \<longrightarrow> linked (R(p \<mapsto> Pmd i)) s' k t" using z ne f(3) by (auto simp: linked_def s')
  have "frame s' n = frame s n" for n
  proof (cases "n div 2 ^ 18 = i")
    case True
    then show ?thesis using z ne d by (simp add: frame_def pmd_frame_def Let_def s')
  next
    case False
    let ?e = "tables s (pgdp s) (n div 2 ^ 18)"
    show ?thesis
    proof (cases "?e = 0")
      case nz: False
      have t: "R (stage2_table_addr ?e) = Some (Pmd (n div 2 ^ 18))" using tree_invD(4) [OF inv nz] .
      let ?u = "tables s (stage2_table_addr ?e) (n div 512 mod 512)"
      have up: "stage2_table_addr ?e \<noteq> p" "stage2_table_addr ?e \<noteq> pgdp s" using t f(3) tree_invD(2) [OF inv] by auto
      have "stage2_table_addr ?u \<noteq> p \<and> stage2_table_addr ?u \<noteq> pgdp s" if "?u \<noteq> 0" "\<not> stage2_xxx_huge ?u"
        using tree_invD(5) [OF inv t that] f(3) tree_invD(2) [OF inv] by auto
      then show ?thesis using False ne up by (auto simp: frame_def pmd_frame_def Let_def s')
    qed (use False ne in \<open>simp add: frame_def Let_def s'\<close>)
  qed
  then show "frame s' = frame s" by (simp add: fun_eq_iff)
  show "tree_inv (R(p \<mapsto> Pmd i)) s'"
    unfolding tree_inv_def
  proof (intro conjI allI impI)
    show "(R(p \<mapsto> Pmd i)) (pgdp s') = Some Pgd" using tree_invD(2) [OF inv] ne by (simp add: s')
    show "page_inv (pool s')" using f by (simp add: s')
    show "a \<in> given_pages (pool s')" if "(R(p \<mapsto> Pmd i)) a \<noteq> None" for a
      using that tree_invD(3) [OF inv, of a] f(5) by (auto simp: s' split: if_splits)
    show "(R(p \<mapsto> Pmd i)) (stage2_table_addr (tables s' (pgdp s') k)) = Some (Pmd k)" if "tables s' (pgdp s') k \<noteq> 0" for k
      using that tree_invD(4) [OF inv, of k] ne f(3) d by (auto simp: s' split: if_splits)
    show "(R(p \<mapsto> Pmd i)) (stage2_table_addr (tables s' u k)) = Some (Pte i' k)"
      if "(R(p \<mapsto> Pmd i)) u = Some (Pmd i')" "tables s' u k \<noteq> 0" "\<not> stage2_xxx_huge (tables s' u k)" for u i' k
    proof -
      have "u \<noteq> p" using that(2) ne by (auto simp: s')
      then have u: "R u = Some (Pmd i')" using that(1) by simp
      then have "u \<noteq> pgdp s" using tree_invD(2) [OF inv] by auto
      then show ?thesis using that(2,3) \<open>u \<noteq> p\<close> tree_invD(5) [OF inv u, of k] f(3) by (auto simp: s')
    qed
  qed
qed

lemma map_puds_ok:
  assumes "tree_inv R s" "a < b" "b \<le> 2 ^ 28" "frames_ok a b \<delta>" and fl: "fl AND VM_HUGE_1G_F = 0"
    and "map_puds (a div 2 ^ 18) (page a) (page b) (page a + \<delta>) fl s = Inr (0, s')"
  shows "mapped R s a b \<delta> s'"
  using assms(1-4,6)
proof (induction "b - a" arbitrary: a s R rule: less_induct)
  case less
  let ?i = "a div 2 ^ 18"
  define c where "c = min ((?i + 1) * 2 ^ 18) b"
  have c: "a < c" "c \<le> b" "c \<le> (?i + 1) * 2 ^ 18" "c \<le> 2 ^ 28"
    using less.prems(2,3) div_mult_mod_eq [of a "2 ^ 18"] mod_less_divisor [of "2 ^ 18" a] by (auto simp: c_def)
  have nx: "stage2_xxx_addr_end (page a) (page b) S2_PUD_SIZE = page c" using pud_end [of a b] less.prems(2,3) by (simp add: c_def)
  have ph: "page a + \<delta> + (page c - page a) = page c + \<delta>" by simp
  have mi: "stage2_pmd_index (page a) = a div 512 mod 512" using index_page [of a] c by simp
  have nh: "\<not> stage2_pud_huge_page x (page a) y z fl" for x y z using fl by (simp add: stage2_pud_huge_page_def)
  obtain p s0 s1 where p: "(if tables s (pgdp s) ?i = 0 then new_table (pgdp s) ?i s else Inr (stage2_table_addr (tables s (pgdp s) ?i), s)) = Inr (p, s0)"
    "stage2_map_pmd_range p (a div 512 mod 512) (page a) (page c) (page a + \<delta>) fl s0 = Inr (0, s1)"
    and rest: "(if page c \<noteq> page b then map_puds (Suc ?i) (page c) (page b) (page c + \<delta>) fl s1 else Inr (0, s1)) = Inr (0, s')"
    using less.prems(5) unfolding map_puds.simps [of ?i] Let_def nx ph mi using nh by (auto split: if_splits)
  have ok: "frames_ok a c \<delta>" using frames_ok_sub [OF less.prems(4) _ c(2)] by simp
  have m1: "mapped R s a c \<delta> s1"
  proof (cases "tables s (pgdp s) ?i = 0")
    case True
    then have "new_table (pgdp s) ?i s = Inr (p, s0)" using p(1) by simp
    note n = new_pmd_table [OF less.prems(1) True this]
    from map_pmd_ok [OF n(2,6) c(1,3,4) ok p(2)] have "mapped (R(p \<mapsto> Pmd ?i)) s0 a c \<delta> s1" .
    moreover have "R \<subseteq>\<^sub>m R(p \<mapsto> Pmd ?i)" using n(3) by (auto simp: map_le_def)
    ultimately show ?thesis using n(4,5,7) unfolding mapped_def by (auto intro: map_le_trans)
  next
    case False
    then have "linked R s ?i p" "s0 = s" using p(1) tree_invD(4) [OF less.prems(1) False] by (auto simp: linked_def)
    then show ?thesis using map_pmd_ok [OF less.prems(1) _ c(1,3,4) ok] p(2) by blast
  qed
  show ?case
  proof (cases "c = b")
    case True
    then show ?thesis using rest m1 by simp
  next
    case False
    then have cb: "c < b" "c = (?i + 1) * 2 ^ 18" using c(2) by (auto simp: c_def min_def split: if_splits)
    then have "c div 2 ^ 18 = Suc ?i" by simp
    then have st: "map_puds (c div 2 ^ 18) (page c) (page b) (page c + \<delta>) fl s1 = Inr (0, s')"
      using rest cb(1) page_eq [of c b] c(4) less.prems(3) by simp
    have dec: "b - c < b - a" using c(1) cb(1) by simp
    show ?thesis
    proof (rule mapped_trans [OF m1 _ _ c(2)])
      fix R1 assume r1: "tree_inv R1 s1"
      show "mapped R1 s1 c b \<delta> s'"
        by (rule less.hyps [OF dec r1 cb(1) less.prems(3) frames_ok_sub [OF less.prems(4)] st]) (use c in simp_all)
    qed (use c in simp)
  qed
qed

section \<open>Properties\<close>

lemma aligned_page:
  assumes "IS_PAGE_ALIGN x" "unat x \<le> 2 ^ 40"
  shows "x = page (unat x div 4096)" "unat x = unat x div 4096 * 4096"
proof -
  have k: "PAGE_SIZE - 1 = (mask 12 :: u64)" by (simp add: mask_eq_exp_minus_1)
  have "take_bit 12 x = 0" using assms(1) unfolding IS_PAGE_ALIGN_def k and_low .
  then have "unat x mod 2 ^ 12 = 0" using unat_take_bit_word [of 12 x] by simp
  then show e: "unat x = unat x div 4096 * 4096" using div_mult_mod_eq [of "unat x" 4096] by simp
  have "unat x div 4096 \<le> 2 ^ 28" using div_le_mono [OF assms(2), of 4096] by simp
  then show "x = page (unat x div 4096)" using e unat_page [of "unat x div 4096"] by (simp add: word_unat_eq_iff)
qed

lemma addr_split: "unat va < 2 ^ 40 \<Longrightarrow> va = page (unat va div 4096) + (va AND 0xfff)"
proof -
  assume v: "unat va < 2 ^ 40"
  have k: "(0xfff :: u64) = mask 12" by (simp add: mask_eq_exp_minus_1)
  have "unat va div 4096 \<le> 2 ^ 28" using v by simp
  then have "unat (page (unat va div 4096)) = unat va div 4096 * 4096" by (rule unat_page)
  then have "unat (page (unat va div 4096) + (va AND mask 12)) = unat va"
    using unat_bounds(3) [of va] by (subst unat_plus_u64) (simp_all add: and_low unat_take_bit_word)
  then show ?thesis unfolding k by (simp add: word_unat_eq_iff)
qed

text \<open>
  C31: guest mapping is correct. When \<^verbatim>\<open>arch_guest_map\<close> succeeds, with 4K pages or 2M blocks, the software walk
  translates every address of the range to the physical address at the same distance, every other guest address
  translates exactly as before, and the tables still form a tree: a guest can reach no frame that was not mapped for it.
\<close>

theorem guest_map_translates:
  assumes inv: "tree_inv R s" and st: "arch_guest_map start fin physical flags s = Inr (0, s')"
    and r: "start < fin" "0 < physical" and fl: "flags AND VM_HUGE_1G_F = 0"
  shows "\<exists>R'. tree_inv R' s' \<and> (\<forall>va. unat va < 2 ^ 40 \<longrightarrow>
     stage2_ipa_to_pa s' va = (if start \<le> va \<and> va < fin then (0, physical + (va - start)) else stage2_ipa_to_pa s va))"
proof -
  define a where "a = unat start div 4096"
  define b where "b = unat fin div 4096"
  define \<delta> where "\<delta> = physical - start"
  have g: "start < VMM_VIRT_MAX" "fin \<le> VMM_VIRT_MAX" "physical < S2_PHYSICAL_MAX" "IS_PAGE_ALIGN start" "IS_PAGE_ALIGN fin" "IS_PAGE_ALIGN physical"
    and m: "map_puds (stage2_pud_index start) start fin physical flags s = Inr (0, s')"
    using st r by (auto simp: arch_guest_map_def stage2_map_pud_range_def split: if_splits)
  have u: "unat start < 2 ^ 40" "unat fin \<le> 2 ^ 40" "unat physical < 2 ^ 40" using g by (simp_all add: word_less_nat_alt word_le_nat_alt)
  have sa: "start = page a" "unat start = a * 4096" and sb: "fin = page b" "unat fin = b * 4096"
    and sp: "unat physical = unat physical div 4096 * 4096"
    using aligned_page [of start] aligned_page [of fin] aligned_page [of physical] g u unfolding a_def b_def by simp_all
  have ab: "a < b" "b \<le> 2 ^ 28" using r(1) sa(2) sb(2) u by (simp_all add: word_less_nat_alt)
  have un: "unat (page n + \<delta>) = unat physical + (n - a) * 4096" if "a \<le> n" "n < b" for n
  proof -
    have "page n + \<delta> = physical + page (n - a)" using page_diff [OF that(1)] by (simp add: \<delta>_def sa(1))
    moreover have "n - a \<le> 2 ^ 28" using that ab by simp
    ultimately show ?thesis using unat_page [of "n - a"] u by (simp add: unat_plus_u64)
  qed
  have ok: "frames_ok a b \<delta>" unfolding frames_ok_def
  proof (intro allI impI)
    fix n assume n: "a \<le> n" "n < b"
    have "4096 dvd unat physical + (n - a) * 4096" using sp by (metis dvd_add dvd_triv_right)
    moreover have "(n - a) * 4096 \<le> 2 ^ 40" using n ab by simp
    ultimately have "frame_addr (page n + \<delta>)" using un [OF n] u by (intro frame_addrI) simp_all
    moreover have "unat (page n + \<delta>) \<noteq> 0" using un [OF n] r(2) by (simp add: word_less_nat_alt)
    ultimately show "frame_addr (page n + \<delta>) \<and> page n + \<delta> \<noteq> 0" by auto
  qed
  have "physical = page a + \<delta>" by (simp add: \<delta>_def sa(1))
  moreover have "stage2_pud_index start = a div 2 ^ 18" using index_page [of a] ab sa(1) by simp
  ultimately have "map_puds (a div 2 ^ 18) (page a) (page b) (page a + \<delta>) flags s = Inr (0, s')" using m sa(1) sb(1) by metis
  from map_puds_ok [OF inv ab ok fl this] obtain R' where R': "tree_inv R' s'" "frame s' = over a b \<delta> (frame s)" unfolding mapped_def by blast
  have "stage2_ipa_to_pa s' va = (if start \<le> va \<and> va < fin then (0, physical + (va - start)) else stage2_ipa_to_pa s va)" if va: "unat va < 2 ^ 40" for va
  proof -
    let ?n = "unat va div 4096"
    have "start \<le> va \<and> va < fin \<longleftrightarrow> a \<le> ?n \<and> ?n < b" unfolding word_le_nat_alt word_less_nat_alt sa(2) sb(2)
      by (simp add: less_eq_div_iff_mult_less_eq div_less_iff_less_mult)
    moreover have "page ?n + \<delta> + (va AND 0xfff) = physical + (va - start)" unfolding \<delta>_def by (subst (3) addr_split [OF va]) simp
    ultimately show ?thesis unfolding ipa_to_pa_frame [OF va] R'(2) over_def by simp
  qed
  then show ?thesis using R'(1) by blast
qed

text \<open>The tables of a fresh guest: an empty top table of two pages.\<close>

definition demo_stage2 :: stage2 where
  "demo_stage2 = \<lparr>tables = (\<lambda>_ _. 0), pgdp = 0x90000, pool = \<lparr>slab_base = 0x10000, page_base = 0x80000, headers = (\<lambda>_. None),
     slab_hash_table = replicate HASH_TABLE_SIZE [], free_page_head = [],
     used_page_head = [\<lparr>page_at = 0x10010, pfn = 0x90, page_flags = 0, page_align = 2, page_cnt = 2\<rparr>]\<rparr>\<rparr>"

lemma demo_stage2_inv: "tree_inv [0x90000 \<mapsto> Pgd] demo_stage2"
  by (auto simp: tree_inv_def demo_stage2_def page_inv_def given_pages_def page_addr_def pages_at_def)

theorem guest_map_translates_witness:
  "\<exists>s'. arch_guest_map 0x200000 0x202000 0x80000000 VM_RW_F demo_stage2 = Inr (0, s') \<and>
     stage2_ipa_to_pa s' 0x201234 = (0, 0x80001234) \<and> stage2_ipa_to_pa s' 0x202000 = (- EFAULT, 0)"
proof -
  let ?r = "arch_guest_map 0x200000 0x202000 0x80000000 VM_RW_F demo_stage2"
  have "\<not> isl ?r \<and> fst (projr ?r) = 0" by code_simp
  then obtain s' where s': "?r = Inr (0, s')" by (cases ?r) auto
  have "stage2_ipa_to_pa demo_stage2 0x202000 = (- EFAULT, 0)" by code_simp
  then show ?thesis using guest_map_translates [OF demo_stage2_inv s'] s' by auto
qed

end
