(* ===== verification/Stage2_Unmap.thy ===== *)
theory Stage2_Unmap
  imports Stage2_Props
begin

text \<open>
  Unmapping guest memory. Within one gigabyte \<^verbatim>\<open>arch_guest_unmap\<close> removes the range from the translation; a 2M block
  that the range touches disappears as a whole. Across a gigabyte boundary it starts at the wrong entry of the top
  table.
\<close>

unbundle bit_operations_syntax

section \<open>One slot\<close>

text \<open>Whether the page is mapped by a 2M block.\<close>

definition block_mapped :: "stage2 \<Rightarrow> nat \<Rightarrow> bool" where
  "block_mapped s n \<longleftrightarrow> (let d = tables s (pgdp s) (n div 2 ^ 18) in
     d \<noteq> 0 \<and> stage2_xxx_huge (tables s (stage2_table_addr d) (n div 512 mod 512)))"

lemma block_other_slot:
  assumes inv: "tree_inv R s" and o: "only_slot R i j s s'" and n: "(n div 2 ^ 18, n div 512 mod 512) \<noteq> (i, j)"
  shows "block_mapped s' n = block_mapped s n"
proof (cases "tables s (pgdp s) (n div 2 ^ 18) = 0")
  case False
  then have "R (stage2_table_addr (tables s (pgdp s) (n div 2 ^ 18))) = Some (Pmd (n div 2 ^ 18))" by (rule tree_invD(4) [OF inv])
  then show ?thesis using o n by (simp add: block_mapped_def only_slot_def Let_def)
qed (use o in \<open>simp add: block_mapped_def only_slot_def Let_def\<close>)

text \<open>The pages from \<open>a\<close> up to \<open>b\<close> lie in the slots \<open>a div 512\<close> to \<open>(b - 1) div 512\<close>.\<close>

definition touches :: "nat \<Rightarrow> nat \<Rightarrow> nat \<Rightarrow> bool" where
  "touches a b n \<longleftrightarrow> a div 512 \<le> n div 512 \<and> n div 512 \<le> (b - 1) div 512"

definition gone :: "stage2 \<Rightarrow> nat \<Rightarrow> nat \<Rightarrow> nat \<Rightarrow> bool" where
  "gone s a b n \<longleftrightarrow> a \<le> n \<and> n < b \<or> block_mapped s n \<and> touches a b n"

definition unmapped :: "(u64 \<rightharpoonup> role) \<Rightarrow> stage2 \<Rightarrow> nat \<Rightarrow> nat \<Rightarrow> stage2 \<Rightarrow> bool" where
  "unmapped R s a b s' \<longleftrightarrow> (\<exists>R'. tree_inv R' s' \<and> pgdp s' = pgdp s \<and> (\<forall>n. frame s' n = (if gone s a b n then None else frame s n)) \<and>
     (\<forall>n. \<not> touches a b n \<longrightarrow> block_mapped s' n = block_mapped s n) \<and> (\<forall>i t. linked R s i t \<longrightarrow> linked R' s' i t))"

lemma unmapped_trans:
  assumes 1: "unmapped R s a c s1" and 2: "\<And>R1. tree_inv R1 s1 \<Longrightarrow> (\<forall>i t. linked R s i t \<longrightarrow> linked R1 s1 i t) \<Longrightarrow> unmapped R1 s1 c b s2"
    and c: "a < c" "c < b" "512 dvd c"
  shows "unmapped R s a b s2"
proof -
  from 1 obtain R1 where r1: "tree_inv R1 s1" "pgdp s1 = pgdp s" "\<forall>n. frame s1 n = (if gone s a c n then None else frame s n)"
    "\<forall>n. \<not> touches a c n \<longrightarrow> block_mapped s1 n = block_mapped s n" "\<forall>i t. linked R s i t \<longrightarrow> linked R1 s1 i t" unfolding unmapped_def by blast
  from 2 [OF r1(1,5)] obtain R2 where r2: "tree_inv R2 s2" "pgdp s2 = pgdp s1" "\<forall>n. frame s2 n = (if gone s1 c b n then None else frame s1 n)"
    "\<forall>n. \<not> touches c b n \<longrightarrow> block_mapped s2 n = block_mapped s1 n" "\<forall>i t. linked R1 s1 i t \<longrightarrow> linked R2 s2 i t" unfolding unmapped_def by blast
  obtain k where k: "c = 512 * k" using c(3) by (elim dvdE)
  have k0: "0 < k" using c(1) k by simp
  have lo: "(c - 1) div 512 = k - 1" using k k0 by (cases k) auto
  have hi: "k \<le> (b - 1) div 512" using c(2) k by (simp add: less_eq_div_iff_mult_less_eq)
  have al: "a div 512 \<le> k - 1" using c(1) k div_le_mono [of a "c - 1" 512] lo by simp
  have cov: "touches a b n \<longleftrightarrow> touches a c n \<or> touches c b n" "\<not> (touches a c n \<and> touches c b n)" for n
    unfolding touches_def lo using k k0 hi al by auto
  have g: "gone s a b n \<longleftrightarrow> gone s a c n \<or> gone s1 c b n" for n
    using cov [of n] r1(4) c(1,2) unfolding gone_def by auto
  show ?thesis unfolding unmapped_def
  proof (intro exI [of _ R2] conjI allI impI)
    show "frame s2 n = (if gone s a b n then None else frame s n)" for n using r1(3) r2(3) g [of n] by simp
    show "block_mapped s2 n = block_mapped s n" if "\<not> touches a b n" for n using that cov(1) [of n] r1(4) r2(4) by simp
  qed (use r1 r2 in auto)
qed

text \<open>A step that changes only its slot: enough to look at the pages of that slot.\<close>

lemma unmapped_slotI:
  assumes inv: "tree_inv R s" and o: "only_slot R (a div 2 ^ 18) (a div 512 mod 512) s s'" and inv': "tree_inv R' s'"
    and c: "a < c" "c \<le> (a div 512 + 1) * 512" and l: "\<forall>i t. linked R s i t \<longrightarrow> linked R' s' i t"
    and here: "\<And>n. n div 512 = a div 512 \<Longrightarrow> frame s' n = (if a \<le> n \<and> n < c \<or> block_mapped s n then None else frame s n)"
  shows "unmapped R s a c s'"
proof -
  have "(c - 1) div 512 = a div 512" using slot_bounds(1) [OF c, of "c - 1"] c(1) by simp
  then have t: "touches a c n \<longleftrightarrow> n div 512 = a div 512" for n by (auto simp: touches_def)
  show ?thesis unfolding unmapped_def
  proof (intro exI [of _ R'] conjI allI impI)
    show "frame s' n = (if gone s a c n then None else frame s n)" for n
    proof (cases "n div 512 = a div 512")
      case True
      then show ?thesis using here [of n] by (simp add: gone_def t)
    next
      case False
      then have "\<not> (a \<le> n \<and> n < c)" using slot_bounds(1) [OF c, of n] by blast
      then show ?thesis using False frame_other_slot [OF inv o, of n] slot_eq [of n a] by (auto simp: gone_def t)
    qed
    show "block_mapped s' n = block_mapped s n" if "\<not> touches a c n" for n
      using that block_other_slot [OF inv o, of n] slot_eq [of n a] by (auto simp: t)
  qed (use inv' l o in \<open>auto simp: only_slot_def\<close>)
qed

lemma unmap_pte_ok:
  "a < b \<Longrightarrow> b \<le> 2 ^ 28 \<Longrightarrow> i + (b - a) \<le> 512 \<Longrightarrow>
   stage2_unmap_pte_range t i (page a) (page b) s =
     Inr (s\<lparr>tables := (tables s)(t := (\<lambda>k. if i \<le> k \<and> k < i + (b - a) then 0 else tables s t k))\<rparr>)"
proof (induction "b - a" arbitrary: a i s)
  case (Suc x)
  let ?s = "set_entry t i 0 s"
  have i: "\<not> 512 \<le> i" using Suc.prems by simp
  have z: "(if tables s t i \<noteq> 0 then set_entry t i 0 s else s) = ?s" by (auto simp: set_entry_def fun_upd_idem)
  show ?case
  proof (cases "Suc a = b")
    case True
    then have "(\<lambda>k. if i \<le> k \<and> k < i + (b - a) then 0 else tables s t k) = (tables s t)(i := 0)" by (auto simp: fun_eq_iff)
    moreover have "stage2_unmap_pte_range t i (page a) (page b) s = Inr ?s"
      using i True z by (subst stage2_unmap_pte_range.simps) (simp add: Let_def page_Suc)
    ultimately show ?thesis by (simp only: set_entry_def)
  next
    case False
    have ne: "page (Suc a) \<noteq> page b" using page_eq [of "Suc a" b] False Suc.prems by simp
    have "stage2_unmap_pte_range t i (page a) (page b) s = stage2_unmap_pte_range t (Suc i) (page (Suc a)) (page b) ?s"
      using i ne z by (subst stage2_unmap_pte_range.simps) (simp add: Let_def page_Suc)
    also have "\<dots> = Inr (?s\<lparr>tables := (tables ?s)(t := (\<lambda>k. if Suc i \<le> k \<and> k < Suc i + (b - Suc a) then 0 else tables ?s t k))\<rparr>)"
      by (rule Suc.hyps(1)) (use Suc.hyps(2) Suc.prems False in auto)
    also have "\<dots> = Inr (s\<lparr>tables := (tables s)(t := (\<lambda>k. if i \<le> k \<and> k < i + (b - a) then 0 else tables s t k))\<rparr>)"
    proof -
      have "(if Suc i \<le> k \<and> k < Suc i + (b - Suc a) then 0 else tables ?s t k) =
          (if i \<le> k \<and> k < i + (b - a) then 0 else tables s t k)" for k
        using Suc.prems False by (cases "k = i") auto
      then show ?thesis by (simp add: set_entry_def fun_eq_iff)
    qed
    finally show ?thesis .
  qed
qed simp

text \<open>One round of the loop over a middle table.\<close>

definition unmap_slot :: "u64 \<Rightarrow> nat \<Rightarrow> u64 \<Rightarrow> u64 \<Rightarrow> stage2 \<Rightarrow> stage2 res" where
  "unmap_slot t i addr nxt s =
     (let d = tables s t i in
      if d = 0 then Inr s
      else if stage2_xxx_huge d then Inr (set_entry t i 0 s)
      else let p = stage2_table_addr d in
        thenR (stage2_unmap_pte_range p (stage2_pte_index addr) addr nxt s)
          (\<lambda>s. if is_pmd_range addr nxt then drop_table t i p s else Inr s))"

lemma unmap_pmd_unfold:
  "stage2_unmap_pmd_range t i addr fin s =
     (if 512 \<le> i then Inl Out_Of_Bounds
      else let nxt = stage2_xxx_addr_end addr fin S2_PMD_SIZE in
        thenR (unmap_slot t i addr nxt s) (\<lambda>s. if nxt \<noteq> fin then stage2_unmap_pmd_range t (Suc i) nxt fin s else Inr s))"
  by (subst stage2_unmap_pmd_range.simps) (simp only: unmap_slot_def Let_def)

lemma pmd_range_pages:
  assumes "is_pmd_range (page a) (page c)" "a < c" "c \<le> 2 ^ 28"
  shows "a mod 512 = 0" "c = a + 512"
proof -
  have "512 dvd a" using assms block_align_page [of a] by (simp add: is_pmd_range_def IS_BLOCK_ALIGN_def)
  then show "a mod 512 = 0" by simp
  have "page (c - a) = page 512" using assms page_diff [of a c] by (simp add: is_pmd_range_def page_def)
  then show "c = a + 512" using page_eq [of "c - a" 512] assms by simp
qed

text \<open>Clearing an entry of a middle table, with its block or its table.\<close>

lemma clear_slot:
  assumes inv: "tree_inv R s" and l: "linked R s (a div 2 ^ 18) t" and s': "s' = set_entry t (a div 512 mod 512) 0 s"
  shows "tree_inv R s'" "only_slot R (a div 2 ^ 18) (a div 512 mod 512) s s'" "linked R s i u \<longrightarrow> linked R s' i u"
    "n div 512 = a div 512 \<Longrightarrow> frame s' n = None"
proof -
  have t: "R t = Some (Pmd (a div 2 ^ 18))" using l by (simp add: linked_def)
  have ne: "t \<noteq> pgdp s" using t tree_invD(2) [OF inv] by auto
  show "tree_inv R s'" using inv ne unfolding tree_inv_def s' by auto
  show "only_slot R (a div 2 ^ 18) (a div 512 mod 512) s s'" using ne t by (auto simp: only_slot_def s')
  show "linked R s i u \<longrightarrow> linked R s' i u" using ne by (auto simp: linked_def s')
  show "frame s' n = None" if "n div 512 = a div 512"
  proof -
    have "n div 2 ^ 18 = a div 2 ^ 18" "n div 512 mod 512 = a div 512 mod 512" using slot_eq [of n a] that by auto
    then show ?thesis using l ne by (simp add: frame_def pmd_frame_def Let_def linked_def s')
  qed
qed

lemma clear_ptes:
  assumes inv: "tree_inv R s" and l: "linked R s (a div 2 ^ 18) t"
    and d: "tables s t (a div 512 mod 512) \<noteq> 0" "\<not> stage2_xxx_huge (tables s t (a div 512 mod 512))"
    and p: "p = stage2_table_addr (tables s t (a div 512 mod 512))" and c: "a < c" "c \<le> (a div 512 + 1) * 512"
    and s': "s' = s\<lparr>tables := (tables s)(p := (\<lambda>k. if a mod 512 \<le> k \<and> k < a mod 512 + (c - a) then 0 else tables s p k))\<rparr>"
  shows "tree_inv R s'" "only_slot R (a div 2 ^ 18) (a div 512 mod 512) s s'" "linked R s i u \<longrightarrow> linked R s' i u"
    "R p = Some (Pte (a div 2 ^ 18) (a div 512 mod 512))" "tables s' t = tables s t"
    "n div 512 = a div 512 \<Longrightarrow> \<not> block_mapped s n \<and> frame s' n = (if a \<le> n \<and> n < c then None else frame s n)"
proof -
  let ?i = "a div 2 ^ 18" and ?j = "a div 512 mod 512"
  have t: "R t = Some (Pmd ?i)" using l by (simp add: linked_def)
  show rp: "R p = Some (Pte ?i ?j)" using tree_invD(5) [OF inv t d] p by simp
  have ne: "p \<noteq> pgdp s" "p \<noteq> t" and np: "\<And>u i'. R u = Some (Pmd i') \<Longrightarrow> u \<noteq> p" using rp t tree_invD(2) [OF inv] by auto
  show "tree_inv R s'" using inv ne np unfolding tree_inv_def s' by auto
  show "only_slot R ?i ?j s s'" using ne np rp by (auto simp: only_slot_def s')
  show "linked R s i u \<longrightarrow> linked R s' i u" "tables s' t = tables s t" using ne by (auto simp: linked_def s')
  show "\<not> block_mapped s n \<and> frame s' n = (if a \<le> n \<and> n < c then None else frame s n)" if n: "n div 512 = a div 512"
  proof -
    have ij: "n div 2 ^ 18 = ?i" "n div 512 mod 512 = ?j" using slot_eq [of n a] n by auto
    have fr: "frame s' n = (let f = tables s' p (n mod 512) AND S2_PHYSICAL_MASK in if f = 0 then None else Some f)"
      "frame s n = (let f = tables s p (n mod 512) AND S2_PHYSICAL_MASK in if f = 0 then None else Some f)"
      using l d ne p unfolding frame_def pmd_frame_def ij by (simp_all add: Let_def linked_def s')
    have "n = n div 512 * 512 + n mod 512" "a = a div 512 * 512 + a mod 512" by simp_all
    then have r: "a mod 512 \<le> n mod 512 \<and> n mod 512 < a mod 512 + (c - a) \<longleftrightarrow> a \<le> n \<and> n < c" using n c by linarith
    have "tables s' p (n mod 512) = (if a \<le> n \<and> n < c then 0 else tables s p (n mod 512))" using r by (simp add: s')
    moreover have "\<not> block_mapped s n" using l d unfolding block_mapped_def ij by (simp add: Let_def linked_def)
    ultimately show ?thesis using fr by simp
  qed
qed

text \<open>A table of pages that is given back loses its role, as does every other claim to the middle table.\<close>

definition dropped :: "(u64 \<rightharpoonup> role) \<Rightarrow> u64 \<Rightarrow> nat \<Rightarrow> u64 \<Rightarrow> u64 \<rightharpoonup> role" where
  "dropped R t i p = (\<lambda>x. if x = p \<or> x \<noteq> t \<and> R x = Some (Pmd i) then None else R x)"

lemma drop_pte_table:
  assumes inv: "tree_inv R s" and l: "linked R s (a div 2 ^ 18) t"
    and d: "tables s t (a div 512 mod 512) \<noteq> 0" "\<not> stage2_xxx_huge (tables s t (a div 512 mod 512))"
    and p: "p = stage2_table_addr (tables s t (a div 512 mod 512))"
  obtains m where "drop_table t (a div 512 mod 512) p s = Inr (set_entry t (a div 512 mod 512) 0 s\<lparr>pool := m\<rparr>)"
    "tree_inv (dropped R t (a div 2 ^ 18) p) (set_entry t (a div 512 mod 512) 0 s\<lparr>pool := m\<rparr>)"
    "\<And>i u. linked R s i u \<Longrightarrow> linked (dropped R t (a div 2 ^ 18) p) (set_entry t (a div 512 mod 512) 0 s\<lparr>pool := m\<rparr>) i u"
proof -
  let ?i = "a div 2 ^ 18" and ?j = "a div 512 mod 512"
  let ?R = "dropped R t ?i p"
  have t: "R t = Some (Pmd ?i)" "tables s (pgdp s) ?i \<noteq> 0" "stage2_table_addr (tables s (pgdp s) ?i) = t" using l by (simp_all add: linked_def)
  have rp: "R p = Some (Pte ?i ?j)" using tree_invD(5) [OF inv t(1) d] p by simp
  then obtain m where m: "free_pages p (pool s) = Inr m" "page_inv m" "given_pages m = given_pages (pool s) - {p}"
    using pg.put [OF tree_invD(1) [OF inv], of p] tree_invD(3) [OF inv, of p] by auto
  let ?s = "set_entry t ?j 0 s\<lparr>pool := m\<rparr>"
  have ne: "t \<noteq> pgdp s" "p \<noteq> pgdp s" "p \<noteq> t" using t rp tree_invD(2) [OF inv] by auto
  have pmd: "?R (stage2_table_addr (tables s (pgdp s) k)) = Some (Pmd k)" if "tables s (pgdp s) k \<noteq> 0" for k
    using tree_invD(4) [OF inv that] rp t by (auto simp: dropped_def)
  have "tree_inv ?R ?s" unfolding tree_inv_def
  proof (intro conjI allI impI)
    show "b \<in> given_pages (pool ?s)" if "?R b \<noteq> None" for b
      using that tree_invD(3) [OF inv, of b] m(3) by (auto simp: dropped_def split: if_splits)
    show "?R (stage2_table_addr (tables ?s (pgdp ?s) k)) = Some (Pmd k)" if "tables ?s (pgdp ?s) k \<noteq> 0" for k
      using that ne pmd [of k] by simp
    show "?R (stage2_table_addr (tables ?s u k)) = Some (Pte i' k)"
      if "?R u = Some (Pmd i')" "tables ?s u k \<noteq> 0" "\<not> stage2_xxx_huge (tables ?s u k)" for u i' k
    proof -
      have u: "R u = Some (Pmd i')" "u = t \<or> i' \<noteq> ?i" using that(1) by (auto simp: dropped_def split: if_splits)
      have k: "\<not> (u = t \<and> k = ?j)" using that(2) by auto
      then have r: "R (stage2_table_addr (tables s u k)) = Some (Pte i' k)" using that tree_invD(5) [OF inv u(1), of k] by auto
      then have "stage2_table_addr (tables s u k) \<noteq> p" using rp u k by auto
      then show ?thesis using k r by (auto simp: dropped_def)
    qed
  qed (use ne m tree_invD(2) [OF inv] in \<open>auto simp: dropped_def\<close>)
  moreover have "linked ?R ?s i u" if "linked R s i u" for i u using that ne pmd [of i] by (auto simp: linked_def)
  moreover have "drop_table t ?j p s = Inr ?s" using m(1) by (simp add: drop_table_def)
  ultimately show ?thesis using that by blast
qed

lemma unmap_slot_ok:
  assumes inv: "tree_inv R s" and l: "linked R s (a div 2 ^ 18) t" and c: "a < c" "c \<le> (a div 512 + 1) * 512" "c \<le> 2 ^ 28"
  shows "\<exists>s'. unmap_slot t (a div 512 mod 512) (page a) (page c) s = Inr s' \<and> unmapped R s a c s'"
proof -
  let ?j = "a div 512 mod 512" and ?d = "tables s t (a div 512 mod 512)"
  have ij: "n div 2 ^ 18 = a div 2 ^ 18" "n div 512 mod 512 = ?j" if "n div 512 = a div 512" for n using slot_eq [of n a] that by auto
  have bm: "block_mapped s n \<longleftrightarrow> stage2_xxx_huge ?d" if "n div 512 = a div 512" for n
    using l unfolding block_mapped_def ij [OF that] by (simp add: linked_def Let_def)
  consider "?d = 0" | "?d \<noteq> 0" "stage2_xxx_huge ?d" | "?d \<noteq> 0" "\<not> stage2_xxx_huge ?d" by blast
  then show ?thesis
  proof cases
    case 1
    have "frame s n = None" if "n div 512 = a div 512" for n
      using 1 l unfolding frame_def pmd_frame_def ij [OF that] by (simp add: linked_def Let_def)
    then have "unmapped R s a c s" by (intro unmapped_slotI [OF inv _ inv c(1,2)]) (auto simp: only_slot_def)
    then show ?thesis using 1 by (simp add: unmap_slot_def Let_def)
  next
    case 2
    note cs = clear_slot [OF inv l refl]
    have "unmapped R s a c (set_entry t ?j 0 s)" using cs(3,4) bm 2(2) by (intro unmapped_slotI [OF inv cs(2,1) c(1,2)]) auto
    then show ?thesis using 2 by (simp add: unmap_slot_def Let_def)
  next
    case 3
    define p where "p = stage2_table_addr ?d"
    define s1 where "s1 = s\<lparr>tables := (tables s)(p := (\<lambda>k. if a mod 512 \<le> k \<and> k < a mod 512 + (c - a) then 0 else tables s p k))\<rparr>"
    note cp = clear_ptes [OF inv l 3 p_def c(1,2) s1_def]
    have "c \<le> a div 512 * 512 + 512" using c(2) by simp
    then have sb: "a mod 512 + (c - a) \<le> 512" using c(1) div_mult_mod_eq [of a 512] by linarith
    have "stage2_pte_index (page a) = a mod 512" using index_page [of a] c by simp
    then have ptes: "stage2_unmap_pte_range p (stage2_pte_index (page a)) (page a) (page c) s = Inr s1"
      using unmap_pte_ok [OF c(1,3) sb, of p s] by (simp add: s1_def)
    show ?thesis
    proof (cases "is_pmd_range (page a) (page c)")
      case True
      note full = pmd_range_pages [OF True c(1,3)]
      have l1: "linked R s1 (a div 2 ^ 18) t" using cp(3) l by blast
      have d1: "tables s1 t ?j \<noteq> 0" "\<not> stage2_xxx_huge (tables s1 t ?j)" "p = stage2_table_addr (tables s1 t ?j)" using 3 cp(5) p_def by simp_all
      obtain m where m: "drop_table t ?j p s1 = Inr (set_entry t ?j 0 s1\<lparr>pool := m\<rparr>)"
        "tree_inv (dropped R t (a div 2 ^ 18) p) (set_entry t ?j 0 s1\<lparr>pool := m\<rparr>)"
        "\<And>i u. linked R s1 i u \<Longrightarrow> linked (dropped R t (a div 2 ^ 18) p) (set_entry t ?j 0 s1\<lparr>pool := m\<rparr>) i u"
        using drop_pte_table [OF cp(1) l1 d1] by blast
      let ?s = "set_entry t ?j 0 s1\<lparr>pool := m\<rparr>"
      have fr: "frame ?s n = frame (set_entry t ?j 0 s1) n" for n by (simp add: frame_def pmd_frame_def Let_def)
      have o: "only_slot R (a div 2 ^ 18) ?j s ?s"
        using cp(2) clear_slot(2) [OF cp(1) l1 refl] unfolding only_slot_def by auto
      have here: "frame ?s n = (if a \<le> n \<and> n < c \<or> block_mapped s n then None else frame s n)" if n: "n div 512 = a div 512" for n
      proof -
        have "n = n div 512 * 512 + n mod 512" "a = a div 512 * 512 + a mod 512" "n mod 512 < 512" by simp_all
        then have "a \<le> n \<and> n < c" using n full by linarith
        then show ?thesis using clear_slot(4) [OF cp(1) l1 refl n] fr by simp
      qed
      have lk: "\<forall>i u. linked R s i u \<longrightarrow> linked (dropped R t (a div 2 ^ 18) p) ?s i u" using cp(3) m(3) by blast
      have "unmapped R s a c ?s" by (rule unmapped_slotI [OF inv o m(2) c(1,2) lk here])
      then show ?thesis using 3 ptes True m(1) by (simp add: unmap_slot_def Let_def p_def)
    next
      case False
      have "unmapped R s a c s1" using cp(3,6) by (intro unmapped_slotI [OF inv cp(2,1) c(1,2)]) auto
      then show ?thesis using 3 ptes False by (simp add: unmap_slot_def Let_def p_def)
    qed
  qed
qed

lemma unmap_pmd_ok:
  assumes "tree_inv R s" "linked R s (a div 2 ^ 18) t" "a < b" "b \<le> (a div 2 ^ 18 + 1) * 2 ^ 18" "b \<le> 2 ^ 28"
  shows "\<exists>s'. stage2_unmap_pmd_range t (a div 512 mod 512) (page a) (page b) s = Inr s' \<and> unmapped R s a b s'"
  using assms
proof (induction "b - a" arbitrary: a s R rule: less_induct)
  case less
  let ?j = "a div 512 mod 512"
  define c where "c = min ((a div 512 + 1) * 512) b"
  have c: "a < c" "c \<le> b" "c \<le> (a div 512 + 1) * 512" "c \<le> 2 ^ 28"
    using less.prems(3,5) div_mult_mod_eq [of a 512] mod_less_divisor [of 512 a] by (auto simp: c_def)
  have nx: "stage2_xxx_addr_end (page a) (page b) S2_PMD_SIZE = page c" using pmd_end [of a b] less.prems(3,5) by (simp add: c_def)
  obtain s1 where s1: "unmap_slot t ?j (page a) (page c) s = Inr s1" "unmapped R s a c s1"
    using unmap_slot_ok [OF less.prems(1,2) c(1,3,4)] by blast
  have step: "stage2_unmap_pmd_range t ?j (page a) (page b) s =
      (if page c \<noteq> page b then stage2_unmap_pmd_range t (Suc ?j) (page c) (page b) s1 else Inr s1)"
  proof -
    have "\<not> 512 \<le> ?j" using mod_less_divisor [of 512 "a div 512"] by linarith
    then show ?thesis unfolding unmap_pmd_unfold [of t ?j] Let_def nx s1(1) by simp
  qed
  show ?case
  proof (cases "c = b")
    case True
    then show ?thesis using step s1(2) by simp
  next
    case False
    then have cb: "c < b" "c = (a div 512 + 1) * 512" using c(2) by (auto simp: c_def min_def split: if_splits)
    note nxt = next_slot [OF c(1) cb(2) cb(1) less.prems(4)]
    have dec: "b - c < b - a" using c(1) cb(1) by simp
    have b18: "b \<le> (c div 2 ^ 18 + 1) * 2 ^ 18" using less.prems(4) nxt(1) by simp
    have ne: "page c \<noteq> page b" using cb(1) page_eq [of c b] c(4) less.prems(5) by simp
    have rec: "\<exists>s'. stage2_unmap_pmd_range t (Suc ?j) (page c) (page b) s1 = Inr s' \<and> unmapped R1 s1 c b s'"
      if r1: "tree_inv R1 s1" "\<forall>i t. linked R s i t \<longrightarrow> linked R1 s1 i t" for R1
      using less.hyps [OF dec r1(1) _ cb(1) b18 less.prems(5)] r1(2) less.prems(2) nxt by simp
    obtain R1 where "tree_inv R1 s1" "\<forall>i t. linked R s i t \<longrightarrow> linked R1 s1 i t" using s1(2) unfolding unmapped_def by blast
    from rec [OF this] obtain s' where s': "stage2_unmap_pmd_range t (Suc ?j) (page c) (page b) s1 = Inr s'" by blast
    have "unmapped R s a b s'"
    proof (rule unmapped_trans [OF s1(2) _ c(1) cb(1)])
      show "unmapped R1 s1 c b s'" if "tree_inv R1 s1" "\<forall>i t. linked R s i t \<longrightarrow> linked R1 s1 i t" for R1 using rec [OF that] s' by simp
    qed (simp add: cb(2))
    then show ?thesis using step s' ne by simp
  qed
qed

section \<open>Properties\<close>

lemma unmap_puds_ok:
  assumes inv: "tree_inv R s" and ab: "a < b" "b < 2 ^ 28" "b div 2 ^ 18 = a div 2 ^ 18"
  shows "\<exists>s'. unmap_puds (a div 2 ^ 18) (page a) (page b) s = Inr s' \<and> unmapped R s a b s'"
proof -
  let ?i = "a div 2 ^ 18" and ?t = "stage2_table_addr (tables s (pgdp s) (a div 2 ^ 18))"
  have "b = b div 2 ^ 18 * 2 ^ 18 + b mod 2 ^ 18" "b mod 2 ^ 18 < 2 ^ 18" "a = ?i * 2 ^ 18 + a mod 2 ^ 18" by simp_all
  then have le: "b < ?i * 2 ^ 18 + 2 ^ 18" "b - a < 2 ^ 18" unfolding ab(3) by linarith+
  then have le': "b \<le> (?i + 1) * 2 ^ 18" by simp
  have nx: "stage2_xxx_addr_end (page a) (page b) S2_PUD_SIZE = page b" using pud_end [of a b] ab(1,2) le(1) by (simp add: min_absorb2)
  have "page (b - a) \<noteq> page (2 ^ 18)" using page_eq [of "b - a" "2 ^ 18"] le(2) ab(2) by simp
  then have np: "\<not> is_pud_range (page a) (page b)" using page_diff [of a b] ab(1) by (simp add: is_pud_range_def page_def)
  have i: "\<not> 1024 \<le> ?i" using ab(1,2) by (simp add: not_le div_less_iff_less_mult)
  show ?thesis
  proof (cases "tables s (pgdp s) ?i = 0")
    case True
    have "frame s n = None" if "a \<le> n \<and> n < b" for n
    proof -
      have "n div 2 ^ 18 = ?i" using that div_le_mono [of a n "2 ^ 18"] div_le_mono [of n b "2 ^ 18"] ab(3) by simp
      then show ?thesis using True by (simp add: frame_def)
    qed
    moreover have "\<not> block_mapped s n" if t: "touches a b n" for n
    proof -
      have d18: "x div 2 ^ 18 = x div 512 div 512" for x :: nat by (simp flip: div_mult2_eq)
      have "?i \<le> n div 2 ^ 18" "n div 2 ^ 18 \<le> (b - 1) div 2 ^ 18" unfolding d18 using t by (auto simp: touches_def intro: div_le_mono)
      then have "n div 2 ^ 18 = ?i" using ab(3) div_le_mono [of "b - 1" b "2 ^ 18"] by simp
      then show ?thesis using True by (simp add: block_mapped_def)
    qed
    ultimately have "unmapped R s a b s" unfolding unmapped_def using inv by (intro exI [of _ R]) (auto simp: gone_def)
    then show ?thesis using True i nx by (subst unmap_puds.simps) (simp add: Let_def)
  next
    case False
    then have l: "linked R s ?i ?t" using tree_invD(4) [OF inv] by (simp add: linked_def)
    obtain s' where "stage2_unmap_pmd_range ?t (a div 512 mod 512) (page a) (page b) s = Inr s'" "unmapped R s a b s'"
      using unmap_pmd_ok [OF inv l ab(1) le'] ab(2) by auto
    moreover have "stage2_pmd_index (page a) = a div 512 mod 512" using index_page [of a] ab by simp
    ultimately show ?thesis using False i nx np by (subst unmap_puds.simps) (simp add: Let_def)
  qed
qed

text \<open>
  C32: unmapping within one gigabyte is complete and contained. \<^verbatim>\<open>arch_guest_unmap\<close> returns, no address of the range
  translates any more, the tables still form a tree and the tables that were given back are no longer part of it. Every
  other address translates as before, unless it lies in a 2M block that the range touches: such a block is removed as a
  whole.
\<close>

theorem guest_unmap_removes:
  assumes inv: "tree_inv R s" and r: "start < fin" "unat fin < 2 ^ 40" "IS_PAGE_ALIGN start" "IS_PAGE_ALIGN fin"
    and one: "stage2_pud_index start = stage2_pud_index fin"
  shows "\<exists>R' s'. arch_guest_unmap start fin s = Inr (0, s') \<and> tree_inv R' s' \<and> (\<forall>va. unat va < 2 ^ 40 \<longrightarrow>
     stage2_ipa_to_pa s' va =
       (if start \<le> va \<and> va < fin \<or> block_mapped s (unat va div 4096) \<and> touches (unat start div 4096) (unat fin div 4096) (unat va div 4096)
        then (- EFAULT, 0) else stage2_ipa_to_pa s va))"
proof -
  define a where "a = unat start div 4096"
  define b where "b = unat fin div 4096"
  have u: "unat start < 2 ^ 40" "unat fin \<le> 2 ^ 40" using r by (simp_all add: word_less_nat_alt)
  have sa: "start = page a" "unat start = a * 4096" and sb: "fin = page b" "unat fin = b * 4096"
    using aligned_page [of start] aligned_page [of fin] r u unfolding a_def b_def by simp_all
  have ab: "a < b" "b < 2 ^ 28" using r(1,2) sa(2) sb(2) by (simp_all add: word_less_nat_alt)
  have ix: "stage2_pud_index start = a div 2 ^ 18" "stage2_pud_index fin = b div 2 ^ 18" using index_page [of a] index_page [of b] ab sa(1) sb(1) by simp_all
  then have "b div 2 ^ 18 = a div 2 ^ 18" using one by simp
  from unmap_puds_ok [OF inv ab this] obtain s' R' where s': "unmap_puds (stage2_pud_index fin) start fin s = Inr s'" "tree_inv R' s'"
    and fr: "\<And>n. frame s' n = (if gone s a b n then None else frame s n)" unfolding unmapped_def sa(1) [symmetric] sb(1) [symmetric] ix [symmetric] one by blast
  have "start < VMM_VIRT_MAX" "fin \<le> VMM_VIRT_MAX" using u by (simp_all add: word_less_nat_alt word_le_nat_alt)
  then have "arch_guest_unmap start fin s = Inr (0, s')" using s'(1) r(1) by (auto simp: arch_guest_unmap_def stage2_unmap_pud_range_def)
  moreover have "stage2_ipa_to_pa s' va = (if start \<le> va \<and> va < fin \<or> block_mapped s (unat va div 4096) \<and> touches a b (unat va div 4096)
      then (- EFAULT, 0) else stage2_ipa_to_pa s va)" if va: "unat va < 2 ^ 40" for va
  proof -
    have "start \<le> va \<and> va < fin \<longleftrightarrow> a \<le> unat va div 4096 \<and> unat va div 4096 < b" unfolding word_le_nat_alt word_less_nat_alt sa(2) sb(2)
      by (simp add: less_eq_div_iff_mult_less_eq div_less_iff_less_mult)
    then show ?thesis unfolding ipa_to_pa_frame [OF va] fr gone_def by simp
  qed
  ultimately show ?thesis using s'(2) unfolding a_def b_def by blast
qed

text \<open>
  C33: unmapping up to a gigabyte boundary does nothing. \<^verbatim>\<open>stage2_unmap_pud_range\<close> starts at the entry of the end of the
  range. When the next gigabyte has no table, \<^verbatim>\<open>arch_guest_unmap\<close> reports success and changes nothing: the guest
  keeps its access to the whole range.
\<close>

theorem guest_unmap_gigabyte_ineffective:
  assumes a: "a div 2 ^ 18 = k" "k < 1023" and z: "tables s (pgdp s) (Suc k) = 0"
  shows "arch_guest_unmap (page a) (page (Suc k * 2 ^ 18)) s = Inr (0, s)"
proof -
  let ?b = "Suc k * 2 ^ 18"
  have "a = a div 2 ^ 18 * 2 ^ 18 + a mod 2 ^ 18" "a mod 2 ^ 18 < 2 ^ 18" by simp_all
  then have "a < k * 2 ^ 18 + 2 ^ 18" unfolding a(1) by linarith
  then have ab: "a < ?b" "?b < 2 ^ 28" using a(2) by simp_all
  have nx: "stage2_xxx_addr_end (page a) (page ?b) S2_PUD_SIZE = page ?b" using pud_end [of a ?b] ab a(1) by simp
  have ne: "page ?b \<noteq> page a" using page_eq [of ?b a] ab by simp
  have "stage2_pud_index (page ?b) = Suc k" using index_page(1) [of ?b] ab by simp
  moreover have "unmap_puds (Suc k) (page a) (page ?b) s = Inr s" using z a(2) nx by (subst unmap_puds.simps) (simp add: Let_def)
  moreover have "page a < VMM_VIRT_MAX" "page ?b \<le> VMM_VIRT_MAX" using ab unat_page [of a] unat_page [of ?b] by (simp_all add: word_less_nat_alt word_le_nat_alt)
  ultimately show ?thesis using ne by (simp add: arch_guest_unmap_def stage2_unmap_pud_range_def)
qed

text \<open>A guest with two pages mapped.\<close>

definition demo_mapped :: stage2 where
  "demo_mapped = \<lparr>tables = (\<lambda>_ _. 0)(0x90000 := (\<lambda>_. 0)(0 := 0x7f003), 0x7f000 := (\<lambda>_. 0)(1 := 0x7e003),
       0x7e000 := (\<lambda>_. 0)(0 := 0x800007ff, 1 := 0x800017ff)), pgdp = 0x90000,
     pool = \<lparr>slab_base = 0x10000, page_base = 0x7e000, headers = (\<lambda>_. None), slab_hash_table = replicate HASH_TABLE_SIZE [], free_page_head = [],
       used_page_head = [\<lparr>page_at = 0x10050, pfn = 0x7e, page_flags = 0, page_align = 1, page_cnt = 1\<rparr>,
         \<lparr>page_at = 0x10030, pfn = 0x7f, page_flags = 0, page_align = 1, page_cnt = 1\<rparr>,
         \<lparr>page_at = 0x10010, pfn = 0x90, page_flags = 0, page_align = 2, page_cnt = 2\<rparr>]\<rparr>\<rparr>"

lemma demo_mapped_inv: "tree_inv [0x90000 \<mapsto> Pgd, 0x7f000 \<mapsto> Pmd 0, 0x7e000 \<mapsto> Pte 0 1] demo_mapped"
proof -
  have "page_inv (pool demo_mapped)" by (auto simp: demo_mapped_def page_inv_def pages_at_def page_range_def)
  moreover have "given_pages (pool demo_mapped) = {0x90000, 0x7f000, 0x7e000}" by (auto simp: demo_mapped_def given_pages_def page_addr_def)
  moreover have "stage2_table_addr 0x7f003 = 0x7f000" "stage2_table_addr 0x7e003 = 0x7e000" by (simp_all add: stage2_table_addr_def)
  moreover have "tables demo_mapped 0x90000 i = (if i = 0 then 0x7f003 else 0)" "tables demo_mapped 0x7f000 i = (if i = 1 then 0x7e003 else 0)"
    "pgdp demo_mapped = 0x90000" for i by (simp_all add: demo_mapped_def)
  ultimately show ?thesis unfolding tree_inv_def by (auto split: if_splits)
qed

theorem guest_unmap_removes_witness:
  "\<exists>s'. arch_guest_unmap 0x200000 0x201000 demo_mapped = Inr (0, s') \<and> stage2_ipa_to_pa demo_mapped 0x200010 = (0, 0x80000010) \<and>
     stage2_ipa_to_pa s' 0x200010 = (- EFAULT, 0) \<and> stage2_ipa_to_pa s' 0x201010 = (0, 0x80001010)"
proof -
  have v: "stage2_ipa_to_pa demo_mapped 0x200010 = (0, 0x80000010)" "stage2_ipa_to_pa demo_mapped 0x201010 = (0, 0x80001010)"
    by code_simp+
  have b: "\<not> block_mapped demo_mapped 0x201" by (simp add: block_mapped_def demo_mapped_def stage2_table_addr_def stage2_xxx_huge_def)
  obtain s' where "arch_guest_unmap 0x200000 0x201000 demo_mapped = Inr (0, s')" "\<forall>va. unat va < 2 ^ 40 \<longrightarrow> stage2_ipa_to_pa s' va =
       (if 0x200000 \<le> va \<and> va < 0x201000 \<or> block_mapped demo_mapped (unat va div 4096) \<and> touches 0x200 0x201 (unat va div 4096)
        then (- EFAULT, 0) else stage2_ipa_to_pa demo_mapped va)"
    using guest_unmap_removes [OF demo_mapped_inv, of "0x200000" "0x201000"] by (auto simp: IS_PAGE_ALIGN_def stage2_pud_index_def)
  then show ?thesis using v b by simp
qed

theorem guest_unmap_gigabyte_ineffective_witness:
  "\<exists>s. arch_guest_map 0x200000 0x202000 0x80000000 VM_RW_F demo_stage2 = Inr (0, s) \<and>
     arch_guest_unmap 0x200000 0x40000000 s = Inr (0, s) \<and> stage2_ipa_to_pa s 0x200010 = (0, 0x80000010)"
proof -
  let ?r = "arch_guest_map 0x200000 0x202000 0x80000000 VM_RW_F demo_stage2"
  have v: "\<not> isl ?r \<and> fst (projr ?r) = 0" "tables (snd (projr ?r)) (pgdp (snd (projr ?r))) (Suc 0) = 0"
    "stage2_ipa_to_pa (snd (projr ?r)) 0x200010 = (0, 0x80000010)" by code_simp+
  then obtain s where s: "?r = Inr (0, s)" by (cases ?r) auto
  have "arch_guest_unmap (page 0x200) (page (Suc 0 * 2 ^ 18)) s = Inr (0, s)" by (rule guest_unmap_gigabyte_ineffective) (use v s in simp_all)
  then show ?thesis using s v(3) by (simp add: page_def)
qed

end
