(* ===== verification/Virq.thy ===== *)
theory Virq
  imports Bitmap Kernel
begin

text \<open>
  Virtual interrupts (\<^verbatim>\<open>virt/virq.c\<close>, \<^verbatim>\<open>include/virt/virq.h\<close>, \<^verbatim>\<open>virt/virq_chips/virq_chip.c\<close>): the descriptors of the
  virtual interrupts of every VM, the pending and active bitmaps of every virtual CPU, requesting, sending and
  acknowledging. A descriptor is shared by pointer, so the model has pointers to descriptors. Calls that leave this
  component (the physical interrupt controller, waking the task of a virtual CPU) are appended to a list of calls. The
  list-register operations that a \<^verbatim>\<open>virq_chip\<close> holds as function pointers are those of \<^verbatim>\<open>vgicv2.c\<close>, or NULL. The locks
  have no counterpart: an operation is one step.
\<close>

unbundle bit_operations_syntax

section \<open>State\<close>

abbreviation (input) VM_SGI_VIRQ_NR :: nat where "VM_SGI_VIRQ_NR \<equiv> 16"
abbreviation (input) VM_LOCAL_VIRQ_NR :: nat where "VM_LOCAL_VIRQ_NR \<equiv> 32"
abbreviation (input) MAX_HVM_VIRQ :: nat where "MAX_HVM_VIRQ \<equiv> 416"
abbreviation (input) MAX_GVM_VIRQ :: nat where "MAX_GVM_VIRQ \<equiv> 96"
abbreviation (input) MAX_VM :: nat where "MAX_VM \<equiv> 64"
abbreviation (input) BAD_IRQ :: nat where "BAD_IRQ \<equiv> 1023"

abbreviation (input) VIRQS_NEED_EXPORT :: u32 where "VIRQS_NEED_EXPORT \<equiv> 1"
abbreviation (input) VIRQS_ENABLED :: u32 where "VIRQS_ENABLED \<equiv> 2"
abbreviation (input) VIRQS_SUSPEND :: u32 where "VIRQS_SUSPEND \<equiv> 4"
abbreviation (input) VIRQS_HW :: u32 where "VIRQS_HW \<equiv> 8"
abbreviation (input) VIRQS_CAN_WAKEUP :: u32 where "VIRQS_CAN_WAKEUP \<equiv> 0x10"
abbreviation (input) VIRQS_REQUESTED :: u32 where "VIRQS_REQUESTED \<equiv> 0x40"
abbreviation (input) VIRQS_FIQ :: u32 where "VIRQS_FIQ \<equiv> 0x80"
abbreviation (input) FIQ_HAS_INJECT :: u32 where "FIQ_HAS_INJECT \<equiv> 0x80000000"

abbreviation (input) VIRQ_STATE_INACTIVE :: u8 where "VIRQ_STATE_INACTIVE \<equiv> 0"
abbreviation (input) VIRQ_STATE_PENDING :: u8 where "VIRQ_STATE_PENDING \<equiv> 1"
abbreviation (input) VIRQ_STATE_ACTIVE :: u8 where "VIRQ_STATE_ACTIVE \<equiv> 2"
abbreviation (input) VIRQ_INVALID_ID :: u8 where "VIRQ_INVALID_ID \<equiv> 0xff"
abbreviation (input) VIRQ_AFFINITY_ANY :: u8 where "VIRQ_AFFINITY_ANY \<equiv> 0xff"
abbreviation (input) VIRQCHIP_F_HW_VIRT :: u32 where "VIRQCHIP_F_HW_VIRT \<equiv> 1"

record virq_desc =
  vd_flags :: u32
  vno :: u16
  hno :: u16
  vd_id :: u8
  vd_state :: u8
  vd_pr :: u8
  vd_src :: u8
  vd_type :: u8
  vd_vcpu :: u8
  vd_vmid :: u8

definition zero_desc :: virq_desc where
  "zero_desc = \<lparr>vd_flags = 0, vno = 0, hno = 0, vd_id = 0, vd_state = 0, vd_pr = 0, vd_src = 0, vd_type = 0, vd_vcpu = 0, vd_vmid = 0\<rparr>"

record virq_struct =
  nr_lrs :: nat
  last_fail_virq :: nat
  pending_virq :: u32
  active_virq :: u32
  local_desc :: "virq_desc list"
  pending_bitmap :: bitmap
  active_bitmap :: bitmap
  lrs_bitmap :: bitmap

record virq_chip =
  chip_flags :: u32
  chip_lr_ops :: bool

datatype vm_state = VM_STATE_OFFLINE | VM_STATE_FREEZEING | VM_STATE_ONLINE | VM_STATE_SUSPEND

record vcpu =
  vcpu_cpu :: nat
  virqs_of :: virq_struct

record vm =
  vm_state_of :: vm_state
  host_vm :: bool
  vspi_nr :: nat
  vspi_desc :: "virq_desc list"
  vspi_map :: bitmap
  vcpus :: "vcpu list"
  chip_of :: "virq_chip option"

datatype desc_ptr = Local_Desc nat nat nat | Spi_Desc nat nat

datatype hwcall = Irq_Mask u16 | Irq_Unmask u16 | Irq_Set_Type u16 u32 | Irq_Set_Affinity u16 nat | Request_Irq u16 desc_ptr |
  Irq_Clear_Pending u16 | Kick nat nat bool | Clear_Virq_Flag | Set_Virq_Flag | Set_Vfiq_Flag

record virt =
  vms :: "nat \<Rightarrow> vm"
  vm_exists :: "nat \<Rightarrow> bool"
  current_vcpu :: "(nat \<times> nat) option"
  gich_lr :: "u32 list"
  gicv2_nr_lrs :: nat
  stack_word :: u32
  hwcalls :: "hwcall list"

definition upd_vm :: "nat \<Rightarrow> (vm \<Rightarrow> vm) \<Rightarrow> virt \<Rightarrow> virt" where
  "upd_vm v f s = s\<lparr>vms := (vms s)(v := f (vms s v))\<rparr>"

definition virqs :: "nat \<Rightarrow> nat \<Rightarrow> virt \<Rightarrow> virq_struct" where
  "virqs v i s = virqs_of (vcpus (vms s v) ! i)"

definition upd_virqs :: "nat \<Rightarrow> nat \<Rightarrow> (virq_struct \<Rightarrow> virq_struct) \<Rightarrow> virt \<Rightarrow> virt" where
  "upd_virqs v i f s = upd_vm v (\<lambda>m. m\<lparr>vcpus := (vcpus m)[i := (vcpus m ! i)\<lparr>virqs_of := f (virqs_of (vcpus m ! i))\<rparr>]\<rparr>) s"

fun desc_at :: "desc_ptr \<Rightarrow> virt \<Rightarrow> virq_desc" where
  "desc_at (Local_Desc v i n) s = local_desc (virqs v i s) ! n"
| "desc_at (Spi_Desc v n) s = vspi_desc (vms s v) ! n"

fun upd_desc :: "desc_ptr \<Rightarrow> (virq_desc \<Rightarrow> virq_desc) \<Rightarrow> virt \<Rightarrow> virt" where
  "upd_desc (Local_Desc v i n) f s = upd_virqs v i (\<lambda>x. x\<lparr>local_desc := (local_desc x)[n := f (local_desc x ! n)]\<rparr>) s"
| "upd_desc (Spi_Desc v n) f s = upd_vm v (\<lambda>m. m\<lparr>vspi_desc := (vspi_desc m)[n := f (vspi_desc m ! n)]\<rparr>) s"

definition hwcall :: "hwcall \<Rightarrow> virt \<Rightarrow> virt" where
  "hwcall c s = s\<lparr>hwcalls := hwcalls s @ [c]\<rparr>"

section \<open>Flags\<close>

definition virq_set_enable :: "virq_desc \<Rightarrow> virq_desc" where
  "virq_set_enable d = d\<lparr>vd_flags := vd_flags d OR VIRQS_ENABLED\<rparr>"

definition virq_clear_enable :: "virq_desc \<Rightarrow> virq_desc" where
  "virq_clear_enable d = d\<lparr>vd_flags := vd_flags d AND NOT VIRQS_ENABLED\<rparr>"

definition virq_is_enabled :: "virq_desc \<Rightarrow> bool" where
  "virq_is_enabled d \<longleftrightarrow> vd_flags d AND VIRQS_ENABLED \<noteq> 0"

definition virq_set_wakeup :: "virq_desc \<Rightarrow> virq_desc" where
  "virq_set_wakeup d = d\<lparr>vd_flags := vd_flags d OR VIRQS_CAN_WAKEUP\<rparr>"

definition virq_clear_wakeup :: "virq_desc \<Rightarrow> virq_desc" where
  "virq_clear_wakeup d = d\<lparr>vd_flags := vd_flags d AND NOT VIRQS_CAN_WAKEUP\<rparr>"

definition virq_can_wakeup :: "virq_desc \<Rightarrow> bool" where
  "virq_can_wakeup d \<longleftrightarrow> vd_flags d AND VIRQS_CAN_WAKEUP \<noteq> 0"

definition virq_set_suspend :: "virq_desc \<Rightarrow> virq_desc" where
  "virq_set_suspend d = d\<lparr>vd_flags := vd_flags d OR VIRQS_SUSPEND\<rparr>"

definition virq_clear_suspend :: "virq_desc \<Rightarrow> virq_desc" where
  "virq_clear_suspend d = d\<lparr>vd_flags := vd_flags d AND NOT VIRQS_SUSPEND\<rparr>"

definition virq_is_suspend :: "virq_desc \<Rightarrow> bool" where
  "virq_is_suspend d \<longleftrightarrow> vd_flags d AND VIRQS_SUSPEND \<noteq> 0"

definition virq_set_hw :: "virq_desc \<Rightarrow> virq_desc" where
  "virq_set_hw d = d\<lparr>vd_flags := vd_flags d OR VIRQS_HW\<rparr>"

definition virq_clear_hw :: "virq_desc \<Rightarrow> virq_desc" where
  "virq_clear_hw d = d\<lparr>vd_flags := vd_flags d AND NOT VIRQS_HW\<rparr>"

definition virq_is_hw :: "virq_desc \<Rightarrow> bool" where
  "virq_is_hw d \<longleftrightarrow> vd_flags d AND VIRQS_HW \<noteq> 0"

definition virq_is_requested :: "virq_desc \<Rightarrow> bool" where
  "virq_is_requested d \<longleftrightarrow> vd_flags d AND VIRQS_REQUESTED \<noteq> 0"

definition virq_set_fiq_desc :: "virq_desc \<Rightarrow> virq_desc" where
  "virq_set_fiq_desc d = d\<lparr>vd_flags := vd_flags d OR VIRQS_FIQ\<rparr>"

definition virq_is_fiq :: "virq_desc \<Rightarrow> bool" where
  "virq_is_fiq d \<longleftrightarrow> vd_flags d AND VIRQS_FIQ \<noteq> 0"

definition virq_clear_fiq :: "virq_desc \<Rightarrow> virq_desc" where
  "virq_clear_fiq d = d\<lparr>vd_flags := vd_flags d AND NOT VIRQS_FIQ\<rparr>"

definition vm_irq_count :: "vm \<Rightarrow> nat" where
  "vm_irq_count m = vspi_nr m + VM_LOCAL_VIRQ_NR"

section \<open>Looking up\<close>

definition get_virq_desc :: "nat \<Rightarrow> nat \<Rightarrow> nat \<Rightarrow> virt \<Rightarrow> desc_ptr option" where
  "get_virq_desc v i virq s =
     (if virq < VM_LOCAL_VIRQ_NR then Some (Local_Desc v i virq)
      else if vspi_nr (vms s v) + VM_LOCAL_VIRQ_NR \<le> virq then None
      else Some (Spi_Desc v (virq - VM_LOCAL_VIRQ_NR)))"

definition get_vm_by_id :: "nat \<Rightarrow> virt \<Rightarrow> nat option" where
  "get_vm_by_id v s = (if MAX_VM \<le> v \<or> v = 0 \<or> \<not> vm_exists s v then None else Some v)"

definition get_vcpu_in_vm :: "nat \<Rightarrow> nat \<Rightarrow> virt \<Rightarrow> (nat \<times> nat) option" where
  "get_vcpu_in_vm v i s = (if length (vcpus (vms s v)) \<le> i then None else Some (v, i))"

definition get_vcpu_by_id :: "nat \<Rightarrow> nat \<Rightarrow> virt \<Rightarrow> (nat \<times> nat) option" where
  "get_vcpu_by_id v i s = (case get_vm_by_id v s of None \<Rightarrow> None | Some v \<Rightarrow> get_vcpu_in_vm v i s)"

definition virq_get_type :: "nat \<Rightarrow> nat \<Rightarrow> nat \<Rightarrow> virt \<Rightarrow> u32" where
  "virq_get_type v i virq s = (case get_virq_desc v i virq s of None \<Rightarrow> 0 | Some p \<Rightarrow> ucast (vd_type (desc_at p s)))"

definition virq_get_state :: "nat \<Rightarrow> nat \<Rightarrow> nat \<Rightarrow> virt \<Rightarrow> u32" where
  "virq_get_state v i virq s = (case get_virq_desc v i virq s of None \<Rightarrow> 0 | Some p \<Rightarrow> if virq_is_enabled (desc_at p s) then 1 else 0)"

definition virq_get_affinity :: "nat \<Rightarrow> nat \<Rightarrow> nat \<Rightarrow> virt \<Rightarrow> u32" where
  "virq_get_affinity v i virq s = (case get_virq_desc v i virq s of None \<Rightarrow> 0 | Some p \<Rightarrow> ucast (vd_vcpu (desc_at p s)))"

definition virq_get_pr :: "nat \<Rightarrow> nat \<Rightarrow> nat \<Rightarrow> virt \<Rightarrow> u32" where
  "virq_get_pr v i virq s = (case get_virq_desc v i virq s of None \<Rightarrow> 0 | Some p \<Rightarrow> ucast (vd_pr (desc_at p s)))"

definition virq_can_request :: "nat \<Rightarrow> nat \<Rightarrow> nat \<Rightarrow> virt \<Rightarrow> bool" where
  "virq_can_request v i virq s = (case get_virq_desc v i virq s of None \<Rightarrow> False | Some p \<Rightarrow> \<not> virq_is_requested (desc_at p s))"

definition virq_need_export :: "nat \<Rightarrow> nat \<Rightarrow> nat \<Rightarrow> virt \<Rightarrow> bool" where
  "virq_need_export v i virq s =
     (case get_virq_desc v i virq s of None \<Rightarrow> False
      | Some p \<Rightarrow> if vd_flags (desc_at p s) AND VIRQS_NEED_EXPORT \<noteq> 0 then True else \<not> virq_is_requested (desc_at p s))"

section \<open>Configuration\<close>

definition virq_set_type :: "nat \<Rightarrow> nat \<Rightarrow> nat \<Rightarrow> int \<Rightarrow> virt \<Rightarrow> int \<times> virt" where
  "virq_set_type v i virq value s =
     (case get_virq_desc v i virq s of None \<Rightarrow> (- ENOENT, s)
      | Some p \<Rightarrow>
          if uint (vd_type (desc_at p s)) \<noteq> value then
            let s = upd_desc p (\<lambda>d. d\<lparr>vd_type := of_int value\<rparr>) s; d = desc_at p s in
            (0, if virq_is_hw d then hwcall (Irq_Set_Type (hno d) (if value \<noteq> 0 then 1 else 4)) s else s)
          else (0, s))"

definition virq_set_priority :: "nat \<Rightarrow> nat \<Rightarrow> nat \<Rightarrow> int \<Rightarrow> virt \<Rightarrow> int \<times> virt" where
  "virq_set_priority v i virq p s =
     (case get_virq_desc v i virq s of None \<Rightarrow> (- ENOENT, s) | Some q \<Rightarrow> (0, upd_desc q (\<lambda>d. d\<lparr>vd_pr := of_int p\<rparr>) s))"

definition virq_enable :: "nat \<Rightarrow> nat \<Rightarrow> nat \<Rightarrow> virt \<Rightarrow> int \<times> virt" where
  "virq_enable v i virq s =
     (case get_virq_desc v i virq s of None \<Rightarrow> (- ENOENT, s)
      | Some p \<Rightarrow> let s = upd_desc p virq_set_enable s; d = desc_at p s in
          (0, if VM_LOCAL_VIRQ_NR < virq \<and> virq_is_hw d then hwcall (Irq_Unmask (hno d)) s else s))"

definition virq_set_fiq :: "nat \<Rightarrow> nat \<Rightarrow> nat \<Rightarrow> virt \<Rightarrow> int \<times> virt" where
  "virq_set_fiq v i virq s =
     (case get_virq_desc v i virq s of None \<Rightarrow> (- ENOENT, s) | Some p \<Rightarrow> (0, upd_desc p virq_set_fiq_desc s))"

definition virq_disable :: "nat \<Rightarrow> nat \<Rightarrow> nat \<Rightarrow> virt \<Rightarrow> int \<times> virt" where
  "virq_disable v i virq s =
     (case get_virq_desc v i virq s of None \<Rightarrow> (- ENOENT, s)
      | Some p \<Rightarrow> let s = upd_desc p virq_clear_enable s; d = desc_at p s in
          (0, if VM_LOCAL_VIRQ_NR < virq \<or> virq_is_hw d then hwcall (Irq_Mask (hno d)) s else s))"

section \<open>Sending\<close>

definition virq_kick_vcpu :: "nat \<Rightarrow> nat \<Rightarrow> desc_ptr \<Rightarrow> virt \<Rightarrow> virt" where
  "virq_kick_vcpu v i p s = hwcall (Kick v i (virq_is_hw (desc_at p s))) s"

definition send_virq_inner :: "nat \<Rightarrow> nat \<Rightarrow> desc_ptr \<Rightarrow> virt \<Rightarrow> virt res" where
  "send_virq_inner v i p s =
     (let n = unat (vno (desc_at p s)) in
      if bm_test_bit n (pending_bitmap (virqs v i s)) then Inr s
      else let s = upd_virqs v i (\<lambda>x. x\<lparr>pending_bitmap := bm_set_bit n (pending_bitmap x), pending_virq := pending_virq x + 1\<rparr>) s in
        if n < VM_SGI_VIRQ_NR then
          (case current_vcpu s of None \<Rightarrow> Inl Null_Deref | Some (w, j) \<Rightarrow> Inr (upd_desc p (\<lambda>d. d\<lparr>vd_src := of_nat j\<rparr>) s))
        else Inr s)"

definition send_virq :: "(nat \<times> nat) option \<Rightarrow> desc_ptr option \<Rightarrow> virt \<Rightarrow> (int \<times> virt) res" where
  "send_virq vc desc s =
     (case vc of None \<Rightarrow> Inl Null_Deref
      | Some (v, i) \<Rightarrow>
          (case desc of None \<Rightarrow> Inr (- EINVAL, s)
           | Some p \<Rightarrow>
               let st = vm_state_of (vms s v) in
               if st \<noteq> VM_STATE_ONLINE \<and> st \<noteq> VM_STATE_SUSPEND then Inr (- EPERM, s)
               else if st = VM_STATE_SUSPEND \<and> \<not> virq_can_wakeup (desc_at p s) then Inr (- EAGAIN, s)
               else thenR (send_virq_inner v i p s) (\<lambda>s. Inr (0, virq_kick_vcpu v i p s))))"

definition guest_irq_handler :: "desc_ptr option \<Rightarrow> virt \<Rightarrow> (int \<times> virt) res" where
  "guest_irq_handler desc s =
     (case desc of None \<Rightarrow> Inl Null_Deref
      | Some p \<Rightarrow>
          let d = desc_at p s in
          if \<not> virq_is_hw d then Inr (- EINVAL, s)
          else send_virq
            (if vd_vmid d = VIRQ_AFFINITY_ANY \<and> vd_vcpu d = VIRQ_AFFINITY_ANY then current_vcpu s
             else get_vcpu_by_id (unat (vd_vmid d)) (unat (vd_vcpu d)) s) desc s)"

definition send_virq_to_vcpu :: "nat \<Rightarrow> nat \<Rightarrow> nat \<Rightarrow> virt \<Rightarrow> (int \<times> virt) res" where
  "send_virq_to_vcpu v i virq s = send_virq (Some (v, i)) (get_virq_desc v i virq s) s"

definition send_virq_to_vm :: "nat option \<Rightarrow> nat \<Rightarrow> virt \<Rightarrow> (int \<times> virt) res" where
  "send_virq_to_vm vm virq s =
     (case vm of None \<Rightarrow> Inr (- EINVAL, s)
      | Some v \<Rightarrow>
          if virq < VM_LOCAL_VIRQ_NR then Inr (- EINVAL, s)
          else (case get_virq_desc v 0 virq s of None \<Rightarrow> Inr (- ENOENT, s)
            | Some p \<Rightarrow>
                if \<not> virq_is_enabled (desc_at p s) then Inr (- EAGAIN, s)
                else if virq_is_hw (desc_at p s) then Inr (- EPERM, s)
                else send_virq (get_vcpu_in_vm v (unat (vd_vcpu (desc_at p s))) s) (Some p) s))"

text \<open>The set bits of a bitmap that a loop does not change, in the order of \<^verbatim>\<open>for_each_set_bit\<close>.\<close>

function set_bits_from :: "bitmap \<Rightarrow> nat \<Rightarrow> nat \<Rightarrow> nat list" where
  "set_bits_from bm sz b =
     (let b = find_next_bit bm sz b in if b < sz then b # set_bits_from bm sz (Suc b) else [])"
  by pat_completeness auto
termination
proof (relation "measure (\<lambda>(bm, sz, b). sz - b)")
  fix bm :: bitmap and sz b x :: nat
  assume "x = find_next_bit bm sz b" "x < sz"
  moreover have "is_first (bm_bit bm) b sz (find_next_bit bm sz b)" by (rule find_next_bit_first)
  ultimately show "((bm, sz, Suc x), bm, sz, b) \<in> measure (\<lambda>(bm, sz, b). sz - b)" by (auto simp: is_first_def)
qed simp

declare set_bits_from.simps [simp del]

definition for_each_set_bit :: "bitmap \<Rightarrow> nat \<Rightarrow> nat list" where
  "for_each_set_bit bm sz = set_bits_from bm sz 0"

fun foldR :: "('b \<Rightarrow> 'a \<Rightarrow> 'a res) \<Rightarrow> 'b list \<Rightarrow> 'a \<Rightarrow> 'a res" where
  "foldR f [] s = Inr s"
| "foldR f (x # xs) s = thenR (f x s) (foldR f xs)"

definition send_vsgi :: "nat \<Rightarrow> nat \<Rightarrow> bitmap \<Rightarrow> virt \<Rightarrow> virt res" where
  "send_vsgi v sgi cpumask s =
     foldR (\<lambda>cpu s. thenR (send_virq (Some (v, cpu)) (get_virq_desc v cpu sgi s) s) (\<lambda>(ret, s). Inr s))
       (for_each_set_bit cpumask (length (vcpus (vms s v)))) s"

section \<open>List registers\<close>

datatype virq_action = VIRQ_ACTION_REMOVE | VIRQ_ACTION_ADD | VIRQ_ACTION_CLEAR

text \<open>A list register: \<^verbatim>\<open>struct gich_lr\<close>. The reserved bits 20 to 22 keep what the stack slot held.\<close>

definition gich_lr_val :: "u32 \<Rightarrow> u16 \<Rightarrow> u16 \<Rightarrow> u8 \<Rightarrow> bool \<Rightarrow> u32" where
  "gich_lr_val old vid pid p hw =
     take_bit 10 (ucast vid) OR push_bit 10 (take_bit 10 (ucast pid)) OR push_bit 20 (take_bit 3 (drop_bit 20 old)) OR
     push_bit 23 (take_bit 5 (ucast p)) OR push_bit 28 1 OR push_bit 31 (of_bool hw)"

definition gicv2_get_virq_state :: "virq_desc \<Rightarrow> virt \<Rightarrow> u8" where
  "gicv2_get_virq_state d s =
     (if gicv2_nr_lrs s \<le> unat (vd_id d) then 0 else ucast (drop_bit 28 (gich_lr s ! unat (vd_id d)) AND 3))"

definition gicv2_send_virq :: "virq_desc \<Rightarrow> virt \<Rightarrow> int \<times> virt" where
  "gicv2_send_virq d s =
     (if gicv2_nr_lrs s \<le> unat (vd_id d) then (- EINVAL, s)
      else let pid = (if virq_is_hw d then hno d else if vno d < 16 then ucast (vd_src d) else 0) in
        (0, s\<lparr>gich_lr := (gich_lr s)[unat (vd_id d) := gich_lr_val (stack_word s) (vno d) pid (vd_pr d) (virq_is_hw d)]\<rparr>))"

definition gicv2_update_virq :: "virq_desc \<Rightarrow> virq_action \<Rightarrow> virt \<Rightarrow> int \<times> virt" where
  "gicv2_update_virq d action s =
     (if gicv2_nr_lrs s \<le> unat (vd_id d) then (- EINVAL, s)
      else let s = (if action = VIRQ_ACTION_REMOVE \<and> virq_is_hw d then hwcall (Irq_Clear_Pending (hno d)) s else s) in
        (0, if action = VIRQ_ACTION_ADD then s else s\<lparr>gich_lr := (gich_lr s)[unat (vd_id d) := 0]\<rparr>))"

definition has_lr_ops :: "vm \<Rightarrow> bool" where
  "has_lr_ops m \<longleftrightarrow> (case chip_of m of None \<Rightarrow> False | Some c \<Rightarrow> chip_lr_ops c)"

definition virqchip_update_virq :: "nat \<Rightarrow> virq_desc \<Rightarrow> virq_action \<Rightarrow> virt \<Rightarrow> virt" where
  "virqchip_update_virq v d action s = (if has_lr_ops (vms s v) then snd (gicv2_update_virq d action s) else s)"

definition virqchip_send_virq :: "nat \<Rightarrow> virq_desc \<Rightarrow> virt \<Rightarrow> virt" where
  "virqchip_send_virq v d s = (if has_lr_ops (vms s v) then snd (gicv2_send_virq d s) else s)"

definition virqchip_get_virq_state :: "nat \<Rightarrow> virq_desc \<Rightarrow> virt \<Rightarrow> u8" where
  "virqchip_get_virq_state v d s = (if has_lr_ops (vms s v) then gicv2_get_virq_state d s else 0)"

section \<open>Acknowledging in software\<close>

definition clear_pending_virq :: "nat \<Rightarrow> nat \<Rightarrow> nat \<Rightarrow> virt \<Rightarrow> virt" where
  "clear_pending_virq v i irq s =
     (case get_virq_desc v i irq s of None \<Rightarrow> s
      | Some p \<Rightarrow>
          if vd_state (desc_at p s) \<noteq> VIRQ_STATE_ACTIVE then s
          else let s = upd_virqs v i (\<lambda>x. x\<lparr>active_bitmap := bm_clear_bit irq (active_bitmap x)\<rparr>) s;
                   s = upd_desc p (\<lambda>d. d\<lparr>vd_state := VIRQ_STATE_INACTIVE\<rparr>) s in
            virqchip_update_virq v (desc_at p s) VIRQ_ACTION_CLEAR s)"

definition get_pending_virq :: "nat \<Rightarrow> nat \<Rightarrow> virt \<Rightarrow> (nat \<times> virt) res" where
  "get_pending_virq v i s =
     (let x = virqs v i s in
      case filter (\<lambda>b. \<not> bm_test_bit b (active_bitmap x)) (for_each_set_bit (pending_bitmap x) (vm_irq_count (vms s v))) of
        [] \<Rightarrow> Inr (BAD_IRQ, s)
      | b # bs \<Rightarrow>
          (case get_virq_desc v i b s of None \<Rightarrow> Inl Null_Deref
           | Some p \<Rightarrow>
               let s = upd_desc p (\<lambda>d. d\<lparr>vd_state := VIRQ_STATE_ACTIVE\<rparr>) s in
               Inr (b, upd_virqs v i (\<lambda>x. x\<lparr>pending_virq := pending_virq x - 1, pending_bitmap := bm_clear_bit b (pending_bitmap x),
                 active_bitmap := bm_set_bit b (active_bitmap x), active_virq := active_virq x + 1\<rparr>) s)))"

definition vcpu_has_irq :: "nat \<Rightarrow> nat \<Rightarrow> virt \<Rightarrow> bool" where
  "vcpu_has_irq v i s =
     (let x = virqs v i s; total = vm_irq_count (vms s v) in
      find_first_bit (pending_bitmap x) total < total \<or> find_first_bit (active_bitmap x) total < total)"

section \<open>Requesting and releasing\<close>

definition update_virq_cap :: "desc_ptr \<Rightarrow> u32 \<Rightarrow> virt \<Rightarrow> virt" where
  "update_virq_cap p flags s =
     (let s = upd_desc p (\<lambda>d. d\<lparr>vd_flags := vd_flags d OR flags\<rparr>) s;
          s = (if flags AND VIRQS_ENABLED \<noteq> 0 \<and> virq_is_hw (desc_at p s) then hwcall (Irq_Unmask (hno (desc_at p s))) s else s) in
      if flags AND VIRQS_FIQ \<noteq> 0 then upd_desc p virq_set_fiq_desc s else s)"

definition local_virq_desc :: "nat \<Rightarrow> virq_desc" where
  "local_virq_desc n =
     (virq_set_enable (virq_clear_hw zero_desc))\<lparr>vd_vcpu := VIRQ_AFFINITY_ANY, vd_vmid := VIRQ_AFFINITY_ANY, vno := of_nat n,
        hno := 0, vd_id := VIRQ_INVALID_ID, vd_state := VIRQ_STATE_INACTIVE\<rparr>"

definition vcpu_virq_struct_init :: "nat \<Rightarrow> nat \<Rightarrow> virt \<Rightarrow> virt" where
  "vcpu_virq_struct_init v i s =
     upd_virqs v i (\<lambda>x. x\<lparr>active_virq := 0, pending_virq := 0, local_desc := map local_virq_desc [0..<VM_LOCAL_VIRQ_NR]\<rparr>) s"

text \<open>\<^verbatim>\<open>memset\<close> of the words that hold the first \<open>n\<close> bits.\<close>

definition zero_bits :: "nat \<Rightarrow> bitmap \<Rightarrow> bitmap" where
  "zero_bits n bm = replicate (min (length bm) ((n + 63) div 64)) 0 @ drop ((n + 63) div 64) bm"

definition vcpu_virq_struct_reset :: "nat \<Rightarrow> nat \<Rightarrow> virt \<Rightarrow> virt" where
  "vcpu_virq_struct_reset v i s =
     (let n = vspi_nr (vms s v) in
      vcpu_virq_struct_init v i (upd_virqs v i (\<lambda>x. x\<lparr>pending_bitmap := zero_bits n (pending_bitmap x),
        active_bitmap := zero_bits n (active_bitmap x), lrs_bitmap := zero_bits (nr_lrs x) (lrs_bitmap x)\<rparr>) s))"

definition request_virq_inner :: "nat \<Rightarrow> nat \<Rightarrow> desc_ptr \<Rightarrow> nat \<Rightarrow> u16 \<Rightarrow> u32 \<Rightarrow> virt \<Rightarrow> int \<times> virt" where
  "request_virq_inner v i p virq hwirq flags s =
     (if virq_is_requested (desc_at p s) then (- EBUSY, s)
      else let s = upd_desc p (\<lambda>d. d\<lparr>vd_flags := vd_flags d OR VIRQS_REQUESTED, vno := of_nat virq, hno := hwirq, vd_vcpu := of_nat i,
                 vd_pr := 0xa0, vd_vmid := of_nat v, vd_id := VIRQ_INVALID_ID, vd_state := VIRQ_STATE_INACTIVE\<rparr>) s;
               s = (if VM_LOCAL_VIRQ_NR \<le> virq then upd_vm v (\<lambda>m. m\<lparr>vspi_map := bm_set_bit (virq - VM_LOCAL_VIRQ_NR) (vspi_map m)\<rparr>) s else s);
               s = (if hwirq \<noteq> 0
                    then hwcall (Irq_Mask hwirq) (hwcall (Request_Irq hwirq p) (upd_desc p virq_set_hw
                      (hwcall (Irq_Set_Affinity hwirq (vcpu_cpu (vcpus (vms s v) ! i))) s)))
                    else upd_desc p virq_clear_hw s) in
           (0, update_virq_cap p flags s))"

definition request_virq_affinity :: "nat \<Rightarrow> nat \<Rightarrow> u16 \<Rightarrow> nat \<Rightarrow> u32 \<Rightarrow> virt \<Rightarrow> int \<times> virt" where
  "request_virq_affinity v virq hwirq aff flags s =
     (case get_vcpu_in_vm v aff s of None \<Rightarrow> (- EINVAL, s)
      | Some (v, i) \<Rightarrow>
          (case get_virq_desc v i virq s of None \<Rightarrow> (- ENOENT, s) | Some p \<Rightarrow> request_virq_inner v i p virq hwirq flags s))"

definition vm_max_virq_line :: "vm \<Rightarrow> nat" where
  "vm_max_virq_line m = (if host_vm m then MAX_HVM_VIRQ else MAX_GVM_VIRQ)"

definition request_hw_virq :: "nat \<Rightarrow> nat \<Rightarrow> u16 \<Rightarrow> u32 \<Rightarrow> virt \<Rightarrow> int \<times> virt" where
  "request_hw_virq v virq hwirq flags s =
     (if vm_max_virq_line (vms s v) \<le> virq then (- EINVAL, s) else request_virq_affinity v virq hwirq 0 flags s)"

definition request_virq :: "nat \<Rightarrow> nat \<Rightarrow> u32 \<Rightarrow> virt \<Rightarrow> int \<times> virt" where
  "request_virq v virq flags s = request_hw_virq v virq 0 flags s"

definition request_virq_pervcpu :: "nat \<Rightarrow> nat \<Rightarrow> u32 \<Rightarrow> virt \<Rightarrow> int \<times> virt" where
  "request_virq_pervcpu v virq flags s =
     (if VM_LOCAL_VIRQ_NR \<le> virq then (- EINVAL, s)
      else (0, fold (\<lambda>i s. case get_virq_desc v i virq s of None \<Rightarrow> s
                | Some p \<Rightarrow> upd_desc p (\<lambda>d. d\<lparr>vd_vcpu := VIRQ_AFFINITY_ANY, vd_vmid := VIRQ_AFFINITY_ANY\<rparr>)
                    (snd (request_virq_inner v i p virq 0 flags s))) [0..<length (vcpus (vms s v))] s))"

definition alloc_vm_virq :: "nat \<Rightarrow> virt \<Rightarrow> int \<times> virt" where
  "alloc_vm_virq v s =
     (let count = vspi_nr (vms s v); virq = find_next_zero_bit_loop (vspi_map (vms s v)) count 0 in
      if virq < count then (int (virq + VM_LOCAL_VIRQ_NR), snd (request_virq v (virq + VM_LOCAL_VIRQ_NR) VIRQS_NEED_EXPORT s))
      else (- 1, s))"

text \<open>A number below 32 gives a negative index, which the comparison lets through.\<close>

definition release_vm_virq :: "nat \<Rightarrow> int \<Rightarrow> virt \<Rightarrow> virt res" where
  "release_vm_virq v virq s =
     (let k = virq - int VM_LOCAL_VIRQ_NR in
      if k < 0 then Inl Out_Of_Bounds
      else if int (vspi_nr (vms s v)) \<le> k then Inr s
      else Inr (upd_vm v (\<lambda>m. m\<lparr>vspi_desc := (vspi_desc m)[nat k := zero_desc], vspi_map := bm_clear_bit (nat k) (vspi_map m)\<rparr>) s))"

section \<open>Creation and reset of a VM\<close>

definition BITS_TO_LONGS :: "nat \<Rightarrow> nat" where
  "BITS_TO_LONGS n = (n + 63) div 64"

definition virq_create_vm :: "bool \<Rightarrow> nat \<Rightarrow> virt \<Rightarrow> int \<times> virt" where
  "virq_create_vm pages v s =
     (let n = vm_max_virq_line (vms s v); s = upd_vm v (\<lambda>m. m\<lparr>vspi_nr := n\<rparr>) s;
          zero = replicate (BITS_TO_LONGS (n + VM_LOCAL_VIRQ_NR)) 0 in
      if \<not> pages then (- ENOMEM, s)
      else (0, upd_vm v (\<lambda>m. m\<lparr>vspi_desc := replicate n zero_desc, vspi_map := replicate (BITS_TO_LONGS n) 0,
             vcpus := map (\<lambda>c. c\<lparr>virqs_of := (virqs_of c)\<lparr>pending_bitmap := zero, active_bitmap := zero\<rparr>\<rparr>) (vcpus m)\<rparr>) s))"

definition reset_virq :: "virq_desc \<Rightarrow> virq_desc" where
  "reset_virq d = (virq_clear_enable d)\<lparr>vd_pr := 0xa0, vd_type := 0, vd_id := VIRQ_INVALID_ID, vd_state := VIRQ_STATE_INACTIVE\<rparr>"

definition vm_virq_reset :: "nat \<Rightarrow> virt \<Rightarrow> virt" where
  "vm_virq_reset v s =
     fold (\<lambda>k s. let s = upd_desc (Spi_Desc v k) reset_virq s; d = desc_at (Spi_Desc v k) s in
             if virq_is_hw d then hwcall (Irq_Mask (hno d)) s else s) [0..<vspi_nr (vms s v)] s"

definition virq_destroy_vm :: "nat \<Rightarrow> virt \<Rightarrow> int \<times> virt" where
  "virq_destroy_vm v s =
     (0, if vspi_desc (vms s v) = [] then s
         else fold (\<lambda>k s. let d = desc_at (Spi_Desc v k) s in
             if virq_is_enabled d \<and> virq_is_hw d \<and> VM_LOCAL_VIRQ_NR < unat (hno d) then hwcall (Irq_Mask (hno d)) s else s)
           [0..<vspi_nr (vms s v) - VM_LOCAL_VIRQ_NR] s)"

end
