(* ===== verification/Vgic.thy ===== *)
theory Vgic
  imports Virq
begin

text \<open>
  The virtual interrupt controller: moving virtual interrupts into and out of the list registers when a virtual CPU
  enters and leaves the guest (\<^verbatim>\<open>virt/virq_chips/vgic.c\<close>, \<^verbatim>\<open>virq_chip.c\<close>) and the emulated GICv2 distributor and CPU
  interface (\<^verbatim>\<open>vgicv2.c\<close>). The loops that walk over a bitmap they change are \<^verbatim>\<open>partial_function\<close>s; that they return
  is a theorem.
\<close>

unbundle bit_operations_syntax

section \<open>Entering and leaving the guest\<close>

text \<open>The body of the loop for one pending interrupt. The flag tells that the loop is left by \<^verbatim>\<open>break\<close>.\<close>

definition inject_virq :: "nat \<Rightarrow> nat \<Rightarrow> nat \<Rightarrow> u32 \<Rightarrow> virt \<Rightarrow> bool \<times> u32 \<times> virt" where
  "inject_virq v i b flags s =
     (let x = virqs v i s in
      case get_virq_desc v i b s of
        None \<Rightarrow> (False, flags, upd_virqs v i (\<lambda>x. x\<lparr>pending_bitmap := bm_clear_bit b (pending_bitmap x)\<rparr>) s)
      | Some p \<Rightarrow>
          if bm_test_bit b (active_bitmap x) then (False, flags, s)
          else let k = find_first_zero_bit (lrs_bitmap x) (nr_lrs x) in
            if nr_lrs x \<le> k then (True, flags, upd_virqs v i (\<lambda>x. x\<lparr>last_fail_virq := b\<rparr>) s)
            else let flags = (if virq_is_fiq (desc_at p s) then flags OR FIQ_HAS_INJECT else flags) + 1;
                     s = upd_desc p (\<lambda>d. d\<lparr>vd_id := of_nat k\<rparr>) s;
                     s = upd_virqs v i (\<lambda>x. x\<lparr>lrs_bitmap := bm_set_bit k (lrs_bitmap x)\<rparr>) s;
                     s = virqchip_send_virq v (desc_at p s) s;
                     s = upd_desc p (\<lambda>d. d\<lparr>vd_state := VIRQ_STATE_PENDING\<rparr>) s in
              (False, flags, upd_virqs v i (\<lambda>x. x\<lparr>active_bitmap := bm_set_bit b (active_bitmap x), active_virq := active_virq x + 1,
                 pending_virq := pending_virq x - 1, pending_bitmap := bm_clear_bit b (pending_bitmap x)\<rparr>) s))"

partial_function (option) inject_loop :: "nat \<Rightarrow> nat \<Rightarrow> nat \<Rightarrow> nat \<Rightarrow> u32 \<Rightarrow> virt \<Rightarrow> (u32 \<times> virt) option" where
  "inject_loop v i b sz flags s =
     (let b = find_next_bit (pending_bitmap (virqs v i s)) sz b in
      if b < sz then
        (case inject_virq v i b flags s of (stop, flags, s) \<Rightarrow> if stop then Some (flags, s) else inject_loop v i (Suc b) sz flags s)
      else Some (flags, s))"

text \<open>The part after the label \<^verbatim>\<open>repeat\<close>.\<close>

partial_function (option) inject_repeat :: "nat \<Rightarrow> nat \<Rightarrow> nat \<Rightarrow> nat \<Rightarrow> nat \<Rightarrow> u32 \<Rightarrow> virt \<Rightarrow> (u32 \<times> virt) option" where
  "inject_repeat v i b sz old flags s =
     (case inject_loop v i b sz flags s of None \<Rightarrow> None
      | Some (flags, s) \<Rightarrow>
          if old \<noteq> 0 \<and> last_fail_virq (virqs v i s) = 0 then inject_repeat v i 0 old 0 flags s else Some (flags, s))"

definition vgic_irq_enter_to_guest :: "nat \<Rightarrow> nat \<Rightarrow> virt \<Rightarrow> (u32 \<times> virt) option" where
  "vgic_irq_enter_to_guest v i s =
     (let b = last_fail_virq (virqs v i s) in
      inject_repeat v i b (vm_irq_count (vms s v) - b) b 0 (upd_virqs v i (\<lambda>x. x\<lparr>last_fail_virq := 0\<rparr>) s))"

definition retire_virq :: "nat \<Rightarrow> nat \<Rightarrow> nat \<Rightarrow> virt \<Rightarrow> virt" where
  "retire_virq v i b s =
     (case get_virq_desc v i b s of
        None \<Rightarrow> upd_virqs v i (\<lambda>x. x\<lparr>active_bitmap := bm_clear_bit b (active_bitmap x)\<rparr>) s
      | Some p \<Rightarrow>
          let st = virqchip_get_virq_state v (desc_at p s) s; s = upd_desc p (\<lambda>d. d\<lparr>vd_state := st\<rparr>) s in
          if st = VIRQ_STATE_INACTIVE then
            let d = desc_at p s; s = virqchip_update_virq v d VIRQ_ACTION_CLEAR s;
                s = upd_virqs v i (\<lambda>x. x\<lparr>lrs_bitmap := bm_clear_bit (unat (vd_id d)) (lrs_bitmap x)\<rparr>) s;
                s = upd_desc p (\<lambda>d. d\<lparr>vd_id := VIRQ_INVALID_ID\<rparr>) s in
            upd_virqs v i (\<lambda>x. x\<lparr>active_virq := active_virq x - 1, active_bitmap := bm_clear_bit b (active_bitmap x)\<rparr>) s
          else s)"

partial_function (option) retire_loop :: "nat \<Rightarrow> nat \<Rightarrow> nat \<Rightarrow> nat \<Rightarrow> virt \<Rightarrow> virt option" where
  "retire_loop v i b sz s =
     (let b = find_next_bit (active_bitmap (virqs v i s)) sz b in
      if b < sz then retire_loop v i (Suc b) sz (retire_virq v i b s) else Some s)"

definition vgic_irq_exit_from_guest :: "nat \<Rightarrow> nat \<Rightarrow> virt \<Rightarrow> virt option" where
  "vgic_irq_exit_from_guest v i s = retire_loop v i 0 (vm_irq_count (vms s v)) s"

definition vgic_generate_virq :: "int \<Rightarrow> u32 list" where
  "vgic_generate_virq virq = [0, of_int (virq - 32), 4]"

text \<open>The hooks. Without hardware support \<^verbatim>\<open>enter_to_guest\<close> is NULL but called.\<close>

definition virqchip_enter_to_guest :: "nat \<Rightarrow> nat \<Rightarrow> virt \<Rightarrow> (int \<times> virt) res option" where
  "virqchip_enter_to_guest v i s =
     (case chip_of (vms s v) of None \<Rightarrow> Some (Inr (- ENOENT, s))
      | Some vc \<Rightarrow>
          if \<not> chip_lr_ops vc then Some (Inl Null_Deref)
          else (case vgic_irq_enter_to_guest v i s of None \<Rightarrow> None
            | Some (flags, s) \<Rightarrow>
                Some (Inr (0, if chip_flags vc AND VIRQCHIP_F_HW_VIRT \<noteq> 0 then s
                  else if flags = 0 then hwcall Clear_Virq_Flag s
                  else if flags AND FIQ_HAS_INJECT \<noteq> 0 then hwcall Set_Vfiq_Flag s else hwcall Set_Virq_Flag s))))"

definition virqchip_exit_from_guest :: "nat \<Rightarrow> nat \<Rightarrow> virt \<Rightarrow> virt option" where
  "virqchip_exit_from_guest v i s = (if has_lr_ops (vms s v) then vgic_irq_exit_from_guest v i s else Some s)"

section \<open>The GICv2 distributor\<close>

record vgicv2_dev =
  gicd_ctlr :: u32
  gicd_typer :: u32
  gicd_iidr :: u32

definition vgicv2_get_virq_type :: "nat \<Rightarrow> nat \<Rightarrow> nat \<Rightarrow> virt \<Rightarrow> u32" where
  "vgicv2_get_virq_type v i off s =
     (let irq = 16 * ((off - 0xc00) div 4) in fold (\<lambda>k r. r OR push_bit (2 * k) (virq_get_type v i (irq + k) s)) [0..<16] 0)"

definition vgicv2_set_virq_type :: "nat \<Rightarrow> nat \<Rightarrow> nat \<Rightarrow> u32 \<Rightarrow> virt \<Rightarrow> virt" where
  "vgicv2_set_virq_type v i off value s =
     (let irq = 16 * ((off - 0xc00) div 4) in
      fold (\<lambda>k s. snd (virq_set_type v i (irq + k) (uint (drop_bit (2 * k) value AND 3)) s)) [0..<16] s)"

text \<open>A shift by 32 or more has no defined result in C; AArch64 takes the amount modulo 32.\<close>

definition vgicv2_get_virq_affinity :: "nat \<Rightarrow> nat \<Rightarrow> nat \<Rightarrow> virt \<Rightarrow> u32" where
  "vgicv2_get_virq_affinity v i off s =
     (let irq = 4 * ((off - 0x800) div 4) in
      fold (\<lambda>k r. r OR push_bit (8 * k) (push_bit (unat (virq_get_affinity v i (irq + k) s) mod 32) 1)) [0..<4] 0)"

definition vgicv2_get_virq_pr :: "nat \<Rightarrow> nat \<Rightarrow> nat \<Rightarrow> virt \<Rightarrow> u32" where
  "vgicv2_get_virq_pr v i off s =
     (let irq = (off - 0x400) div 4 * 4 in fold (\<lambda>k r. r OR push_bit (8 * k) (virq_get_pr v i (irq + k) s)) [0..<4] 0)"

definition vgicv2_get_virq_state :: "nat \<Rightarrow> nat \<Rightarrow> nat \<Rightarrow> nat \<Rightarrow> virt \<Rightarrow> u32" where
  "vgicv2_get_virq_state v i off reg s =
     (let irq = (off - reg) div 4 * 32 in fold (\<lambda>k r. r OR push_bit k (virq_get_state v i (irq + k) s)) [0..<32] 0)"

definition vgicv2_get_virq_mask :: "nat \<Rightarrow> nat \<Rightarrow> nat \<Rightarrow> virt \<Rightarrow> u32" where
  "vgicv2_get_virq_mask v i off s = vgicv2_get_virq_state v i off 0x180 s"

definition vgicv2_get_virq_unmask :: "nat \<Rightarrow> nat \<Rightarrow> nat \<Rightarrow> virt \<Rightarrow> u32" where
  "vgicv2_get_virq_unmask v i off s = vgicv2_get_virq_state v i off 0x100 s"

text \<open>A read of a register that is not handled leaves the value as it was.\<close>

definition vgicv2_read :: "nat \<Rightarrow> nat \<Rightarrow> vgicv2_dev \<Rightarrow> nat \<Rightarrow> virt \<Rightarrow> u32 option" where
  "vgicv2_read v i gic off s =
     (if off = 0x000 then Some (if gicd_ctlr gic \<noteq> 0 then 1 else 0)
      else if off = 0x004 then Some (gicd_typer gic)
      else if 0x080 \<le> off \<and> off \<le> 0x0fc then Some 0xffffffff
      else if 0x100 \<le> off \<and> off \<le> 0x17c then Some (vgicv2_get_virq_unmask v i off s)
      else if 0x180 \<le> off \<and> off \<le> 0x1fc then Some (vgicv2_get_virq_mask v i off s)
      else if 0x200 \<le> off \<and> off \<le> 0x27c then Some 0
      else if 0x280 \<le> off \<and> off \<le> 0x2fc then Some 0
      else if 0x300 \<le> off \<and> off \<le> 0x37c then Some 0
      else if 0x380 \<le> off \<and> off \<le> 0x3fc then Some 0
      else if 0x400 \<le> off \<and> off \<le> 0x7f8 then Some (vgicv2_get_virq_pr v i off s)
      else if 0x800 \<le> off \<and> off \<le> 0x81c then
        (let tmp = push_bit i 1 in Some (tmp OR push_bit 8 tmp OR push_bit 16 tmp OR push_bit 24 tmp))
      else if 0x820 \<le> off \<and> off \<le> 0xbf8 then Some (vgicv2_get_virq_affinity v i off s)
      else if 0xc00 \<le> off \<and> off \<le> 0xcfc then Some (vgicv2_get_virq_type v i off s)
      else if off = 0xfe8 then Some (push_bit 4 2)
      else None)"

definition sgi_targets :: "nat \<Rightarrow> nat \<Rightarrow> u32 \<Rightarrow> virt \<Rightarrow> bitmap" where
  "sgi_targets v i sgi_value s =
     (let mode = drop_bit 24 sgi_value AND 3 in
      if mode = 0 then fold bm_set_bit (for_each_set_bit [ucast (drop_bit 16 sgi_value AND 0xff)] 8) [0]
      else if mode = 1 then fold (\<lambda>b m. if b = i then m else bm_set_bit b m) [0..<length (vcpus (vms s v))] [0]
      else bm_set_bit i [0])"

definition vgicv2_send_sgi :: "nat \<Rightarrow> nat \<Rightarrow> u32 \<Rightarrow> virt \<Rightarrow> virt res" where
  "vgicv2_send_sgi v i sgi_value s =
     (if drop_bit 24 sgi_value AND 3 = 3 then Inr s
      else foldR (\<lambda>b s. case get_vcpu_in_vm v b s of None \<Rightarrow> Inl Panicked
                  | Some (w, j) \<Rightarrow> thenR (send_virq_to_vcpu w j (unat (sgi_value AND 0xf)) s) (\<lambda>(ret, s). Inr s))
             (for_each_set_bit (sgi_targets v i sgi_value s) NR_CPUS) s)"

text \<open>A write. The loops over the enable registers walk over the low 32 bits of the value.\<close>

definition vgicv2_write :: "nat \<Rightarrow> nat \<Rightarrow> vgicv2_dev \<Rightarrow> nat \<Rightarrow> u64 \<Rightarrow> virt \<Rightarrow> (vgicv2_dev \<times> virt) res" where
  "vgicv2_write v i gic off val s =
     (let value = ucast val :: u32 in
      if off = 0x000 then Inr (gic\<lparr>gicd_ctlr := value\<rparr>, s)
      else if 0x100 \<le> off \<and> off \<le> 0x17c then
        Inr (gic, fold (\<lambda>b s. snd (virq_enable v i ((off - 0x100) div 4 * 32 + b) s)) (for_each_set_bit [val] 32) s)
      else if 0x180 \<le> off \<and> off \<le> 0x1fc then
        Inr (gic, fold (\<lambda>b s. snd (virq_disable v i ((off - 0x180) div 4 * 32 + b) s)) (for_each_set_bit [val] 32) s)
      else if 0x400 \<le> off \<and> off \<le> 0x7f8 then
        (let y = (off - 0x400) div 4 * 4;
             s = snd (virq_set_priority v i y (uint (value AND 0xff)) s);
             s = snd (virq_set_priority v i (y + 1) (uint (drop_bit 8 (value AND 0xff00))) s);
             s = snd (virq_set_priority v i (y + 2) (uint (drop_bit 16 (value AND 0xff0000))) s);
             s = snd (virq_set_priority v i (y + 3) (uint (drop_bit 24 (value AND 0xff000000))) s) in Inr (gic, s))
      else if 0xc00 \<le> off \<and> off \<le> 0xcfc then Inr (gic, vgicv2_set_virq_type v i off value s)
      else if off = 0xf00 then thenR (vgicv2_send_sgi v i value s) (\<lambda>s. Inr (gic, s))
      else Inr (gic, s))"

section \<open>The CPU interface in software\<close>

record vgicc =
  gicc_ctlr :: u32
  gicc_pmr :: u32
  gicc_bpr :: u32

definition vgicc_read :: "nat \<Rightarrow> nat \<Rightarrow> vgicc \<Rightarrow> nat \<Rightarrow> virt \<Rightarrow> (u64 option \<times> virt) res" where
  "vgicc_read v i g off s =
     (if off = 0x00 then Inr (Some (ucast (gicc_ctlr g)), s)
      else if off = 0x04 then Inr (Some (ucast (gicc_pmr g)), s)
      else if off = 0x08 then Inr (Some (ucast (gicc_bpr g)), s)
      else if off = 0x0c then thenR (get_pending_virq v i s) (\<lambda>(b, s). Inr (Some (of_nat b), s))
      else if off = 0x14 \<or> off = 0x18 then Inr (Some 0xa0, s)
      else if off = 0xfc then Inr (Some (0x43b OR push_bit 16 2), s)
      else Inr (None, s))"

definition vgicc_write :: "nat \<Rightarrow> nat \<Rightarrow> vgicc \<Rightarrow> nat \<Rightarrow> u64 \<Rightarrow> virt \<Rightarrow> vgicc \<times> virt" where
  "vgicc_write v i g off value s =
     (if off = 0x00 then (g\<lparr>gicc_ctlr := ucast value\<rparr>, s)
      else if off = 0x04 then (g\<lparr>gicc_pmr := ucast value\<rparr>, s)
      else if off = 0x08 then (g\<lparr>gicc_bpr := ucast value\<rparr>, s)
      else if off = 0x10 then (g, clear_pending_virq v i (unat (ucast value :: u32)) s)
      else (g, s))"

section \<open>Initialisation and context switch\<close>

definition vgicv2_vcpu_init :: "nat \<Rightarrow> nat \<Rightarrow> u32 \<Rightarrow> virt \<Rightarrow> virt" where
  "vgicv2_vcpu_init v i flags s =
     (if flags AND VIRQCHIP_F_HW_VIRT = 0 then s else upd_virqs v i (\<lambda>x. x\<lparr>nr_lrs := gicv2_nr_lrs s\<rparr>) s)"

definition virq_chip_vcpu_init :: "nat \<Rightarrow> nat \<Rightarrow> virt \<Rightarrow> virt" where
  "virq_chip_vcpu_init v i s = (case chip_of (vms s v) of None \<Rightarrow> s | Some vc \<Rightarrow> vgicv2_vcpu_init v i (chip_flags vc) s)"

definition vgicv2_init_virqchip :: "u32 \<Rightarrow> virq_chip" where
  "vgicv2_init_virqchip flags = \<lparr>chip_flags = flags, chip_lr_ops = (flags AND VIRQCHIP_F_HW_VIRT \<noteq> 0)\<rparr>"

text \<open>The addresses of the controller: distributor, CPU interface, hypervisor interface and virtual interface, each
  with its size. Emulation is chosen when one is missing; the result is the number of list registers, or None.\<close>

definition vgicv2_init :: "u64 list option \<Rightarrow> u32 \<Rightarrow> nat option" where
  "vgicv2_init addrs vtr =
     (case addrs of None \<Rightarrow> None
      | Some xs \<Rightarrow> if xs = [] then None else if 0 \<in> set xs then None
          else if length xs \<le> 6 then None else Some (unat (vtr AND 0x3f) + 1))"

record gicv2_context =
  ctx_hcr :: u32
  ctx_vmcr :: u32
  ctx_apr :: u32
  ctx_lr :: "u32 list"

record gich =
  gich_hcr :: u32
  gich_vmcr :: u32
  gich_apr :: u32

definition gicv2_state_restore :: "gicv2_context \<Rightarrow> gich \<times> virt \<Rightarrow> gich \<times> virt" where
  "gicv2_state_restore c h =
     (\<lparr>gich_hcr = ctx_hcr c, gich_vmcr = ctx_vmcr c, gich_apr = ctx_apr c\<rparr>,
      fold (\<lambda>k s. s\<lparr>gich_lr := (gich_lr s)[k := ctx_lr c ! k]\<rparr>) [0..<gicv2_nr_lrs (snd h)] (snd h))"

definition gicv2_state_init :: gicv2_context where
  "gicv2_state_init = \<lparr>ctx_hcr = 1, ctx_vmcr = 0, ctx_apr = 0, ctx_lr = replicate 64 0\<rparr>"

definition gicv2_state_save :: "gicv2_context \<Rightarrow> gich \<times> virt \<Rightarrow> gicv2_context \<times> gich \<times> virt" where
  "gicv2_state_save c h =
     (\<lparr>ctx_hcr = gich_hcr (fst h), ctx_vmcr = gich_vmcr (fst h), ctx_apr = gich_apr (fst h),
       ctx_lr = fold (\<lambda>k l. l[k := gich_lr (snd h) ! k]) [0..<gicv2_nr_lrs (snd h)] (ctx_lr c)\<rparr>,
      (fst h)\<lparr>gich_hcr := 0\<rparr>, snd h)"

definition gicv2_state_resume :: gicv2_context where
  "gicv2_state_resume = gicv2_state_init"

end
