(* ===== verification/Vgic_Props.thy ===== *)
theory Vgic_Props
  imports Vgic
begin

text \<open>
  Delivery of virtual interrupts through the list registers: every interrupt in delivery has a list register of its
  own, no pending interrupt is lost, and the loops return.
\<close>

unbundle bit_operations_syntax

section \<open>Reading after an update\<close>

named_theorems virq_simps

lemma upd_virqs_sel [virq_simps]:
  "virqs w j (upd_virqs v i f s) = (if w = v \<and> j = i \<and> i < length (vcpus (vms s v)) then f (virqs v i s) else virqs w j s)"
  "length (vcpus (vms (upd_virqs v i f s) w)) = length (vcpus (vms s w))" "vspi_nr (vms (upd_virqs v i f s) w) = vspi_nr (vms s w)"
  "vspi_desc (vms (upd_virqs v i f s) w) = vspi_desc (vms s w)" "vspi_map (vms (upd_virqs v i f s) w) = vspi_map (vms s w)"
  "chip_of (vms (upd_virqs v i f s) w) = chip_of (vms s w)" "vm_state_of (vms (upd_virqs v i f s) w) = vm_state_of (vms s w)"
  "host_vm (vms (upd_virqs v i f s) w) = host_vm (vms s w)"
  "gich_lr (upd_virqs v i f s) = gich_lr s" "gicv2_nr_lrs (upd_virqs v i f s) = gicv2_nr_lrs s" "current_vcpu (upd_virqs v i f s) = current_vcpu s"
  "stack_word (upd_virqs v i f s) = stack_word s"
  by (auto simp: upd_virqs_def upd_vm_def virqs_def nth_list_update list_update_beyond)

lemma upd_vm_sel [virq_simps]:
  "vms (upd_vm v f s) w = (if w = v then f (vms s v) else vms s w)"
  "gich_lr (upd_vm v f s) = gich_lr s" "gicv2_nr_lrs (upd_vm v f s) = gicv2_nr_lrs s" "current_vcpu (upd_vm v f s) = current_vcpu s"
  "stack_word (upd_vm v f s) = stack_word s"
  by (auto simp: upd_vm_def)

lemma virqs_upd_vm: "(\<And>m. vcpus (f m) = vcpus m) \<Longrightarrow> virqs w j (upd_vm v f s) = virqs w j s"
  by (simp add: virqs_def upd_vm_def)

lemma hwcall_sel [virq_simps]:
  "vms (hwcall c s) = vms s" "gich_lr (hwcall c s) = gich_lr s" "gicv2_nr_lrs (hwcall c s) = gicv2_nr_lrs s"
  "current_vcpu (hwcall c s) = current_vcpu s" "virqs v i (hwcall c s) = virqs v i s" "desc_at p (hwcall c s) = desc_at p s"
  "stack_word (hwcall c s) = stack_word s"
  by (cases p; auto simp: hwcall_def virqs_def)+

text \<open>The descriptor a virtual CPU sees under a number.\<close>

definition vptr :: "nat \<Rightarrow> nat \<Rightarrow> nat \<Rightarrow> desc_ptr" where
  "vptr v i b = (if b < VM_LOCAL_VIRQ_NR then Local_Desc v i b else Spi_Desc v (b - VM_LOCAL_VIRQ_NR))"

definition vdesc :: "nat \<Rightarrow> nat \<Rightarrow> nat \<Rightarrow> virt \<Rightarrow> virq_desc" where
  "vdesc v i b s = desc_at (vptr v i b) s"

lemma get_virq_desc_vptr: "get_virq_desc v i b s = (if b < vm_irq_count (vms s v) then Some (vptr v i b) else None)"
  by (auto simp: get_virq_desc_def vptr_def vm_irq_count_def)

text \<open>The tables of a virtual CPU have the sizes the code relies on.\<close>

definition vcpu_wf :: "nat \<Rightarrow> nat \<Rightarrow> virt \<Rightarrow> bool" where
  "vcpu_wf v i s \<longleftrightarrow> i < length (vcpus (vms s v)) \<and> length (local_desc (virqs v i s)) = VM_LOCAL_VIRQ_NR \<and>
     length (vspi_desc (vms s v)) = vspi_nr (vms s v) \<and> vm_irq_count (vms s v) \<le> 1020 \<and>
     vm_irq_count (vms s v) \<le> bm_cap (pending_bitmap (virqs v i s)) \<and> vm_irq_count (vms s v) \<le> bm_cap (active_bitmap (virqs v i s)) \<and>
     nr_lrs (virqs v i s) \<le> bm_cap (lrs_bitmap (virqs v i s)) \<and> nr_lrs (virqs v i s) \<le> 64 \<and>
     has_lr_ops (vms s v) \<and> gicv2_nr_lrs s = nr_lrs (virqs v i s) \<and> length (gich_lr s) = nr_lrs (virqs v i s)"

lemma vdesc_upd_desc [virq_simps]:
  assumes "vcpu_wf v i s" "b < vm_irq_count (vms s v)" "c < vm_irq_count (vms s v)"
  shows "vdesc v i c (upd_desc (vptr v i b) f s) = (if c = b then f (vdesc v i b s) else vdesc v i c s)"
  using assms by (auto simp: vdesc_def vptr_def vcpu_wf_def virq_simps virqs_upd_vm vm_irq_count_def)

lemma upd_desc_sel [virq_simps]:
  "length (vcpus (vms (upd_desc p f s) w)) = length (vcpus (vms s w))" "vspi_nr (vms (upd_desc p f s) w) = vspi_nr (vms s w)"
  "length (vspi_desc (vms (upd_desc p f s) w)) = length (vspi_desc (vms s w))"
  "vspi_map (vms (upd_desc p f s) w) = vspi_map (vms s w)" "chip_of (vms (upd_desc p f s) w) = chip_of (vms s w)"
  "vm_state_of (vms (upd_desc p f s) w) = vm_state_of (vms s w)" "host_vm (vms (upd_desc p f s) w) = host_vm (vms s w)"
  "gich_lr (upd_desc p f s) = gich_lr s" "gicv2_nr_lrs (upd_desc p f s) = gicv2_nr_lrs s" "current_vcpu (upd_desc p f s) = current_vcpu s"
  "stack_word (upd_desc p f s) = stack_word s"
  "length (local_desc (virqs w j (upd_desc p f s))) = length (local_desc (virqs w j s))"
  "pending_bitmap (virqs w j (upd_desc p f s)) = pending_bitmap (virqs w j s)" "active_bitmap (virqs w j (upd_desc p f s)) = active_bitmap (virqs w j s)"
  "lrs_bitmap (virqs w j (upd_desc p f s)) = lrs_bitmap (virqs w j s)" "nr_lrs (virqs w j (upd_desc p f s)) = nr_lrs (virqs w j s)"
  "last_fail_virq (virqs w j (upd_desc p f s)) = last_fail_virq (virqs w j s)"
  by (cases p; simp add: virq_simps virqs_upd_vm)+

lemma vdesc_upd_virqs [virq_simps]:
  "(\<And>x. local_desc (f x) = local_desc x) \<Longrightarrow> vdesc v i b (upd_virqs v i f s) = vdesc v i b s"
  by (auto simp: vdesc_def vptr_def virq_simps)

lemma irq_count_sel [virq_simps]:
  "vm_irq_count (vms (upd_virqs v i f s) w) = vm_irq_count (vms s w)" "vm_irq_count (vms (upd_desc p g s) w) = vm_irq_count (vms s w)"
  "has_lr_ops (vms (upd_virqs v i f s) w) = has_lr_ops (vms s w)" "has_lr_ops (vms (upd_desc p g s) w) = has_lr_ops (vms s w)"
  by (simp_all add: vm_irq_count_def has_lr_ops_def virq_simps)

lemma gich_lr_sel [virq_simps]:
  "virqs v i (s\<lparr>gich_lr := l\<rparr>) = virqs v i s" "vdesc v i b (s\<lparr>gich_lr := l\<rparr>) = vdesc v i b s"
  by (auto simp: virqs_def vdesc_def vptr_def)

lemma vcpu_wf_upd [virq_simps]:
  "vcpu_wf v i (upd_desc p g s) = vcpu_wf v i s"
  "(\<And>x. length (local_desc (f x)) = length (local_desc x) \<and> bm_cap (pending_bitmap (f x)) = bm_cap (pending_bitmap x) \<and>
      bm_cap (active_bitmap (f x)) = bm_cap (active_bitmap x) \<and> bm_cap (lrs_bitmap (f x)) = bm_cap (lrs_bitmap x) \<and> nr_lrs (f x) = nr_lrs x) \<Longrightarrow>
    vcpu_wf v i (upd_virqs v i f s) = vcpu_wf v i s"
  "length l = length (gich_lr s) \<Longrightarrow> vcpu_wf v i (s\<lparr>gich_lr := l\<rparr>) = vcpu_wf v i s"
  by (auto simp: vcpu_wf_def virq_simps)

lemma send_lr:
  assumes "vcpu_wf v i s" "unat (vd_id d) < nr_lrs (virqs v i s)"
  shows "\<exists>w pid. virqchip_send_virq v d s = s\<lparr>gich_lr := (gich_lr s)[unat (vd_id d) := w]\<rparr> \<and> w = gich_lr_val (stack_word s) (vno d) pid (vd_pr d) (virq_is_hw d)"
  using assms unfolding vcpu_wf_def virqchip_send_virq_def gicv2_send_virq_def by (auto simp: Let_def)

lemma clear_lr:
  "vcpu_wf v i s \<Longrightarrow> unat (vd_id d) < nr_lrs (virqs v i s) \<Longrightarrow>
    virqchip_update_virq v d VIRQ_ACTION_CLEAR s = s\<lparr>gich_lr := (gich_lr s)[unat (vd_id d) := 0]\<rparr>"
  unfolding vcpu_wf_def virqchip_update_virq_def gicv2_update_virq_def by (simp add: Let_def)

section \<open>List registers\<close>

definition lr_vid :: "u32 \<Rightarrow> nat" where
  "lr_vid w = unat (take_bit 10 w)"

definition lr_state :: "u32 \<Rightarrow> nat" where
  "lr_state w = unat (take_bit 2 (drop_bit 28 w))"

lemma lr_val_fields:
  assumes "unat vid < 1020"
  shows "lr_vid (gich_lr_val old vid pid p hw) = unat vid" "lr_state (gich_lr_val old vid pid p hw) = 1"
proof -
  let ?w = "gich_lr_val old vid pid p hw"
  have "take_bit 10 ?w = take_bit 10 (ucast vid)"
    unfolding gich_lr_val_def by (rule bit_word_eqI) (auto simp: bit_simps)
  moreover have "take_bit 10 (unat vid) = unat vid" using assms by (simp add: take_bit_nat_eq_self)
  moreover have "unat (ucast vid :: u32) = unat vid" using assms by (simp add: unsigned_ucast_eq take_bit_nat_eq_self)
  ultimately show "lr_vid ?w = unat vid" by (simp add: lr_vid_def unsigned_take_bit_eq)
  have "take_bit 2 (drop_bit 28 ?w) = 1"
    unfolding gich_lr_val_def by (rule bit_word_eqI) (auto simp: bit_simps)
  then show "lr_state ?w = 1" by (simp add: lr_state_def)
qed

definition pend :: "nat \<Rightarrow> nat \<Rightarrow> virt \<Rightarrow> nat \<Rightarrow> bool" where
  "pend v i s b \<longleftrightarrow> bm_bit (pending_bitmap (virqs v i s)) b"

definition act :: "nat \<Rightarrow> nat \<Rightarrow> virt \<Rightarrow> nat \<Rightarrow> bool" where
  "act v i s b \<longleftrightarrow> bm_bit (active_bitmap (virqs v i s)) b"

definition lr_used :: "nat \<Rightarrow> nat \<Rightarrow> virt \<Rightarrow> nat \<Rightarrow> bool" where
  "lr_used v i s k \<longleftrightarrow> bm_bit (lrs_bitmap (virqs v i s)) k"

definition lr_of :: "nat \<Rightarrow> nat \<Rightarrow> virt \<Rightarrow> nat \<Rightarrow> nat" where
  "lr_of v i s b = unat (vd_id (vdesc v i b s))"

text \<open>The used list registers hold exactly the active interrupts, each its own.\<close>

definition lr_inv :: "nat \<Rightarrow> nat \<Rightarrow> virt \<Rightarrow> bool" where
  "lr_inv v i s \<longleftrightarrow> vcpu_wf v i s \<and>
     (\<forall>b<vm_irq_count (vms s v). unat (vno (vdesc v i b s)) = b \<or> VM_LOCAL_VIRQ_NR \<le> b \<and> vno (vdesc v i b s) = 0) \<and>
     (\<forall>b<vm_irq_count (vms s v). pend v i s b \<longrightarrow> unat (vno (vdesc v i b s)) = b) \<and>
     (\<forall>b<vm_irq_count (vms s v). act v i s b \<longrightarrow> lr_of v i s b < nr_lrs (virqs v i s) \<and> lr_used v i s (lr_of v i s b) \<and>
        lr_vid (gich_lr s ! lr_of v i s b) = b) \<and>
     (\<forall>k<nr_lrs (virqs v i s). if lr_used v i s k then \<exists>b<vm_irq_count (vms s v). act v i s b \<and> lr_of v i s b = k else gich_lr s ! k = 0) \<and>
     last_fail_virq (virqs v i s) < vm_irq_count (vms s v)"

lemma lr_invD:
  assumes "lr_inv v i s"
  shows "vcpu_wf v i s" and "b < vm_irq_count (vms s v) \<Longrightarrow> unat (vno (vdesc v i b s)) = b \<or> VM_LOCAL_VIRQ_NR \<le> b \<and> vno (vdesc v i b s) = 0"
    and "b < vm_irq_count (vms s v) \<Longrightarrow> pend v i s b \<Longrightarrow> unat (vno (vdesc v i b s)) = b"
    and "b < vm_irq_count (vms s v) \<Longrightarrow> act v i s b \<Longrightarrow> lr_of v i s b < nr_lrs (virqs v i s) \<and> lr_used v i s (lr_of v i s b) \<and> lr_vid (gich_lr s ! lr_of v i s b) = b"
    and "k < nr_lrs (virqs v i s) \<Longrightarrow> lr_used v i s k \<Longrightarrow> \<exists>b<vm_irq_count (vms s v). act v i s b \<and> lr_of v i s b = k"
    and "k < nr_lrs (virqs v i s) \<Longrightarrow> \<not> lr_used v i s k \<Longrightarrow> gich_lr s ! k = 0"
    and "last_fail_virq (virqs v i s) < vm_irq_count (vms s v)"
  using assms unfolding lr_inv_def by (auto split: if_splits)

lemma lr_inv_inj: "lr_inv v i s \<Longrightarrow> b < vm_irq_count (vms s v) \<Longrightarrow> c < vm_irq_count (vms s v) \<Longrightarrow> act v i s b \<Longrightarrow> act v i s c \<Longrightarrow>
    lr_of v i s b = lr_of v i s c \<Longrightarrow> b = c"
  using lr_invD(4) by metis

text \<open>What a step leaves of the sizes.\<close>

definition same_vcpu :: "nat \<Rightarrow> nat \<Rightarrow> virt \<Rightarrow> virt \<Rightarrow> bool" where
  "same_vcpu v i s s' \<longleftrightarrow> vm_irq_count (vms s' v) = vm_irq_count (vms s v) \<and> nr_lrs (virqs v i s') = nr_lrs (virqs v i s)"

lemma same_vcpu_refl [simp]: "same_vcpu v i s s" by (simp add: same_vcpu_def)

lemma same_vcpu_trans: "same_vcpu v i s s1 \<Longrightarrow> same_vcpu v i s1 s2 \<Longrightarrow> same_vcpu v i s s2" by (simp add: same_vcpu_def)

lemma free_lr:
  assumes "vcpu_wf v i s"
  defines "k \<equiv> find_first_zero_bit (lrs_bitmap (virqs v i s)) (nr_lrs (virqs v i s))"
  shows "nr_lrs (virqs v i s) \<le> k \<longleftrightarrow> (\<forall>k<nr_lrs (virqs v i s). lr_used v i s k)" "k < nr_lrs (virqs v i s) \<Longrightarrow> \<not> lr_used v i s k"
proof -
  have "is_first (\<lambda>i'. \<not> bm_bit (lrs_bitmap (virqs v i s)) i') 0 (nr_lrs (virqs v i s)) k"
    unfolding k_def by (rule find_first_zero_bit_first) (use assms(1) in \<open>simp add: vcpu_wf_def\<close>)
  from is_first_none_iff [OF this] this
  show "nr_lrs (virqs v i s) \<le> k \<longleftrightarrow> (\<forall>k<nr_lrs (virqs v i s). lr_used v i s k)" "k < nr_lrs (virqs v i s) \<Longrightarrow> \<not> lr_used v i s k"
    unfolding lr_used_def by (auto simp: is_first_def)
qed

text \<open>The state after an interrupt was put into list register \<open>k\<close>.\<close>

lemma inject_ok:
  assumes inv: "lr_inv v i s" and b: "b < vm_irq_count (vms s v)" "pend v i s b" "\<not> act v i s b"
    and k: "k < nr_lrs (virqs v i s)" "\<not> lr_used v i s k" and st: "inject_virq v i b fl s = (stop, fl', s')"
    and kd: "k = find_first_zero_bit (lrs_bitmap (virqs v i s)) (nr_lrs (virqs v i s))"
  shows "\<not> stop" "lr_inv v i s'" "same_vcpu v i s s'" "pend v i s' c \<longleftrightarrow> c \<noteq> b \<and> pend v i s c" "act v i s' c \<longleftrightarrow> c = b \<or> act v i s c"
    "lr_state (gich_lr s' ! lr_of v i s' b) = 1" "lr_of v i s' b = k"
    "j \<noteq> k \<Longrightarrow> gich_lr s' ! j = gich_lr s ! j" "c \<noteq> b \<Longrightarrow> c < vm_irq_count (vms s v) \<Longrightarrow> lr_of v i s' c = lr_of v i s c"
    "last_fail_virq (virqs v i s') = last_fail_virq (virqs v i s)"
proof -
  note wf = lr_invD(1) [OF inv]
  let ?p = "vptr v i b" and ?n = "vm_irq_count (vms s v)"
  define s1 where "s1 = upd_desc ?p (\<lambda>d. d\<lparr>vd_id := of_nat k\<rparr>) s"
  define s2 where "s2 = upd_virqs v i (\<lambda>x. x\<lparr>lrs_bitmap := bm_set_bit k (lrs_bitmap x)\<rparr>) s1"
  have i: "i < length (vcpus (vms s v))" and k64: "k < 64" and caps: "k < bm_cap (lrs_bitmap (virqs v i s))" "b < bm_cap (pending_bitmap (virqs v i s))"
    "b < bm_cap (active_bitmap (virqs v i s))" "length (gich_lr s) = nr_lrs (virqs v i s)" "b < 1020" using wf b(1) k(1) by (auto simp: vcpu_wf_def)
  have uk: "unat (of_nat k :: u8) = k" using k64 by (simp add: unat_of_nat)
  have wf2: "vcpu_wf v i s2" using wf unfolding s2_def s1_def by (simp add: virq_simps)
  have d2: "vdesc v i b s2 = (vdesc v i b s)\<lparr>vd_id := of_nat k\<rparr>" using wf b(1) unfolding s2_def s1_def by (simp add: virq_simps)
  have nr2: "nr_lrs (virqs v i s2) = nr_lrs (virqs v i s)" "gich_lr s2 = gich_lr s" using i unfolding s2_def s1_def by (simp_all add: virq_simps)
  obtain w pid where w: "virqchip_send_virq v (desc_at ?p s2) s2 = s2\<lparr>gich_lr := (gich_lr s)[k := w]\<rparr>"
    "w = gich_lr_val (stack_word s2) (vno (vdesc v i b s)) pid (vd_pr (vdesc v i b s)) (virq_is_hw (desc_at ?p s2))"
    using send_lr [OF wf2, of "desc_at ?p s2"] k(1) d2 nr2 uk unfolding vdesc_def [symmetric] by auto
  have st': "\<not> stop" "s' = upd_virqs v i (\<lambda>x. x\<lparr>active_bitmap := bm_set_bit b (active_bitmap x), active_virq := active_virq x + 1,
                 pending_virq := pending_virq x - 1, pending_bitmap := bm_clear_bit b (pending_bitmap x)\<rparr>)
               (upd_desc ?p (\<lambda>d. d\<lparr>vd_state := VIRQ_STATE_PENDING\<rparr>) (s2\<lparr>gich_lr := (gich_lr s)[k := w]\<rparr>))"
    using st b k(1) w(1) unfolding s1_def s2_def inject_virq_def Let_def kd [symmetric] get_virq_desc_vptr by (auto simp: act_def)
  show "\<not> stop" by (rule st')
  have n': "vm_irq_count (vms s' v) = ?n" "nr_lrs (virqs v i s') = nr_lrs (virqs v i s)" using i unfolding st' s2_def s1_def by (simp_all add: virq_simps)
  then show "same_vcpu v i s s'" by (simp add: same_vcpu_def)
  show p': "pend v i s' c \<longleftrightarrow> c \<noteq> b \<and> pend v i s c" for c using i caps unfolding st' s2_def s1_def pend_def by (simp add: virq_simps bm_simps)
  show a': "act v i s' c \<longleftrightarrow> c = b \<or> act v i s c" for c using i caps unfolding st' s2_def s1_def act_def by (simp add: virq_simps bm_simps)
  have u': "lr_used v i s' j \<longleftrightarrow> j = k \<or> lr_used v i s j" for j using i caps unfolding st' s2_def s1_def lr_used_def by (simp add: virq_simps bm_simps)
  show lf: "last_fail_virq (virqs v i s') = last_fail_virq (virqs v i s)" using i unfolding st' s2_def s1_def by (simp add: virq_simps)
  have wf': "vcpu_wf v i s'" using wf2 unfolding st' nr2(2) [symmetric] by (simp add: virq_simps)
  have d': "vdesc v i c s' = (if c = b then (vdesc v i b s)\<lparr>vd_id := of_nat k, vd_state := 1\<rparr> else vdesc v i c s)" if "c < ?n" for c
    using wf b(1) that unfolding st' s2_def s1_def by (simp add: virq_simps)
  have g': "gich_lr s' = (gich_lr s)[k := w]" unfolding st' by (simp add: virq_simps)
  show lb: "lr_of v i s' b = k" using d' b(1) uk by (simp add: lr_of_def)
  show lc: "lr_of v i s' c = lr_of v i s c" if "c \<noteq> b" "c < ?n" for c using d' that by (simp add: lr_of_def)
  show gj: "gich_lr s' ! j = gich_lr s ! j" if "j \<noteq> k" for j using that by (simp add: g')
  have vn: "unat (vno (vdesc v i b s)) = b" using lr_invD(3) [OF inv b(1,2)] .
  have gk: "lr_vid (gich_lr s' ! k) = b" "lr_state (gich_lr s' ! k) = 1"
    using lr_val_fields [of "vno (vdesc v i b s)"] vn caps k(1) by (simp_all add: g' w(2))
  show "lr_state (gich_lr s' ! lr_of v i s' b) = 1" using gk lb by simp
  show "lr_inv v i s'" unfolding lr_inv_def n'
  proof (intro conjI allI impI)
    show "vcpu_wf v i s'" by (rule wf')
    show "unat (vno (vdesc v i c s')) = c \<or> VM_LOCAL_VIRQ_NR \<le> c \<and> vno (vdesc v i c s') = 0" if "c < ?n" for c
      using lr_invD(2) [OF inv that] d' [OF that] vn by auto
    show "unat (vno (vdesc v i c s')) = c" if "c < ?n" "pend v i s' c" for c using lr_invD(3) [OF inv that(1)] d' [OF that(1)] p' that(2) by auto
    show "lr_of v i s' c < nr_lrs (virqs v i s)" if "c < ?n" "act v i s' c" for c using lr_invD(4) [OF inv that(1)] lc [OF _ that(1)] lb k(1) a' that(2) by (cases "c = b") auto
    show "lr_used v i s' (lr_of v i s' c)" if "c < ?n" "act v i s' c" for c using lr_invD(4) [OF inv that(1)] lc [OF _ that(1)] lb u' a' that(2) by (cases "c = b") auto
    show "lr_vid (gich_lr s' ! lr_of v i s' c) = c" if "c < ?n" "act v i s' c" for c
      using lr_invD(4) [OF inv that(1)] lc [OF _ that(1)] lb gk gj k(2) a' that(2) by (cases "c = b") metis+
    show "if lr_used v i s' j then \<exists>c<?n. act v i s' c \<and> lr_of v i s' c = j else gich_lr s' ! j = 0" if jn: "j < nr_lrs (virqs v i s)" for j
    proof (cases "j = k")
      case True
      then show ?thesis using u' a' lb b(1) by auto
    next
      case False
      show ?thesis
      proof (cases "lr_used v i s j")
        case True
        then obtain c where "c < ?n" "act v i s c" "lr_of v i s c = j" using lr_invD(5) [OF inv jn] by blast
        moreover from this have "c \<noteq> b" using b(3) by auto
        ultimately show ?thesis using u' [of j] True a' [of c] lc [of c] by auto
      next
        case False
        then show ?thesis using lr_invD(6) [OF inv jn] u' [of j] gj [of j] \<open>j \<noteq> k\<close> by simp
      qed
    qed
    show "last_fail_virq (virqs v i s') < ?n" using lf lr_invD(7) [OF inv] by simp
  qed
qed

section \<open>The loops\<close>

lemma next_bit_ge: "find_next_bit bm sz b < sz \<Longrightarrow> b \<le> find_next_bit bm sz b \<and> bm_bit bm (find_next_bit bm sz b)"
  using find_next_bit_first [of bm b sz] by (auto simp: is_first_def)

lemma next_bit_none: "\<not> find_next_bit bm sz b < sz \<Longrightarrow> b \<le> c \<Longrightarrow> c < sz \<Longrightarrow> \<not> bm_bit bm c"
  using is_first_none_iff [OF find_next_bit_first [of bm b sz]] by auto

lemma next_bit_skip: "b \<le> c \<Longrightarrow> c < find_next_bit bm sz b \<Longrightarrow> \<not> bm_bit bm c"
  using find_next_bit_first [of bm b sz] by (auto simp: is_first_def)

lemma inject_loop_total: "\<exists>r. inject_loop v i b sz fl s = Some r"
proof (induction "sz - b" arbitrary: b fl s rule: less_induct)
  case less
  let ?b = "find_next_bit (pending_bitmap (virqs v i s)) sz b"
  obtain stop fl1 s1 where st: "inject_virq v i ?b fl s = (stop, fl1, s1)" by (metis prod_cases3)
  show ?case
  proof (cases "?b < sz \<and> \<not> stop")
    case True
    then have "sz - Suc ?b < sz - b" using next_bit_ge [of "pending_bitmap (virqs v i s)" sz b] by auto
    from less [OF this] show ?thesis using True st by (subst inject_loop.simps) (auto simp: Let_def)
  qed (use st in \<open>subst inject_loop.simps, auto simp: Let_def\<close>)
qed

lemma retire_loop_total: "\<exists>s'. retire_loop v i b sz s = Some s'"
proof (induction "sz - b" arbitrary: b s rule: less_induct)
  case less
  let ?b = "find_next_bit (active_bitmap (virqs v i s)) sz b"
  show ?case
  proof (cases "?b < sz")
    case True
    then have "sz - Suc ?b < sz - b" using next_bit_ge [of "active_bitmap (virqs v i s)" sz b] by auto
    from less [OF this] show ?thesis using True by (subst retire_loop.simps) (auto simp: Let_def)
  qed (subst retire_loop.simps, simp add: Let_def)
qed

lemma inject_repeat_total: "\<exists>r. inject_repeat v i b sz old fl s = Some r"
proof -
  have once: "\<exists>r. inject_repeat v i b sz 0 fl s = Some r" for b sz fl s
    using inject_loop_total [of v i b sz fl s] by (subst inject_repeat.simps) auto
  obtain fl1 s1 where "inject_loop v i b sz fl s = Some (fl1, s1)" using inject_loop_total [of v i b sz fl s] by auto
  then show ?thesis using once [of 0 old fl1 s1] by (subst inject_repeat.simps) auto
qed

text \<open>What the injection of the interrupts from \<open>b\<close> up to \<open>sz\<close> achieves.\<close>

definition delivered :: "nat \<Rightarrow> nat \<Rightarrow> nat \<Rightarrow> nat \<Rightarrow> virt \<Rightarrow> virt \<Rightarrow> bool" where
  "delivered v i b sz s s' \<longleftrightarrow> lr_inv v i s' \<and> same_vcpu v i s s' \<and>
     (\<forall>c<vm_irq_count (vms s v).
        (pend v i s c \<longrightarrow> pend v i s' c \<or> act v i s' c \<and> \<not> act v i s c \<and> lr_state (gich_lr s' ! lr_of v i s' c) = 1) \<and>
        (pend v i s' c \<longrightarrow> pend v i s c) \<and>
        (act v i s c \<longrightarrow> act v i s' c \<and> lr_of v i s' c = lr_of v i s c \<and> gich_lr s' ! lr_of v i s c = gich_lr s ! lr_of v i s c)) \<and>
     ((\<forall>k<nr_lrs (virqs v i s). lr_used v i s' k) \<or> (\<forall>c. b \<le> c \<and> c < sz \<and> pend v i s' c \<longrightarrow> act v i s c))"

lemma last_fail_upd:
  assumes inv: "lr_inv v i s" and b: "b < vm_irq_count (vms s v)"
  defines "s' \<equiv> upd_virqs v i (\<lambda>x. x\<lparr>last_fail_virq := b\<rparr>) s"
  shows "lr_inv v i s'" "same_vcpu v i s s'" "pend v i s' = pend v i s" "act v i s' = act v i s" "lr_used v i s' = lr_used v i s"
    "lr_of v i s' = lr_of v i s" "gich_lr s' = gich_lr s" "last_fail_virq (virqs v i s') = b"
proof -
  have i: "i < length (vcpus (vms s v))" using lr_invD(1) [OF inv] by (simp add: vcpu_wf_def)
  show eqs: "pend v i s' = pend v i s" "act v i s' = act v i s" "lr_used v i s' = lr_used v i s" "lr_of v i s' = lr_of v i s" "gich_lr s' = gich_lr s"
    "same_vcpu v i s s'" "last_fail_virq (virqs v i s') = b"
    using i by (auto simp: s'_def fun_eq_iff pend_def act_def lr_used_def lr_of_def same_vcpu_def virq_simps)
  have "vcpu_wf v i s'" "vdesc v i c s' = vdesc v i c s" for c using lr_invD(1) [OF inv] by (auto simp: s'_def virq_simps)
  then show "lr_inv v i s'" using inv b eqs by (simp add: lr_inv_def same_vcpu_def)
qed

lemma inject_step:
  assumes inv: "lr_inv v i s" and b: "b < vm_irq_count (vms s v)" "pend v i s b" and st: "inject_virq v i b fl s = (stop, fl', s')"
  shows "delivered v i b (Suc b) s s'" "stop \<Longrightarrow> \<forall>k<nr_lrs (virqs v i s). lr_used v i s' k"
    "c < vm_irq_count (vms s v) \<Longrightarrow> c \<noteq> b \<Longrightarrow> pend v i s' c = pend v i s c \<and> act v i s' c = act v i s c"
proof -
  let ?n = "vm_irq_count (vms s v)" and ?k = "find_first_zero_bit (lrs_bitmap (virqs v i s)) (nr_lrs (virqs v i s))"
  note fl = free_lr [OF lr_invD(1) [OF inv]]
  consider "act v i s b" | "\<not> act v i s b" "nr_lrs (virqs v i s) \<le> ?k" | "\<not> act v i s b" "?k < nr_lrs (virqs v i s)" by linarith
  then have "delivered v i b (Suc b) s s' \<and> (stop \<longrightarrow> (\<forall>k<nr_lrs (virqs v i s). lr_used v i s' k)) \<and>
      (\<forall>c<?n. c \<noteq> b \<longrightarrow> pend v i s' c = pend v i s c \<and> act v i s' c = act v i s c)"
  proof cases
    case 1
    then have "\<not> stop" "s' = s" using st b by (auto simp: inject_virq_def Let_def get_virq_desc_vptr act_def)
    then show ?thesis using 1 inv by (auto simp: delivered_def less_Suc_eq_le)
  next
    case 2
    then have "s' = upd_virqs v i (\<lambda>x. x\<lparr>last_fail_virq := b\<rparr>) s" using st b by (auto simp: inject_virq_def Let_def get_virq_desc_vptr act_def)
    then show ?thesis using last_fail_upd [OF inv b(1)] fl(1) 2(2) by (simp add: delivered_def)
  next
    case 3
    note ok = inject_ok [OF inv b 3 fl(2) [OF 3(2)] st refl]
    have "lr_of v i s c \<noteq> ?k" if "c < ?n" "act v i s c" for c using lr_invD(4) [OF inv that] fl(2) [OF 3(2)] by metis
    moreover have "lr_of v i s' c = lr_of v i s c" if "c < ?n" "act v i s c" for c using ok(9) [of c] that 3(1) by blast
    ultimately show ?thesis using ok(1-8) 3(1) by (auto simp: delivered_def less_Suc_eq_le)
  qed
  then show "delivered v i b (Suc b) s s'" "stop \<Longrightarrow> \<forall>k<nr_lrs (virqs v i s). lr_used v i s' k"
    "c < ?n \<Longrightarrow> c \<noteq> b \<Longrightarrow> pend v i s' c = pend v i s c \<and> act v i s' c = act v i s c" by blast+
qed

lemma delivered_refl: "lr_inv v i s \<Longrightarrow> (\<And>c. b \<le> c \<Longrightarrow> c < sz \<Longrightarrow> \<not> pend v i s c) \<Longrightarrow> delivered v i b sz s s"
  by (auto simp: delivered_def)

lemma delivered_full: "delivered v i b sz s s' \<Longrightarrow> \<forall>k<nr_lrs (virqs v i s). lr_used v i s' k \<Longrightarrow> delivered v i b' sz' s s'"
  by (auto simp: delivered_def)

lemma deliveredD:
  assumes "delivered v i b sz s s'" "c < vm_irq_count (vms s v)"
  shows "pend v i s c \<Longrightarrow> pend v i s' c \<or> act v i s' c \<and> \<not> act v i s c \<and> lr_state (gich_lr s' ! lr_of v i s' c) = 1"
    "pend v i s' c \<Longrightarrow> pend v i s c"
    "act v i s c \<Longrightarrow> act v i s' c \<and> lr_of v i s' c = lr_of v i s c \<and> gich_lr s' ! lr_of v i s c = gich_lr s ! lr_of v i s c"
  using assms by (auto simp: delivered_def)

lemma delivered_used:
  assumes "lr_inv v i s" "delivered v i b sz s s'" "k < nr_lrs (virqs v i s)" "lr_used v i s k"
  shows "lr_used v i s' k"
proof -
  obtain c where c: "c < vm_irq_count (vms s v)" "act v i s c" "lr_of v i s c = k" using lr_invD(5) [OF assms(1,3,4)] by blast
  then have "act v i s' c" "lr_of v i s' c = k" using deliveredD(3) [OF assms(2) c(1)] by auto
  then show ?thesis using lr_invD(4) [of v i s' c] c(1) assms(2) by (auto simp: delivered_def same_vcpu_def)
qed

lemma delivered_trans:
  assumes 1: "delivered v i b0 c0 s s1" and 2: "delivered v i b1 c1 s1 s2"
    and last: "(\<forall>k<nr_lrs (virqs v i s). lr_used v i s2 k) \<or> (\<forall>c. b \<le> c \<and> c < sz \<and> pend v i s2 c \<longrightarrow> act v i s c)"
  shows "delivered v i b sz s s2"
proof -
  have same: "same_vcpu v i s s1" "same_vcpu v i s1 s2" and inv: "lr_inv v i s2" using 1 2 by (auto simp: delivered_def)
  have "(pend v i s c \<longrightarrow> pend v i s2 c \<or> act v i s2 c \<and> \<not> act v i s c \<and> lr_state (gich_lr s2 ! lr_of v i s2 c) = 1) \<and>
        (pend v i s2 c \<longrightarrow> pend v i s c) \<and>
        (act v i s c \<longrightarrow> act v i s2 c \<and> lr_of v i s2 c = lr_of v i s c \<and> gich_lr s2 ! lr_of v i s c = gich_lr s ! lr_of v i s c)"
    if c: "c < vm_irq_count (vms s v)" for c
  proof -
    have c': "c < vm_irq_count (vms s1 v)" using c same(1) by (simp add: same_vcpu_def)
    show ?thesis using deliveredD [OF 1 c] deliveredD [OF 2 c'] by auto
  qed
  then show ?thesis unfolding delivered_def using inv same_vcpu_trans [OF same] last by blast
qed

lemma inject_loop_ok:
  assumes "lr_inv v i s" "sz \<le> vm_irq_count (vms s v)" "inject_loop v i b sz fl s = Some (fl', s')"
  shows "delivered v i b sz s s'"
  using assms
proof (induction "sz - b" arbitrary: b fl s rule: less_induct)
  case less
  let ?b = "find_next_bit (pending_bitmap (virqs v i s)) sz b"
  show ?case
  proof (cases "?b < sz")
    case False
    then have "s' = s" using less.prems(3) by (subst (asm) inject_loop.simps) (simp add: Let_def)
    then show ?thesis using delivered_refl [OF less.prems(1), of b sz] next_bit_none [OF False] by (auto simp: pend_def)
  next
    case True
    obtain stop fl1 s1 where st: "inject_virq v i ?b fl s = (stop, fl1, s1)" by (metis prod_cases3)
    have ge: "b \<le> ?b" "pend v i s ?b" using next_bit_ge [OF True] by (auto simp: pend_def)
    have bn: "?b < vm_irq_count (vms s v)" using True less.prems(2) by simp
    note step = inject_step [OF less.prems(1) bn ge(2) st]
    show ?thesis
    proof (cases stop)
      case True
      then have "s' = s1" using less.prems(3) st \<open>?b < sz\<close> by (subst (asm) inject_loop.simps) (simp add: Let_def)
      then show ?thesis using delivered_full [OF step(1)] step(2) True by blast
    next
      case False
      then have rec: "inject_loop v i (Suc ?b) sz fl1 s1 = Some (fl', s')" using less.prems(3) st True by (subst (asm) inject_loop.simps) (simp add: Let_def)
      have s1: "lr_inv v i s1" "same_vcpu v i s s1" using step(1) by (auto simp: delivered_def)
      have "sz - Suc ?b < sz - b" using ge(1) True by simp
      from less.hyps [OF this s1(1) _ rec] have d2: "delivered v i (Suc ?b) sz s1 s'" using less.prems(2) s1(2) by (simp add: same_vcpu_def)
      have n: "x < vm_irq_count (vms s v)" "x < vm_irq_count (vms s1 v)" if "x < sz" for x using that less.prems(2) s1(2) by (simp_all add: same_vcpu_def)
      have nr: "nr_lrs (virqs v i s1) = nr_lrs (virqs v i s)" using s1(2) by (simp add: same_vcpu_def)
      have "act v i s c" if last: "\<not> (\<forall>k<nr_lrs (virqs v i s). lr_used v i s' k)" and c: "b \<le> c" "c < sz" "pend v i s' c" for c
      proof -
        have p: "pend v i s1 c" "pend v i s c" using deliveredD(2) [OF d2 n(2) [OF c(2)]] deliveredD(2) [OF step(1) n(1) [OF c(2)]] c(3) by auto
        consider "c < ?b" | "c = ?b" | "?b < c" by linarith
        then show ?thesis
        proof cases
          case 1
          then show ?thesis using next_bit_skip [OF c(1) 1] p(2) by (simp add: pend_def)
        next
          case 2
          have "\<not> (\<forall>k<nr_lrs (virqs v i s). lr_used v i s1 k)" using last delivered_used [OF s1(1) d2] nr by auto
          then show ?thesis using step(1) 2 p(1) by (auto simp: delivered_def)
        next
          case 3
          have "act v i s1 c" using d2 last 3 c nr by (auto simp: delivered_def)
          then show ?thesis using step(3) [OF n(1) [OF c(2)]] 3 by simp
        qed
      qed
      then show ?thesis by (intro delivered_trans [OF step(1) d2]) blast
    qed
  qed
qed

lemma delivered_weaken: "delivered v i b sz s s' \<Longrightarrow> delivered v i 0 0 s s'"
  by (auto simp: delivered_def)

lemma inject_repeat_ok:
  assumes inv: "lr_inv v i s" and sz: "sz \<le> vm_irq_count (vms s v)" "old \<le> vm_irq_count (vms s v)"
    and st: "inject_repeat v i b sz old fl s = Some (fl', s')"
  shows "if old = 0 then delivered v i b sz s s' else delivered v i 0 0 s s'"
proof -
  have once: "delivered v i b sz s s'" if "lr_inv v i s" "sz \<le> vm_irq_count (vms s v)" "inject_repeat v i b sz 0 fl s = Some (fl', s')" for b sz fl s
  proof -
    note st = that(3)
    obtain fl1 where "inject_loop v i b sz fl s = Some (fl1, s')" using st by (subst (asm) inject_repeat.simps) (auto split: option.splits)
    then show ?thesis using inject_loop_ok that by blast
  qed
  obtain fl1 s1 where l: "inject_loop v i b sz fl s = Some (fl1, s1)" using inject_loop_total [of v i b sz fl s] by auto
  note d1 = inject_loop_ok [OF inv sz(1) l]
  have s1: "lr_inv v i s1" "vm_irq_count (vms s1 v) = vm_irq_count (vms s v)" using d1 by (auto simp: delivered_def same_vcpu_def)
  show ?thesis
  proof (cases "old \<noteq> 0 \<and> last_fail_virq (virqs v i s1) = 0")
    case True
    then have "inject_repeat v i 0 old 0 fl1 s1 = Some (fl', s')" using st l by (subst (asm) inject_repeat.simps) simp
    from once [OF s1(1) _ this] have "delivered v i 0 old s1 s'" using sz(2) s1(2) by simp
    from delivered_trans [OF d1 this, of 0 0] show ?thesis using True by simp
  next
    case False
    then have "s' = s1" using st l by (subst (asm) inject_repeat.simps) (auto split: if_splits)
    then show ?thesis using d1 delivered_weaken by auto
  qed
qed

lemma delivered_last_fail:
  assumes "lr_inv v i s" "b < vm_irq_count (vms s v)" "delivered v i c sz (upd_virqs v i (\<lambda>x. x\<lparr>last_fail_virq := b\<rparr>) s) s'"
  shows "delivered v i c sz s s'"
  using assms(3) last_fail_upd [OF assms(1,2)] by (simp add: delivered_def same_vcpu_def)

lemma enter_ok:
  assumes inv: "lr_inv v i s" and st: "vgic_irq_enter_to_guest v i s = Some (fl, s')"
  shows "delivered v i 0 (if last_fail_virq (virqs v i s) = 0 then vm_irq_count (vms s v) else 0) s s'"
proof -
  let ?b = "last_fail_virq (virqs v i s)" and ?s = "upd_virqs v i (\<lambda>x. x\<lparr>last_fail_virq := 0\<rparr>) s"
  have n: "0 < vm_irq_count (vms s v)" by (simp add: vm_irq_count_def)
  note u = last_fail_upd [OF inv n]
  have n': "vm_irq_count (vms ?s v) = vm_irq_count (vms s v)" using u(2) by (simp add: same_vcpu_def)
  have "inject_repeat v i ?b (vm_irq_count (vms s v) - ?b) ?b 0 ?s = Some (fl, s')" using st by (simp add: vgic_irq_enter_to_guest_def Let_def)
  from inject_repeat_ok [OF u(1) _ _ this] show ?thesis
    using lr_invD(7) [OF inv] n' delivered_last_fail [OF inv n] by (auto split: if_splits)
qed

section \<open>Leaving the guest\<close>

lemma desc_upd_ok:
  assumes inv: "lr_inv v i s" and b: "b < vm_irq_count (vms s v)" and f: "\<And>d. vno (f d) = vno d \<and> vd_id (f d) = vd_id d"
  defines "s' \<equiv> upd_desc (vptr v i b) f s"
  shows "lr_inv v i s'" "same_vcpu v i s s'" "pend v i s' = pend v i s" "act v i s' = act v i s" "gich_lr s' = gich_lr s" "has_lr_ops (vms s' v) = has_lr_ops (vms s v)"
    "c < vm_irq_count (vms s v) \<Longrightarrow> lr_of v i s' c = lr_of v i s c" "vdesc v i b s' = f (vdesc v i b s)"
proof -
  note wf = lr_invD(1) [OF inv]
  show eqs: "same_vcpu v i s s'" "pend v i s' = pend v i s" "act v i s' = act v i s" "gich_lr s' = gich_lr s" "has_lr_ops (vms s' v) = has_lr_ops (vms s v)"
    by (auto simp: s'_def same_vcpu_def pend_def act_def fun_eq_iff virq_simps)
  have d: "vdesc v i c s' = (if c = b then f (vdesc v i b s) else vdesc v i c s)" if "c < vm_irq_count (vms s v)" for c
    using wf b that by (simp add: s'_def virq_simps)
  then show l: "lr_of v i s' c = lr_of v i s c" if "c < vm_irq_count (vms s v)" for c using that f by (simp add: lr_of_def)
  show "vdesc v i b s' = f (vdesc v i b s)" using d b by simp
  have "vcpu_wf v i s'" "lr_used v i s' = lr_used v i s" "last_fail_virq (virqs v i s') = last_fail_virq (virqs v i s)"
    using wf by (auto simp: s'_def lr_used_def fun_eq_iff virq_simps)
  moreover have "vno (vdesc v i c s') = vno (vdesc v i c s)" if "c < vm_irq_count (vms s v)" for c using d [OF that] f by simp
  ultimately show "lr_inv v i s'" using inv eqs l by (simp add: lr_inv_def same_vcpu_def cong: conj_cong)
qed

text \<open>Taking a finished interrupt out of its list register.\<close>

lemma clear_ok:
  assumes inv: "lr_inv v i s" and b: "b < vm_irq_count (vms s v)" "act v i s b"
  defines "d \<equiv> vdesc v i b s"
  defines "s' \<equiv> upd_virqs v i (\<lambda>x. x\<lparr>active_virq := active_virq x - 1, active_bitmap := bm_clear_bit b (active_bitmap x)\<rparr>)
    (upd_desc (vptr v i b) (\<lambda>d. d\<lparr>vd_id := VIRQ_INVALID_ID\<rparr>)
      (upd_virqs v i (\<lambda>x. x\<lparr>lrs_bitmap := bm_clear_bit (unat (vd_id d)) (lrs_bitmap x)\<rparr>) (virqchip_update_virq v d VIRQ_ACTION_CLEAR s)))"
  shows "lr_inv v i s'" "same_vcpu v i s s'" "pend v i s' = pend v i s" "act v i s' c \<longleftrightarrow> act v i s c \<and> c \<noteq> b"
    "c < vm_irq_count (vms s v) \<Longrightarrow> c \<noteq> b \<Longrightarrow> act v i s c \<Longrightarrow> lr_of v i s' c = lr_of v i s c \<and> gich_lr s' ! lr_of v i s c = gich_lr s ! lr_of v i s c"
proof -
  note wf = lr_invD(1) [OF inv]
  let ?n = "vm_irq_count (vms s v)" and ?k = "lr_of v i s b"
  have k: "?k < nr_lrs (virqs v i s)" "lr_used v i s ?k" "unat (vd_id d) = ?k" using lr_invD(4) [OF inv b] by (auto simp: d_def lr_of_def)
  have i: "i < length (vcpus (vms s v))" and caps: "?k < bm_cap (lrs_bitmap (virqs v i s))" "b < bm_cap (active_bitmap (virqs v i s))"
    "length (gich_lr s) = nr_lrs (virqs v i s)" using wf b(1) k(1) by (auto simp: vcpu_wf_def)
  have up: "virqchip_update_virq v d VIRQ_ACTION_CLEAR s = s\<lparr>gich_lr := (gich_lr s)[?k := 0]\<rparr>" using clear_lr [OF wf, of d] k by simp
  note s'_eq = s'_def [unfolded up k(3)]
  show n': "same_vcpu v i s s'" using i by (simp add: s'_eq same_vcpu_def virq_simps)
  show p': "pend v i s' = pend v i s" using i by (auto simp: s'_eq pend_def fun_eq_iff virq_simps)
  show a': "act v i s' c \<longleftrightarrow> act v i s c \<and> c \<noteq> b" for c using i caps by (auto simp: s'_eq act_def virq_simps bm_simps)
  have u': "lr_used v i s' j \<longleftrightarrow> lr_used v i s j \<and> j \<noteq> ?k" for j using i caps by (auto simp: s'_eq lr_used_def virq_simps bm_simps)
  have wf': "vcpu_wf v i s'" and lf: "last_fail_virq (virqs v i s') = last_fail_virq (virqs v i s)" using wf i by (simp_all add: s'_eq virq_simps)
  have g': "gich_lr s' = (gich_lr s)[?k := 0]" by (simp add: s'_eq virq_simps)
  have d': "vdesc v i c s' = (if c = b then (vdesc v i b s)\<lparr>vd_id := VIRQ_INVALID_ID\<rparr> else vdesc v i c s)" if "c < ?n" for c
    using wf b(1) that by (simp add: s'_eq virq_simps)
  have other: "lr_of v i s c \<noteq> ?k" if "c < ?n" "c \<noteq> b" "act v i s c" for c using lr_inv_inj [OF inv that(1) b(1) that(3) b(2)] that(2) by blast
  show lc: "lr_of v i s' c = lr_of v i s c \<and> gich_lr s' ! lr_of v i s c = gich_lr s ! lr_of v i s c" if "c < ?n" "c \<noteq> b" "act v i s c" for c
    using d' [OF that(1)] that(2) other [OF that] by (simp add: lr_of_def g')
  have vn: "vno (vdesc v i c s') = vno (vdesc v i c s)" if "c < ?n" for c using d' [OF that] by simp
  have n1: "vm_irq_count (vms s' v) = ?n" "nr_lrs (virqs v i s') = nr_lrs (virqs v i s)" using n' by (simp_all add: same_vcpu_def)
  show "lr_inv v i s'" unfolding lr_inv_def n1 p' lf
  proof (intro conjI allI impI)
    show "vcpu_wf v i s'" by (rule wf')
    show "unat (vno (vdesc v i c s')) = c \<or> 32 \<le> c \<and> vno (vdesc v i c s') = 0" if "c < ?n" for c using lr_invD(2) [OF inv that] vn [OF that] by simp
    show "unat (vno (vdesc v i c s')) = c" if "c < ?n" "pend v i s c" for c using lr_invD(3) [OF inv that] vn [OF that(1)] by simp
    show "lr_of v i s' c < nr_lrs (virqs v i s)" "lr_used v i s' (lr_of v i s' c)" "lr_vid (gich_lr s' ! lr_of v i s' c) = c" if "c < ?n" "act v i s' c" for c
      using lr_invD(4) [OF inv that(1)] lc [OF that(1)] other [OF that(1)] u' a' [of c] that(2) by auto
    show "if lr_used v i s' j then \<exists>c<?n. act v i s' c \<and> lr_of v i s' c = j else gich_lr s' ! j = 0" if jn: "j < nr_lrs (virqs v i s)" for j
    proof (cases "lr_used v i s' j")
      case True
      then obtain c where c: "c < ?n" "act v i s c" "lr_of v i s c = j" "j \<noteq> ?k" using lr_invD(5) [OF inv jn] u' by blast
      then have "c \<noteq> b" by auto
      then show ?thesis using True c a' [of c] lc [OF c(1) _ c(2)] by auto
    next
      case False
      then show ?thesis using u' [of j] lr_invD(6) [OF inv jn] jn caps(3) by (cases "j = ?k") (auto simp: g')
    qed
    show "last_fail_virq (virqs v i s) < ?n" by (rule lr_invD(7) [OF inv])
  qed
qed

lemma retire_ok:
  assumes inv: "lr_inv v i s" and b: "b < vm_irq_count (vms s v)" "act v i s b"
  defines "s' \<equiv> retire_virq v i b s"
  shows "lr_inv v i s'" "same_vcpu v i s s'" "pend v i s' = pend v i s"
    "act v i s' c \<longleftrightarrow> act v i s c \<and> \<not> (c = b \<and> lr_state (gich_lr s ! lr_of v i s b) = 0)"
    "c < vm_irq_count (vms s v) \<Longrightarrow> act v i s' c \<Longrightarrow> lr_of v i s' c = lr_of v i s c \<and> gich_lr s' ! lr_of v i s c = gich_lr s ! lr_of v i s c"
proof -
  let ?k = "lr_of v i s b"
  have k: "?k < nr_lrs (virqs v i s)" using lr_invD(4) [OF inv b] by auto
  define st where "st = virqchip_get_virq_state v (vdesc v i b s) s"
  have "st = ucast (drop_bit 28 (gich_lr s ! ?k) AND 3)"
    using lr_invD(1) [OF inv] k by (simp add: st_def virqchip_get_virq_state_def gicv2_get_virq_state_def lr_of_def vcpu_wf_def)
  moreover have "(drop_bit 28 (gich_lr s ! ?k) AND 3) = take_bit 2 (drop_bit 28 (gich_lr s ! ?k))" by (simp add: take_bit_eq_mask mask_eq_exp_minus_1)
  ultimately have st0: "st = 0 \<longleftrightarrow> lr_state (gich_lr s ! ?k) = 0"
    by (simp add: lr_state_def word_unat_eq_iff unsigned_ucast_eq unsigned_take_bit_eq)
  define s1 where "s1 = upd_desc (vptr v i b) (\<lambda>d. d\<lparr>vd_state := st\<rparr>) s"
  have f: "vno (d\<lparr>vd_state := st\<rparr>) = vno d \<and> vd_id (d\<lparr>vd_state := st\<rparr>) = vd_id d" for d :: virq_desc by simp
  note u = desc_upd_ok [OF inv b(1) f, folded s1_def]
  have b1: "b < vm_irq_count (vms s1 v)" "act v i s1 b" using b u(2,4) by (simp_all add: same_vcpu_def)
  note c = clear_ok [OF u(1) b1]
  have "lr_inv v i s' \<and> same_vcpu v i s s' \<and> pend v i s' = pend v i s \<and> (\<forall>c. act v i s' c \<longleftrightarrow> act v i s c \<and> \<not> (c = b \<and> st = 0)) \<and>
    (\<forall>c<vm_irq_count (vms s v). act v i s' c \<longrightarrow> lr_of v i s' c = lr_of v i s c \<and> gich_lr s' ! lr_of v i s c = gich_lr s ! lr_of v i s c)"
  proof (cases "st = 0")
    case True
    then have s': "s' = upd_virqs v i (\<lambda>x. x\<lparr>active_virq := active_virq x - 1, active_bitmap := bm_clear_bit b (active_bitmap x)\<rparr>)
      (upd_desc (vptr v i b) (\<lambda>d. d\<lparr>vd_id := VIRQ_INVALID_ID\<rparr>) (upd_virqs v i (\<lambda>x. x\<lparr>lrs_bitmap := bm_clear_bit (unat (vd_id (vdesc v i b s1))) (lrs_bitmap x)\<rparr>)
        (virqchip_update_virq v (vdesc v i b s1) VIRQ_ACTION_CLEAR s1)))"
      using b(1) by (simp add: s'_def retire_virq_def get_virq_desc_vptr Let_def s1_def st_def vdesc_def)
    have n: "vm_irq_count (vms s1 v) = vm_irq_count (vms s v)" using u(2) by (simp add: same_vcpu_def)
    show ?thesis using c [folded s'] u(3,4,5,7) same_vcpu_trans [OF u(2)] True unfolding n by auto
  next
    case False
    then have "s' = s1" using b(1) by (simp add: s'_def retire_virq_def get_virq_desc_vptr Let_def s1_def st_def vdesc_def)
    then show ?thesis using u False by auto
  qed
  then show "lr_inv v i s'" "same_vcpu v i s s'" "pend v i s' = pend v i s"
    "act v i s' c \<longleftrightarrow> act v i s c \<and> \<not> (c = b \<and> lr_state (gich_lr s ! lr_of v i s b) = 0)"
    "c < vm_irq_count (vms s v) \<Longrightarrow> act v i s' c \<Longrightarrow> lr_of v i s' c = lr_of v i s c \<and> gich_lr s' ! lr_of v i s c = gich_lr s ! lr_of v i s c"
    using st0 by blast+
qed

text \<open>After leaving the guest the interrupts in the range whose list register is inactive are retired.\<close>

definition retired :: "nat \<Rightarrow> nat \<Rightarrow> nat \<Rightarrow> nat \<Rightarrow> virt \<Rightarrow> virt \<Rightarrow> bool" where
  "retired v i b sz s s' \<longleftrightarrow> lr_inv v i s' \<and> same_vcpu v i s s' \<and> pend v i s' = pend v i s \<and>
     (\<forall>c<vm_irq_count (vms s v). (act v i s' c \<longleftrightarrow> act v i s c \<and> \<not> (b \<le> c \<and> c < sz \<and> lr_state (gich_lr s ! lr_of v i s c) = 0)) \<and>
        (act v i s' c \<longrightarrow> lr_of v i s' c = lr_of v i s c \<and> gich_lr s' ! lr_of v i s c = gich_lr s ! lr_of v i s c))"

lemma retire_loop_ok:
  assumes "lr_inv v i s" "sz \<le> vm_irq_count (vms s v)" "retire_loop v i b sz s = Some s'"
  shows "retired v i b sz s s'"
  using assms
proof (induction "sz - b" arbitrary: b s rule: less_induct)
  case less
  let ?b = "find_next_bit (active_bitmap (virqs v i s)) sz b" and ?n = "vm_irq_count (vms s v)"
  show ?case
  proof (cases "?b < sz")
    case False
    then have "s' = s" using less.prems(3) by (subst (asm) retire_loop.simps) (simp add: Let_def)
    then show ?thesis using less.prems(1) next_bit_none [OF False] by (auto simp: retired_def act_def)
  next
    case True
    let ?s = "retire_virq v i ?b s"
    have ge: "b \<le> ?b" "act v i s ?b" using next_bit_ge [OF True] by (auto simp: act_def)
    have bn: "?b < ?n" using True less.prems(2) by simp
    note r = retire_ok [OF less.prems(1) bn ge(2)]
    have rec: "retire_loop v i (Suc ?b) sz ?s = Some s'" using less.prems(3) True by (subst (asm) retire_loop.simps) (simp add: Let_def)
    have n: "vm_irq_count (vms ?s v) = ?n" using r(2) by (simp add: same_vcpu_def)
    have "sz - Suc ?b < sz - b" using ge(1) True by simp
    from less.hyps [OF this r(1) _ rec] have d: "retired v i (Suc ?b) sz ?s s'" using less.prems(2) n by simp
    have "(act v i s' c \<longleftrightarrow> act v i s c \<and> \<not> (b \<le> c \<and> c < sz \<and> lr_state (gich_lr s ! lr_of v i s c) = 0)) \<and>
        (act v i s' c \<longrightarrow> lr_of v i s' c = lr_of v i s c \<and> gich_lr s' ! lr_of v i s c = gich_lr s ! lr_of v i s c)" if c: "c < ?n" for c
    proof -
      have d': "act v i s' c \<longleftrightarrow> act v i ?s c \<and> \<not> (Suc ?b \<le> c \<and> c < sz \<and> lr_state (gich_lr ?s ! lr_of v i ?s c) = 0)"
        "act v i s' c \<Longrightarrow> lr_of v i s' c = lr_of v i ?s c \<and> gich_lr s' ! lr_of v i ?s c = gich_lr ?s ! lr_of v i ?s c" using d c n by (auto simp: retired_def)
      have skip: "\<not> act v i s c" if "b \<le> c" "c < ?b" using next_bit_skip [OF that] by (simp add: act_def)
      show ?thesis
      proof (cases "c = ?b")
        case True
        then show ?thesis using d' r(4) [of c] r(5) [OF c] ge \<open>?b < sz\<close> by auto
      next
        case False
        then show ?thesis using d' r(4) [of c] r(5) [OF c] skip ge(1) by (cases "act v i s c") auto
      qed
    qed
    then show ?thesis using d same_vcpu_trans [OF r(2)] r(3) by (auto simp: retired_def)
  qed
qed

section \<open>The delivery protocol\<close>

lemma hwcall_ok:
  "lr_inv v i (hwcall c s) = lr_inv v i s" "pend v i (hwcall c s) = pend v i s" "act v i (hwcall c s) = act v i s" "same_vcpu v i s (hwcall c s')  = same_vcpu v i s s'"
  by (simp_all add: lr_inv_def vcpu_wf_def pend_def act_def lr_used_def lr_of_def vdesc_def same_vcpu_def fun_eq_iff virq_simps)

lemma pend_upd_ok:
  assumes inv: "lr_inv v i s" and m: "m < vm_irq_count (vms s v)" "unat (vno (vdesc v i m s)) = m"
  defines "s' \<equiv> upd_virqs v i (\<lambda>x. x\<lparr>pending_bitmap := bm_set_bit m (pending_bitmap x), pending_virq := pending_virq x + 1\<rparr>) s"
  shows "lr_inv v i s'" "same_vcpu v i s s'" "pend v i s' c \<longleftrightarrow> c = m \<or> pend v i s c" "act v i s' = act v i s"
proof -
  note wf = lr_invD(1) [OF inv]
  have i: "i < length (vcpus (vms s v))" and cap: "m < bm_cap (pending_bitmap (virqs v i s))" using wf m(1) by (auto simp: vcpu_wf_def)
  show eqs: "same_vcpu v i s s'" "act v i s' = act v i s" using i by (auto simp: s'_def same_vcpu_def act_def fun_eq_iff virq_simps)
  show p: "pend v i s' c \<longleftrightarrow> c = m \<or> pend v i s c" for c using i cap by (simp add: s'_def pend_def virq_simps bm_simps)
  have "vcpu_wf v i s'" "vdesc v i c s' = vdesc v i c s" "lr_used v i s' = lr_used v i s" "gich_lr s' = gich_lr s"
    "last_fail_virq (virqs v i s') = last_fail_virq (virqs v i s)" for c using wf i by (auto simp: s'_def lr_used_def fun_eq_iff virq_simps)
  then show "lr_inv v i s'" using inv eqs p m(2) by (auto simp: lr_inv_def same_vcpu_def lr_of_def)
qed

lemma send_ok:
  assumes inv: "lr_inv v i s" and st: "send_virq_to_vcpu v i n s = Inr (r, s')"
  shows "lr_inv v i s'" "same_vcpu v i s s'" "act v i s' = act v i s" "pend v i s c \<Longrightarrow> pend v i s' c"
    "r = 0 \<Longrightarrow> n < vm_irq_count (vms s v) \<and> pend v i s' (unat (vno (vdesc v i n s)))"
proof -
  have all: "lr_inv v i s' \<and> same_vcpu v i s s' \<and> act v i s' = act v i s \<and> (\<forall>c. pend v i s c \<longrightarrow> pend v i s' c) \<and>
    (r = 0 \<longrightarrow> n < vm_irq_count (vms s v) \<and> pend v i s' (unat (vno (vdesc v i n s))))"
  proof (cases "n < vm_irq_count (vms s v) \<and> r = 0")
    case False
    then have "s' = s" "r \<noteq> 0" using st by (auto simp: send_virq_to_vcpu_def send_virq_def get_virq_desc_vptr Let_def split: if_splits)
    then show ?thesis using inv by simp
  next
    case True
    let ?m = "unat (vno (vdesc v i n s))"
    obtain s1 where s1: "send_virq_inner v i (vptr v i n) s = Inr s1" "s' = virq_kick_vcpu v i (vptr v i n) s1"
      using st True by (auto simp: send_virq_to_vcpu_def send_virq_def get_virq_desc_vptr Let_def split: if_splits)
    have z: "unat (vno (vdesc v i 0 s)) = 0" using lr_invD(2) [OF inv, of 0] by (auto simp: vm_irq_count_def)
    have m: "?m < vm_irq_count (vms s v)" "unat (vno (vdesc v i ?m s)) = ?m"
      using lr_invD(2) [OF inv, of n] True z by (auto simp: vm_irq_count_def)
    note pu = pend_upd_ok [OF inv m]
    let ?s = "upd_virqs v i (\<lambda>x. x\<lparr>pending_bitmap := bm_set_bit ?m (pending_bitmap x), pending_virq := pending_virq x + 1\<rparr>) s"
    have "s1 = s \<and> pend v i s ?m \<or> s1 = ?s \<or> (\<exists>j. s1 = upd_desc (vptr v i n) (\<lambda>d. d\<lparr>vd_src := of_nat j\<rparr>) ?s)"
      using s1(1) by (auto simp: send_virq_inner_def Let_def vdesc_def pend_def split: if_splits option.splits)
    moreover have "lr_inv v i s2 \<and> same_vcpu v i s s2 \<and> act v i s2 = act v i s \<and> pend v i s2 = pend v i ?s"
      if s2: "s2 = upd_desc (vptr v i n) (\<lambda>d. d\<lparr>vd_src := of_nat j\<rparr>) ?s" for s2 j
    proof -
      have n': "n < vm_irq_count (vms ?s v)" using True pu(2) by (simp add: same_vcpu_def)
      have f: "vno (d\<lparr>vd_src := of_nat j\<rparr>) = vno d \<and> vd_id (d\<lparr>vd_src := of_nat j\<rparr>) = vd_id d" for d :: virq_desc by simp
      show ?thesis using desc_upd_ok(1-4) [OF pu(1) n' f] pu(4) same_vcpu_trans [OF pu(2)] unfolding s2 by simp
    qed
    ultimately have "lr_inv v i s1 \<and> same_vcpu v i s s1 \<and> act v i s1 = act v i s \<and> (\<forall>c. pend v i s1 c \<longleftrightarrow> c = ?m \<or> pend v i s c)"
      using pu inv by (elim disjE exE) (auto simp: fun_eq_iff)
    then show ?thesis using True by (simp add: s1(2) virq_kick_vcpu_def hwcall_ok)
  qed
  then show "lr_inv v i s'" "same_vcpu v i s s'" "act v i s' = act v i s" "pend v i s c \<Longrightarrow> pend v i s' c"
    "r = 0 \<Longrightarrow> n < vm_irq_count (vms s v) \<and> pend v i s' (unat (vno (vdesc v i n s)))" by blast+
qed

text \<open>While the guest runs, the hardware changes the state fields of the list registers in use.\<close>

inductive virq_step :: "nat \<Rightarrow> nat \<Rightarrow> virt \<Rightarrow> virt \<Rightarrow> bool" for v i where
  Send: "send_virq_to_vcpu v i n s = Inr (r, s') \<Longrightarrow> virq_step v i s s'"
| Enter: "vgic_irq_enter_to_guest v i s = Some (fl, s') \<Longrightarrow> virq_step v i s s'"
| Guest: "length l = length (gich_lr s) \<Longrightarrow>
    (\<And>k. k < length l \<Longrightarrow> take_bit 28 (l ! k) = take_bit 28 (gich_lr s ! k) \<and> (\<not> lr_used v i s k \<longrightarrow> l ! k = gich_lr s ! k)) \<Longrightarrow>
    virq_step v i s (s\<lparr>gich_lr := l\<rparr>)"
| Exit: "vgic_irq_exit_from_guest v i s = Some s' \<Longrightarrow> virq_step v i s s'"

inductive virq_reach :: "nat \<Rightarrow> nat \<Rightarrow> virt \<Rightarrow> virt \<Rightarrow> bool" for v i where
  Refl: "virq_reach v i s s"
| Step: "virq_reach v i s s1 \<Longrightarrow> virq_step v i s1 s2 \<Longrightarrow> virq_reach v i s s2"

lemma virq_step_inv: "virq_step v i s s' \<Longrightarrow> lr_inv v i s \<Longrightarrow> lr_inv v i s'"
proof (induction rule: virq_step.induct)
  case (Send n s r s')
  then show ?case using send_ok(1) by blast
next
  case (Enter s fl s')
  then show ?case using enter_ok by (fastforce simp: delivered_def)
next
  case (Guest l s)
  let ?s = "s\<lparr>gich_lr := l\<rparr>"
  note wf = lr_invD(1) [OF Guest.prems]
  have len: "length l = nr_lrs (virqs v i s)" using wf Guest.hyps(1) by (simp add: vcpu_wf_def)
  have "take_bit 10 (take_bit 28 w) = take_bit 10 w" for w :: u32 by simp
  then have vid: "lr_vid (l ! k) = lr_vid (gich_lr s ! k)" if "k < nr_lrs (virqs v i s)" for k
    using Guest.hyps(2) [of k] that len unfolding lr_vid_def by metis
  have eqs: "vcpu_wf v i ?s" "pend v i ?s = pend v i s" "act v i ?s = act v i s" "lr_used v i ?s = lr_used v i s" "lr_of v i ?s = lr_of v i s"
    "virqs v i ?s = virqs v i s" "\<And>c. vdesc v i c ?s = vdesc v i c s"
    using wf Guest.hyps(1) by (auto simp: virq_simps pend_def act_def lr_used_def lr_of_def fun_eq_iff)
  have "l ! k = 0" if "k < nr_lrs (virqs v i s)" "\<not> lr_used v i s k" for k
    using Guest.hyps(2) [of k] lr_invD(6) [OF Guest.prems that] that len by simp
  then show ?case using Guest.prems vid eqs unfolding lr_inv_def by auto
next
  case (Exit s s')
  then show ?case using retire_loop_ok [of v i s "vm_irq_count (vms s v)" 0 s'] by (auto simp: vgic_irq_exit_from_guest_def retired_def)
qed

lemma virq_reach_inv: "virq_reach v i s s' \<Longrightarrow> lr_inv v i s \<Longrightarrow> lr_inv v i s'"
  by (induction rule: virq_reach.induct) (auto intro: virq_step_inv)

text \<open>A virtual CPU that was just created satisfies the invariant.\<close>

lemma bm_bit_zero: "b < 64 * n \<Longrightarrow> \<not> bm_bit (replicate n 0) b"
  by (simp add: bm_bit_def less_mult_imp_div_less mult.commute)

lemma init_lr_inv:
  assumes "i < length (vcpus (vms s v))" "has_lr_ops (vms s v)" "last_fail_virq (virqs v i s) = 0" "gicv2_nr_lrs s = nr_lrs (virqs v i s)" "nr_lrs (virqs v i s) \<le> 64"
    "gich_lr s = replicate (nr_lrs (virqs v i s)) 0" "lrs_bitmap (virqs v i s) = replicate 2 0"
  shows "lr_inv v i (vcpu_virq_struct_init v i (snd (virq_create_vm True v s)))"
proof -
  define s' where "s' = vcpu_virq_struct_init v i (snd (virq_create_vm True v s))"
  define n where "n = vm_max_virq_line (vms s v)"
  have n: "n = 416 \<or> n = 96" by (simp add: n_def vm_max_virq_line_def)
  have sel: "vspi_nr (vms s' v) = n" "vspi_desc (vms s' v) = replicate n zero_desc" "length (vcpus (vms s' v)) = length (vcpus (vms s v))"
    "has_lr_ops (vms s' v)" "gich_lr s' = replicate (nr_lrs (virqs v i s)) 0" "gicv2_nr_lrs s' = nr_lrs (virqs v i s)"
    using assms by (simp_all add: s'_def n_def vcpu_virq_struct_init_def virq_create_vm_def Let_def virq_simps has_lr_ops_def)
  have vs: "virqs v i s' = (virqs v i s)\<lparr>active_virq := 0, pending_virq := 0, local_desc := map local_virq_desc [0..<32],
      pending_bitmap := replicate (BITS_TO_LONGS (n + 32)) 0, active_bitmap := replicate (BITS_TO_LONGS (n + 32)) 0\<rparr>"
    using assms(1) by (simp add: s'_def n_def vcpu_virq_struct_init_def virq_create_vm_def Let_def virqs_def upd_virqs_def upd_vm_def)
  have cap: "n + 32 \<le> 64 * BITS_TO_LONGS (n + 32)" using n by (auto simp: BITS_TO_LONGS_def)
  have wf: "vcpu_wf v i s'" using assms sel n cap by (auto simp: vcpu_wf_def vs vm_irq_count_def bm_cap_def)
  have no: "\<not> pend v i s' b" "\<not> act v i s' b" if "b < n + 32" for b
    using bm_bit_zero [of b "BITS_TO_LONGS (n + 32)"] cap that by (auto simp: pend_def act_def vs)
  have free: "\<not> lr_used v i s' k" if "k < nr_lrs (virqs v i s)" for k using bm_bit_zero [of k 2] that assms(5,7) by (simp add: lr_used_def vs)
  have vn: "unat (vno (vdesc v i b s')) = b \<or> 32 \<le> b \<and> vno (vdesc v i b s') = 0" if "b < n + 32" for b
    using that by (auto simp: vdesc_def vptr_def vs sel local_virq_desc_def virq_set_enable_def virq_clear_hw_def zero_desc_def unat_of_nat)
  show ?thesis unfolding s'_def [symmetric] lr_inv_def
    using wf no free vn sel assms(3) by (auto simp: vm_irq_count_def vs)
qed

section \<open>Sets of bits\<close>

lemma set_bits_from_filter: "set_bits_from bm sz b = filter (bm_bit bm) [b..<sz]"
proof (induction "sz - b" arbitrary: b rule: less_induct)
  case less
  let ?b = "find_next_bit bm sz b"
  show ?case
  proof (cases "?b < sz")
    case True
    note ge = next_bit_ge [OF True]
    have "[b..<sz] = [b..<?b] @ ?b # [Suc ?b..<sz]" using ge True upt_add_eq_append [of b ?b "sz - ?b"] by (simp add: upt_conv_Cons)
    moreover have "filter (bm_bit bm) [b..<?b] = []" using next_bit_skip [of b _ bm sz] by (auto simp: filter_empty_conv)
    moreover have "set_bits_from bm sz (Suc ?b) = filter (bm_bit bm) [Suc ?b..<sz]" using less [of "Suc ?b"] ge True by (simp add: diff_less_mono2)
    ultimately show ?thesis using True ge by (subst set_bits_from.simps) (simp add: Let_def)
  next
    case False
    then show ?thesis using next_bit_none [OF False] by (subst set_bits_from.simps) (auto simp: Let_def filter_empty_conv)
  qed
qed

lemma for_each_set_bit_filter: "for_each_set_bit bm sz = filter (bm_bit bm) [0..<sz]"
  by (simp add: for_each_set_bit_def set_bits_from_filter)

section \<open>Properties\<close>

text \<open>
  C36: the loops of the interrupt controller return. Entering and leaving the guest finish in every state, although the
  bodies change the bitmaps the loops run over and the entry loop starts again after a failed injection.
\<close>

theorem vgic_loops_return:
  "(\<exists>fl s'. vgic_irq_enter_to_guest v i s = Some (fl, s')) \<and> (\<exists>s'. vgic_irq_exit_from_guest v i s = Some s')"
  using inject_repeat_total retire_loop_total unfolding vgic_irq_enter_to_guest_def vgic_irq_exit_from_guest_def Let_def by fastforce

text \<open>
  C34: no virtual interrupt is in two list registers. Along every sequence of sending, entering the guest, running it and
  leaving it, the used list registers are exactly those of the active interrupts, each with the number of its
  interrupt; two valid list registers never hold the same interrupt, which the architecture declares unpredictable.
\<close>

theorem list_registers_exclusive:
  assumes "lr_inv v i s" "virq_reach v i s s'"
  shows "lr_inv v i s' \<and> (\<forall>j k. j < length (gich_lr s') \<longrightarrow> k < length (gich_lr s') \<longrightarrow> lr_state (gich_lr s' ! j) \<noteq> 0 \<longrightarrow> lr_state (gich_lr s' ! k) \<noteq> 0 \<longrightarrow>
     lr_vid (gich_lr s' ! j) = lr_vid (gich_lr s' ! k) \<longrightarrow> j = k)"
proof -
  have inv: "lr_inv v i s'" using virq_reach_inv assms by blast
  have "\<exists>b<vm_irq_count (vms s' v). act v i s' b \<and> lr_of v i s' b = k \<and> lr_vid (gich_lr s' ! k) = b"
    if k: "k < length (gich_lr s')" "lr_state (gich_lr s' ! k) \<noteq> 0" for k
  proof -
    have kn: "k < nr_lrs (virqs v i s')" using lr_invD(1) [OF inv] k(1) by (simp add: vcpu_wf_def)
    have "gich_lr s' ! k \<noteq> 0" using k(2) by (auto simp: lr_state_def)
    then have "lr_used v i s' k" using lr_invD(6) [OF inv kn] by blast
    then obtain b where b: "b < vm_irq_count (vms s' v)" "act v i s' b" "lr_of v i s' b = k" using lr_invD(5) [OF inv kn] by blast
    then show ?thesis using lr_invD(4) [OF inv b(1,2)] by auto
  qed
  then show ?thesis using inv by metis
qed


text \<open>A VM with one virtual CPU and four list registers, an SGI and a timer interrupt sent to it.\<close>

definition demo_virt :: virt where
  "demo_virt = \<lparr>vms = (\<lambda>_. \<lparr>vm_state_of = VM_STATE_ONLINE, host_vm = False, vspi_nr = 0, vspi_desc = [], vspi_map = [],
       vcpus = [\<lparr>vcpu_cpu = 0, virqs_of = \<lparr>nr_lrs = 4, last_fail_virq = 0, pending_virq = 0, active_virq = 0, local_desc = replicate 32 zero_desc,
         pending_bitmap = [0], active_bitmap = [0], lrs_bitmap = [0, 0]\<rparr>\<rparr>], chip_of = Some \<lparr>chip_flags = 1, chip_lr_ops = True\<rparr>\<rparr>),
     vm_exists = (\<lambda>v. v = 1), current_vcpu = Some (1, 0), gich_lr = [0, 0, 0, 0], gicv2_nr_lrs = 4, stack_word = 0, hwcalls = []\<rparr>"

definition demo_virt0 :: virt where
  "demo_virt0 = vcpu_virq_struct_init 1 0 (snd (virq_create_vm True 1 demo_virt))"

definition demo_virt1 :: virt where
  "demo_virt1 = snd (projr (send_virq_to_vcpu 1 0 27 (snd (projr (send_virq_to_vcpu 1 0 3 demo_virt0)))))"

lemma demo_virt0_inv: "lr_inv 1 0 demo_virt0"
  unfolding demo_virt0_def by (rule init_lr_inv) (simp_all add: demo_virt_def virqs_def has_lr_ops_def numeral_2_eq_2 eval_nat_numeral)

lemma demo_virt1_inv: "virq_reach 1 0 demo_virt0 demo_virt1" "lr_inv 1 0 demo_virt1"
proof -
  let ?r = "send_virq_to_vcpu 1 0 3 demo_virt0" and ?q = "send_virq_to_vcpu 1 0 27 (snd (projr (send_virq_to_vcpu 1 0 3 demo_virt0)))"
  have "\<not> isl ?r" "\<not> isl ?q" by code_simp+
  then have e: "?r = Inr (fst (projr ?r), snd (projr ?r))" "?q = Inr (fst (projr ?q), demo_virt1)" unfolding demo_virt1_def by (cases ?r; cases ?q; simp)+
  then have "virq_step 1 0 demo_virt0 (snd (projr ?r))" "virq_step 1 0 (snd (projr ?r)) demo_virt1"
    using virq_step.Send [OF e(1)] virq_step.Send [OF e(2)] by simp_all
  then show r: "virq_reach 1 0 demo_virt0 demo_virt1" by (meson virq_reach.intros)
  show "lr_inv 1 0 demo_virt1" by (rule virq_reach_inv [OF r demo_virt0_inv])
qed

theorem list_registers_exclusive_witness:
  "\<exists>s'. virq_reach 1 0 demo_virt0 s' \<and> lr_inv 1 0 s'"
  using list_registers_exclusive [OF demo_virt0_inv demo_virt1_inv(1)] demo_virt1_inv(1) by blast


end
