(* ===== verification/Virq_Props.thy ===== *)
theory Virq_Props
  imports Vgic_Props
begin

text \<open>
  Properties of the interrupt state of a VM as a whole: its tables keep their sizes under every operation, the
  emulated distributor stores what it is given, and two defects: the allocation of interrupt numbers runs past the
  lines of the VM, and a guest can stop the hypervisor with a software-generated interrupt.
\<close>

unbundle bit_operations_syntax

section \<open>Well-formed VMs\<close>

definition virqs_wf :: "nat \<Rightarrow> virq_struct \<Rightarrow> bool" where
  "virqs_wf n x \<longleftrightarrow> length (local_desc x) = VM_LOCAL_VIRQ_NR \<and> n \<le> bm_cap (pending_bitmap x) \<and> n \<le> bm_cap (active_bitmap x) \<and> nr_lrs x \<le> bm_cap (lrs_bitmap x)"

definition vm_wf :: "vm \<Rightarrow> bool" where
  "vm_wf m \<longleftrightarrow> length (vspi_desc m) = vspi_nr m \<and> vspi_nr m \<le> bm_cap (vspi_map m) \<and> (\<forall>c\<in>set (vcpus m). virqs_wf (vm_irq_count m) (virqs_of c))"

definition virt_wf :: "virt \<Rightarrow> bool" where
  "virt_wf s \<longleftrightarrow> (\<forall>v. vm_wf (vms s v))"

text \<open>The primitive updates keep it.\<close>

named_theorems wf_intros

lemma wf_upd_vm:
  assumes "virt_wf s" "\<And>m. vm_wf m \<Longrightarrow> vm_wf (f m)"
  shows "virt_wf (upd_vm v f s)"
  using assms by (simp add: virt_wf_def virq_simps)

lemma wf_upd_virqs [wf_intros]:
  assumes "virt_wf s" "\<And>n x. virqs_wf n x \<Longrightarrow> virqs_wf n (f x)"
  shows "virt_wf (upd_virqs v i f s)"
proof -
  have "vm_wf (m\<lparr>vcpus := (vcpus m)[i := (vcpus m ! i)\<lparr>virqs_of := f (virqs_of (vcpus m ! i))\<rparr>]\<rparr>)" if "vm_wf m" for m
  proof (cases "i < length (vcpus m)")
    case True
    then have "virqs_wf (vm_irq_count m) (virqs_of (vcpus m ! i))" using that by (simp add: vm_wf_def)
    then show ?thesis using that assms(2) set_update_subset_insert [of "vcpus m" i] by (fastforce simp: vm_wf_def vm_irq_count_def)
  qed (use that in \<open>simp add: list_update_beyond\<close>)
  then show ?thesis unfolding upd_virqs_def by (rule wf_upd_vm [OF assms(1)])
qed

lemma wf_upd_desc [wf_intros]: "virt_wf s \<Longrightarrow> virt_wf (upd_desc p f s)"
  by (cases p) (auto intro!: wf_upd_virqs wf_upd_vm simp: virqs_wf_def vm_wf_def vm_irq_count_def)

lemma wf_hwcall [wf_intros]: "virt_wf s \<Longrightarrow> virt_wf (hwcall c s)"
  by (simp add: virt_wf_def virq_simps)

lemma wf_gich_lr [wf_intros]: "virt_wf s \<Longrightarrow> virt_wf (s\<lparr>gich_lr := l\<rparr>)"
  by (simp add: virt_wf_def)

lemma wf_fold: "virt_wf s \<Longrightarrow> (\<And>x s. virt_wf s \<Longrightarrow> virt_wf (f x s)) \<Longrightarrow> virt_wf (fold f xs s)"
  by (induction xs arbitrary: s) auto


lemma wf_config [wf_intros]:
  assumes "virt_wf s"
  shows "virt_wf (snd (virq_set_type v i n x s))" "virt_wf (snd (virq_set_priority v i n y s))" "virt_wf (snd (virq_enable v i n s))"
    "virt_wf (snd (virq_set_fiq v i n s))" "virt_wf (snd (virq_disable v i n s))" "virt_wf (virqchip_update_virq v d a s)" "virt_wf (virqchip_send_virq v d s)"
  using assms by (auto simp: virq_set_type_def virq_set_priority_def virq_enable_def virq_set_fiq_def virq_disable_def virqchip_update_virq_def
      virqchip_send_virq_def gicv2_update_virq_def gicv2_send_virq_def Let_def intro!: wf_intros split: option.splits)



lemma wf_Let: "virt_wf a \<Longrightarrow> (\<And>x. virt_wf x \<Longrightarrow> virt_wf (f x)) \<Longrightarrow> virt_wf (Let a f)"
  "virt_wf a \<Longrightarrow> (\<And>x. virt_wf x \<Longrightarrow> virt_wf (snd (g x))) \<Longrightarrow> virt_wf (snd (Let a g))"
  by (simp_all add: Let_def)

lemma wf_if: "(b \<Longrightarrow> virt_wf x) \<Longrightarrow> (\<not> b \<Longrightarrow> virt_wf y) \<Longrightarrow> virt_wf (if b then x else y)"
  by simp

lemma wf_update_cap [wf_intros]: "virt_wf s \<Longrightarrow> virt_wf (update_virq_cap p fl s)"
  unfolding update_virq_cap_def by (intro wf_Let wf_if wf_upd_desc wf_hwcall)

lemma wf_spi_map: "virt_wf s \<Longrightarrow> virt_wf (upd_vm v (\<lambda>m. m\<lparr>vspi_map := bm_set_bit k (vspi_map m)\<rparr>) s)"
  by (rule wf_upd_vm) (auto simp: vm_wf_def vm_irq_count_def)

lemma wf_request [wf_intros]: "virt_wf s \<Longrightarrow> virt_wf (snd (request_virq_inner v i p n h fl s))"
  unfolding request_virq_inner_def
  by (cases "virq_is_requested (desc_at p s)") (simp_all, intro wf_Let wf_if wf_upd_desc wf_hwcall wf_spi_map, simp_all add: wf_update_cap wf_upd_desc wf_hwcall)

lemma wf_requests [wf_intros]:
  assumes "virt_wf s"
  shows "virt_wf (snd (request_virq_affinity v n h a fl s))" "virt_wf (snd (request_hw_virq v n h fl s))" "virt_wf (snd (request_virq v n fl s))"
    "virt_wf (snd (request_virq_pervcpu v n fl s))" "virt_wf (snd (alloc_vm_virq v s))"
proof -
  show a: "virt_wf (snd (request_virq_affinity v n h a fl s))" for n h a fl
    using assms by (auto simp: request_virq_affinity_def intro!: wf_request split: option.splits)
  then show b: "virt_wf (snd (request_hw_virq v n h fl s))" for n h fl using assms by (auto simp: request_hw_virq_def)
  then show "virt_wf (snd (request_virq v n fl s))" by (simp add: request_virq_def)
  show "virt_wf (snd (request_virq_pervcpu v n fl s))"
    using assms by (auto simp: request_virq_pervcpu_def intro!: wf_fold wf_intros split: option.splits)
  show "virt_wf (snd (alloc_vm_virq v s))" using assms b by (auto simp: alloc_vm_virq_def Let_def request_virq_def)
qed

lemma wf_create [wf_intros]:
  assumes "virt_wf s"
  shows "virt_wf (snd (virq_create_vm True v s))" "virt_wf (vcpu_virq_struct_init v i s)" "virt_wf (vcpu_virq_struct_reset v i s)" "virt_wf (vm_virq_reset v s)"
    "virt_wf (snd (virq_destroy_vm v s))"
proof -
  have len: "length (zero_bits n bm) = length bm" for n bm by (auto simp: zero_bits_def)
  have cap: "n \<le> 64 * ((n + 63) div 64)" for n :: nat using div_mult_mod_eq [of "n + 63" 64] mod_less_divisor [of 64 "n + 63"] by linarith
  show "virt_wf (snd (virq_create_vm True v s))"
    using assms unfolding virt_wf_def virq_create_vm_def BITS_TO_LONGS_def
    using cap [of "vm_max_virq_line (vms s v)"] cap [of "vm_max_virq_line (vms s v) + 32"]
    by (simp add: Let_def virq_simps vm_wf_def virqs_wf_def vm_irq_count_def bm_cap_def add.commute)
  have i: "virt_wf (vcpu_virq_struct_init v i s)" if "virt_wf s" for s using that by (auto simp: vcpu_virq_struct_init_def virqs_wf_def intro!: wf_intros)
  show "virt_wf (vcpu_virq_struct_init v i s)" by (rule i [OF assms])
  show "virt_wf (vcpu_virq_struct_reset v i s)"
    using assms unfolding vcpu_virq_struct_reset_def Let_def by (intro i wf_upd_virqs) (auto simp: virqs_wf_def bm_cap_def len)
  show "virt_wf (vm_virq_reset v s)" using assms unfolding vm_virq_reset_def Let_def by (intro wf_fold wf_if wf_hwcall wf_upd_desc)
  show "virt_wf (snd (virq_destroy_vm v s))" using assms unfolding virq_destroy_vm_def
    by (auto simp: Let_def intro!: wf_fold wf_intros)
qed










section \<open>Operations\<close>


section \<open>Properties\<close>



lemma foldR_panics:
  assumes "P s" "b \<in> set xs" "\<And>s. P s \<Longrightarrow> f b s = Inl Panicked" "\<And>x s. P s \<Longrightarrow> f x s = Inl Panicked \<or> (\<exists>s'. f x s = Inr s' \<and> P s')"
  shows "foldR f xs s = Inl Panicked"
  using assms(1,2)
proof (induction xs arbitrary: s)
  case (Cons x xs)
  consider "f x s = Inl Panicked" | s' where "f x s = Inr s'" "P s'" "x \<noteq> b" using assms(3,4) [OF Cons.prems(1)] by fastforce
  then show ?case using Cons by cases auto
qed simp

lemma bm_bit_fold_set: "(\<forall>x\<in>set xs. x < bm_cap m) \<Longrightarrow> b < bm_cap m \<Longrightarrow> bm_bit (fold bm_set_bit xs m) b \<longleftrightarrow> b \<in> set xs \<or> bm_bit m b"
  by (induction xs arbitrary: m) (auto simp: bm_simps)

lemma send_keeps:
  assumes "current_vcpu s = Some c"
  shows "\<exists>r s'. send_virq_to_vcpu v j n s = Inr (r, s') \<and> current_vcpu s' = Some c \<and> length (vcpus (vms s' v)) = length (vcpus (vms s v))"
proof -
  have "\<exists>s'. send_virq_inner v j p s = Inr s' \<and> current_vcpu s' = Some c \<and> length (vcpus (vms s' v)) = length (vcpus (vms s v))" for p
    using assms by (auto simp: send_virq_inner_def Let_def virq_simps split: option.splits prod.splits)
  then show ?thesis using assms unfolding send_virq_to_vcpu_def send_virq_def virq_kick_vcpu_def
    by (fastforce simp: Let_def virq_simps split: option.splits)
qed

text \<open>
  C38: a guest can stop the hypervisor. A write to the software-generated interrupt register whose target list names a
  CPU number that the VM does not have, but the machine has, panics.
\<close>

theorem guest_sgi_panics:
  assumes c: "current_vcpu s = Some c" and b: "length (vcpus (vms s v)) \<le> b" "b < NR_CPUS" and list: "bit (ucast value :: u32) (16 + b)" and mode: "drop_bit 24 (ucast value :: u32) AND 3 = 0"
  shows "vgicv2_write v i gic 0xf00 value s = Inl Panicked"
proof -
  let ?x = "ucast value :: u32"
  let ?f = "\<lambda>b s. case get_vcpu_in_vm v b s of None \<Rightarrow> Inl Panicked
      | Some (w, j) \<Rightarrow> thenR (send_virq_to_vcpu w j (unat (?x AND 0xf)) s) (\<lambda>(ret, s). Inr s)"
  let ?P = "\<lambda>s'. current_vcpu s' = Some c \<and> length (vcpus (vms s' v)) = length (vcpus (vms s v))"
  have "b = 0 \<or> b = 1 \<or> b = 2 \<or> b = 3" using b(2) by linarith
  then have "bm_bit [ucast (drop_bit 16 ?x AND 0xff) :: u64] b" using list by (auto simp: bm_bit_def bit_simps)
  then have "b \<in> set (for_each_set_bit [ucast (drop_bit 16 ?x AND 0xff) :: u64] 8)" using b(2) by (simp add: for_each_set_bit_filter)
  then have "bm_bit (sgi_targets v i ?x s) b" using mode b(2) unfolding sgi_targets_def Let_def
    by (subst if_P) (simp, subst bm_bit_fold_set, auto simp: for_each_set_bit_filter bm_cap_def)
  then have "b \<in> set (for_each_set_bit (sgi_targets v i ?x s) NR_CPUS)" using b(2) by (simp add: for_each_set_bit_filter)
  then have "foldR ?f (for_each_set_bit (sgi_targets v i ?x s) NR_CPUS) s = Inl Panicked"
  proof (rule foldR_panics [of ?P, rotated])
    show "?f b s' = Inl Panicked" if "?P s'" for s' using that b by (simp add: get_vcpu_in_vm_def)
    show "?f x s' = Inl Panicked \<or> (\<exists>s''. ?f x s' = Inr s'' \<and> ?P s'')" if "?P s'" for x s'
      using that send_keeps [of s' c v x "unat (?x AND 0xf)"] by (auto simp: get_vcpu_in_vm_def)
  qed (use c in simp)
  then have "vgicv2_send_sgi v i ?x s = Inl Panicked" using mode by (simp add: vgicv2_send_sgi_def)
  then show ?thesis by (simp add: vgicv2_write_def)
qed

text \<open>
  C39: interrupt numbers run out silently. When all lines of the VM are taken, \<^verbatim>\<open>alloc_vm_virq\<close> returns the first number
  past them without requesting it, and again at every further call.
\<close>

theorem alloc_vm_virq_overrun:
  assumes nr: "vspi_nr (vms s v) = vm_max_virq_line (vms s v)"
    and full: "\<And>k. k < vm_max_virq_line (vms s v) - VM_LOCAL_VIRQ_NR \<Longrightarrow> bm_bit (vspi_map (vms s v)) k"
    and free: "\<not> bm_bit (vspi_map (vms s v)) (vm_max_virq_line (vms s v) - VM_LOCAL_VIRQ_NR)"
  shows "alloc_vm_virq v s = (int (vm_max_virq_line (vms s v)), s)"
proof -
  let ?n = "vm_max_virq_line (vms s v)" and ?m = "vspi_map (vms s v)"
  have n: "VM_LOCAL_VIRQ_NR \<le> ?n" by (simp add: vm_max_virq_line_def)
  have "is_first (\<lambda>i. \<not> bm_bit ?m i) 0 ?n (?n - VM_LOCAL_VIRQ_NR)" using full free by (auto simp: is_first_def)
  then have "find_next_zero_bit ?m ?n 0 = ?n - VM_LOCAL_VIRQ_NR" using is_first_unique find_next_zero_bit_first by blast
  then have "find_next_zero_bit_loop ?m ?n 0 = ?n - VM_LOCAL_VIRQ_NR" by (simp add: find_next_zero_bit_loop_def find_next_bit_loop_gen_def find_next_zero_bit_def)
  then show ?thesis using nr n by (auto simp: alloc_vm_virq_def Let_def request_virq_def request_hw_virq_def vm_max_virq_line_def)
qed

text \<open>The VM of the example has one virtual CPU; its guest names CPU 2.\<close>

theorem guest_sgi_panics_witness:
  "vgicv2_write 1 0 \<lparr>gicd_ctlr = 1, gicd_typer = 0, gicd_iidr = 0\<rparr> 0xf00 0x40001 demo_virt0 = Inl Panicked"
proof -
  have "current_vcpu demo_virt0 = Some (1, 0)" "length (vcpus (vms demo_virt0 1)) = 1"
    by (simp_all add: demo_virt0_def vcpu_virq_struct_init_def virq_create_vm_def demo_virt_def Let_def virq_simps)
  moreover have "bit (ucast (0x40001 :: u64) :: u32) (16 + 2)" "drop_bit 24 (ucast (0x40001 :: u64) :: u32) AND 3 = 0" by code_simp+
  ultimately show ?thesis using guest_sgi_panics [of demo_virt0 "(1, 0)" 1 2 "0x40001" 0] by simp
qed

text \<open>A guest VM whose 64 lines are all requested.\<close>

definition demo_full :: virt where
  "demo_full = upd_vm 1 (\<lambda>m. m\<lparr>vspi_map := [0xffffffffffffffff, 0]\<rparr>) demo_virt0"

theorem alloc_vm_virq_overrun_witness: "alloc_vm_virq 1 demo_full = (96, demo_full)"
proof -
  have m: "vspi_map (vms demo_full 1) = [NOT 0, 0]" "vspi_nr (vms demo_full 1) = 96" "vm_max_virq_line (vms demo_full 1) = 96"
    by (simp_all add: demo_full_def demo_virt0_def vcpu_virq_struct_init_def virq_create_vm_def demo_virt_def Let_def virq_simps vm_max_virq_line_def)
  have "bm_bit (vspi_map (vms demo_full 1)) k" if "k < 64" for k using that unfolding m bm_bit_def by (simp add: bit_simps)
  moreover have "\<not> bm_bit (vspi_map (vms demo_full 1)) 64" unfolding m bm_bit_def by simp
  ultimately show ?thesis using alloc_vm_virq_overrun [of demo_full 1] m by simp
qed

end
