(* ===== verification/Spec2Isabelle.thy ===== *)
theory Spec2Isabelle
  imports Minos_Prelude Bitmap Timer Kernel Sched Sched_Inv Sched_Props Task Event Ipc Queue Mem_Region Mem Mem_Pages Stage2 Stage2_Props Stage2_Unmap Virq Vgic Vgic_Props Virq_Props
begin

text \<open>
  Verification library for the Minos hypervisor (C, AArch64).
\<close>

end
